(* ===== verification/Prelude.thy ===== *)
theory Prelude
  imports Main "HOL-Library.Multiset" "HOL-Library.Sublist"
begin

section \<open>Shared vocabulary\<close>

text \<open>
  What several components of the runtime share: Go's \<open>error\<close> values and \<open>errors.Is\<close>, the
  64-bit width of \<open>time.Duration\<close> and \<open>uint64\<close> counters, the saturating difference of
  two \<open>time.Time\<close> values, a few list lemmas, and the contract that the two failure algebras of
  the code have in common (\<open>outcome.Cause\<close> under \<open>Then\<close> and \<open>Both\<close>,
  \<open>config.Error\<close> under \<open>And\<close> and \<open>Or\<close>): composition with an identity that
  keeps every leaf, in order.
\<close>

named_theorems outcome_defs \<open>definitions of the outcome component\<close>
named_theorems queue_defs \<open>definitions of the queue component\<close>
named_theorems range_simps \<open>facts about 64-bit ranges\<close>

subsection \<open>Go error values\<close>

text \<open>
  An \<open>error\<close> made by \<open>errors.New\<close> is a pointer, so two of them are equal only when they
  are the same allocation: \<open>err_id\<close> stands for that identity. \<open>err_wraps\<close> is what
  \<open>Unwrap\<close> answers (at most one error for \<open>fmt.Errorf\<close> with one \<open>%w\<close>, several
  for a joined error). A nil \<open>error\<close> is \<open>None\<close>.
\<close>

datatype go_err = GoErr (err_id: nat) (err_text: string) (err_wraps: "go_err list")

type_synonym nilable_err = "go_err option"

text \<open>The library's \<open>errors.Is\<close>: the error itself or anything beneath it, depth first.\<close>

fun errors_is :: "go_err \<Rightarrow> go_err \<Rightarrow> bool" where
  "errors_is (GoErr i t ws) target =
     (GoErr i t ws = target \<or> list_ex (\<lambda>w. errors_is w target) ws)"

lemma errors_is_refl [simp]: "errors_is e e"
  by (cases e) simp

lemma errors_is_trans: "errors_is e f \<Longrightarrow> errors_is f g \<Longrightarrow> errors_is e g"
proof (induction e f rule: errors_is.induct)
  case (1 i t ws target)
  from "1.prems"(1) consider "GoErr i t ws = target"
    | w where "w \<in> set ws" "errors_is w target"
    by (auto simp: list_ex_iff)
  then show ?case
  proof cases
    case 1
    with "1.prems"(2) show ?thesis by simp
  next
    case 2
    with "1.IH" "1.prems"(2) have "errors_is w g" by blast
    with 2(1) show ?thesis by (auto simp: list_ex_iff)
  qed
qed

subsection \<open>Machine widths\<close>

text \<open>
  \<open>time.Duration\<close> is an \<open>int64\<close> number of nanoseconds: \<open>wrap64\<close> is what its
  arithmetic does with a result outside the range. \<open>max_duration\<close> is \<open>1<<63 - 1\<close>.
\<close>

definition max_duration :: int where
  "max_duration = 2 ^ 63 - 1"

definition min_duration :: int where
  "min_duration = - (2 ^ 63)"

definition in_int64 :: "int \<Rightarrow> bool" where
  "in_int64 i \<longleftrightarrow> min_duration \<le> i \<and> i \<le> max_duration"

definition wrap64 :: "int \<Rightarrow> int" where
  "wrap64 i = (i + 2 ^ 63) mod 2 ^ 64 - 2 ^ 63"

lemma wrap64_id [simp]: "in_int64 i \<Longrightarrow> wrap64 i = i"
  by (simp add: wrap64_def in_int64_def max_duration_def min_duration_def)

lemma wrap64_in_int64 [simp]: "in_int64 (wrap64 i)"
proof -
  have "0 \<le> (i + 2 ^ 63) mod 2 ^ 64" and "(i + 2 ^ 63) mod 2 ^ 64 < (2 ^ 64 :: int)"
    by simp_all
  then show ?thesis
    by (simp add: wrap64_def in_int64_def max_duration_def min_duration_def)
qed

lemma in_int64_0 [simp]: "in_int64 0"
  by (simp add: in_int64_def max_duration_def min_duration_def)

lemma max_duration_pos [simp]: "0 < max_duration" "0 \<le> max_duration"
  by (simp_all add: max_duration_def)

text \<open>
  \<open>t.Sub(u)\<close> answers the exact difference when a \<open>Duration\<close> can hold it, and otherwise the
  nearest \<open>Duration\<close>. A \<open>time.Time\<close> is an integer number of nanoseconds here.
\<close>

definition time_sub :: "int \<Rightarrow> int \<Rightarrow> int" where
  "time_sub t u = max min_duration (min max_duration (t - u))"

lemma time_sub_in_int64 [simp]: "in_int64 (time_sub t u)"
  by (auto simp: time_sub_def in_int64_def min_duration_def max_duration_def)

lemma time_sub_exact [simp]: "in_int64 (t - u) \<Longrightarrow> time_sub t u = t - u"
  by (auto simp: time_sub_def in_int64_def)

lemma time_sub_le: "0 \<le> t - u \<Longrightarrow> time_sub t u \<le> t - u"
  by (simp add: time_sub_def min_duration_def max_duration_def)

text \<open>A \<open>uint64\<close> counter saturates in this code; \<open>max_count\<close> is \<open>^uint64(0)\<close>.\<close>

definition max_count :: nat where
  "max_count = 2 ^ 64 - 1"

text \<open>Go's integer division truncates towards zero, as its other operators do on negatives.\<close>

definition go_div :: "int \<Rightarrow> int \<Rightarrow> int" where
  "go_div a b = sgn a * sgn b * (\<bar>a\<bar> div \<bar>b\<bar>)"

lemma go_div_nonneg: "0 \<le> a \<Longrightarrow> 0 < b \<Longrightarrow> go_div a b = a div b"
  by (cases "a = 0") (simp_all add: go_div_def)

subsection \<open>Lists\<close>

lemma foldl_append_concat:
  assumes "\<And>a x. f (g a x) = f a @ h x"
  shows "f (foldl g a xs) = f a @ concat (map h xs)"
  using assms by (induction xs arbitrary: a) simp_all

lemma pair_in_fst: "(a, b) \<in> A \<Longrightarrow> a \<in> fst ` A"
  by force

subsection \<open>The contract of a failure algebra\<close>

text \<open>
  A composition with an identity, and leaves that composition keeps in order. Clients fold a list
  of causes into one (a scope's finalizers, a collection's branches, a table's entries): whatever
  the tree that comes out, its leaves are theirs, in order.
\<close>

locale failure_algebra =
  fixes empty :: 'c
    and compose :: "'c \<Rightarrow> 'c \<Rightarrow> 'c"
    and leaves :: "'c \<Rightarrow> 'l list"
    and valid :: "'c \<Rightarrow> bool"
  assumes empty_left [simp]: "compose empty c = c"
    and empty_right [simp]: "compose c empty = c"
    and leaves_compose [simp]: "leaves (compose c d) = leaves c @ leaves d"
    and valid_empty [simp]: "valid empty"
    and valid_compose [simp]: "valid c \<Longrightarrow> valid d \<Longrightarrow> valid (compose c d)"
    and leaves_Nil_iff: "valid c \<Longrightarrow> leaves c = [] \<longleftrightarrow> c = empty"
begin

lemma leaves_empty [simp]: "leaves empty = []"
  by (simp add: leaves_Nil_iff)

lemma compose_empty_iff:
  "valid c \<Longrightarrow> valid d \<Longrightarrow> compose c d = empty \<longleftrightarrow> c = empty \<and> d = empty"
  using leaves_Nil_iff [of "compose c d"] by (auto simp: leaves_Nil_iff)

lemma leaves_foldl: "leaves (foldl compose c cs) = leaves c @ concat (map leaves cs)"
  by (rule foldl_append_concat) simp

lemma valid_foldl: "valid c \<Longrightarrow> (\<And>d. d \<in> set cs \<Longrightarrow> valid d) \<Longrightarrow> valid (foldl compose c cs)"
  by (induction cs arbitrary: c) auto

lemma foldl_empty_iff:
  "valid c \<Longrightarrow> (\<And>d. d \<in> set cs \<Longrightarrow> valid d) \<Longrightarrow>
   foldl compose c cs = empty \<longleftrightarrow> c = empty \<and> (\<forall>d\<in>set cs. d = empty)"
proof (induction cs arbitrary: c)
  case Nil
  then show ?case by simp
next
  case (Cons d cs)
  then have "valid (compose c d)" by simp
  with Cons show ?case by (auto simp: compose_empty_iff)
qed

lemma foldl_all_empty: "\<forall>d\<in>set cs. d = empty \<Longrightarrow> foldl compose c cs = c"
  by (induction cs arbitrary: c) simp_all

lemma leaves_assoc: "leaves (compose (compose c d) e) = leaves (compose c (compose d e))"
  by simp

end

subsection \<open>Step relations that make progress\<close>

text \<open>
  The interface of a step relation with an invariant and a bound on what remains: until it is
  finished some step is possible, and every step uses up some of the bound. Its clients get that
  every run is bounded and that every state can run to its end.
\<close>

locale progressing =
  fixes step :: "'s \<Rightarrow> 's \<Rightarrow> bool" and inv :: "'s \<Rightarrow> bool" and finished :: "'s \<Rightarrow> bool" and remaining :: "'s \<Rightarrow> nat"
  assumes keeps: "step s s' \<Longrightarrow> inv s \<Longrightarrow> inv s'"
    and decreases: "step s s' \<Longrightarrow> inv s \<Longrightarrow> remaining s' < remaining s"
    and moves: "inv s \<Longrightarrow> \<not> finished s \<Longrightarrow> \<exists>s'. step s s'"
begin

lemma run_keeps: "(step ^^ n) s s' \<Longrightarrow> inv s \<Longrightarrow> inv s'"
  by (induction n arbitrary: s') (auto intro: keeps)

lemma run_bounded: "(step ^^ n) s s' \<Longrightarrow> inv s \<Longrightarrow> n + remaining s' \<le> remaining s"
proof (induction n arbitrary: s')
  case (Suc n)
  then obtain t where "(step ^^ n) s t" "step t s'" by auto
  with Suc.IH [of t] Suc.prems(2) decreases [of t s'] run_keeps [of n s t] show ?case by simp
qed simp

lemma run_ends: "inv s \<Longrightarrow> \<exists>s'. step\<^sup>*\<^sup>* s s' \<and> finished s'"
proof (induction "remaining s" arbitrary: s rule: less_induct)
  case less
  show ?case
  proof (cases "finished s")
    case False
    with moves less.prems obtain t where t: "step s t" by blast
    then have "inv t" "remaining t < remaining s" using less.prems keeps decreases by blast+
    with less.hyps obtain s' where "step\<^sup>*\<^sup>* t s'" "finished s'" by blast
    with t show ?thesis by (meson converse_rtranclp_into_rtranclp)
  qed blast
qed

end

end
