(* ===== verification/Go_Strings.thy ===== *)
theory Go_Strings
  imports Prelude "HOL-Library.Char_ord" "HOL-Library.List_Lexorder"
begin

section \<open>Strings\<close>

text \<open>
  What the code uses of Go's \<open>strings\<close>, \<open>strconv\<close> and \<open>sort\<close>, on ASCII text: a string is
  its list of bytes, and white space and letter case are those of ASCII.
\<close>

fun join_with :: "string \<Rightarrow> string list \<Rightarrow> string" where
  "join_with sep [] = []"
| "join_with sep [s] = s"
| "join_with sep (s # ss) = s @ sep @ join_with sep ss"

definition has_prefix :: "string \<Rightarrow> string \<Rightarrow> bool" where
  "has_prefix s p \<longleftrightarrow> take (length p) s = p"

definition trim_prefix :: "string \<Rightarrow> string \<Rightarrow> string" where
  "trim_prefix s p = (if has_prefix s p then drop (length p) s else s)"

text \<open>\<open>Cut\<close>: what is before and after the first separator, and whether there is one.\<close>

fun cut :: "string \<Rightarrow> string \<Rightarrow> string \<times> string \<times> bool" where
  "cut [] sep = (if sep = [] then ([], [], True) else ([], [], False))"
| "cut (c # cs) sep =
     (if has_prefix (c # cs) sep then ([], drop (length sep) (c # cs), True)
      else case cut cs sep of (before, after, found) \<Rightarrow> (c # before, after, found))"

lemma cut_after_shorter: "cut s sep = (b, a, True) \<Longrightarrow> sep \<noteq> [] \<Longrightarrow> length a < length s"
  by (induction s sep arbitrary: b a rule: cut.induct)
     (auto simp: has_prefix_def split: if_splits prod.splits)

text \<open>\<open>Split\<close>: an empty separator splits after every character.\<close>

function split :: "string \<Rightarrow> string \<Rightarrow> string list" where
  "split s sep =
     (if sep = [] then map (\<lambda>c. [c]) s
      else case cut s sep of
        (before, after, True) \<Rightarrow> before # split after sep
      | (before, _, False) \<Rightarrow> [before])"
  by pat_completeness auto
termination
  by (relation "measure (\<lambda>(s, _). length s)") (auto dest: cut_after_shorter [OF sym])

declare split.simps [simp del]

definition is_space :: "char \<Rightarrow> bool" where
  "is_space c \<longleftrightarrow> c \<in> {CHR 0x09, CHR 0x0A, CHR 0x0B, CHR 0x0C, CHR 0x0D, CHR '' ''}"

definition trim_space :: "string \<Rightarrow> string" where
  "trim_space s = rev (dropWhile is_space (rev (dropWhile is_space s)))"

definition upper_char :: "char \<Rightarrow> char" where
  "upper_char c = (if CHR ''a'' \<le> c \<and> c \<le> CHR ''z'' then char_of (of_char c - (32 :: nat)) else c)"

definition lower_char :: "char \<Rightarrow> char" where
  "lower_char c = (if CHR ''A'' \<le> c \<and> c \<le> CHR ''Z'' then char_of (of_char c + (32 :: nat)) else c)"

definition to_upper :: "string \<Rightarrow> string" where
  "to_upper = map upper_char"

definition to_lower :: "string \<Rightarrow> string" where
  "to_lower = map lower_char"

text \<open>\<open>Atoi\<close>: an optional sign and decimal digits, within an \<open>int64\<close>; \<open>None\<close> is its error.\<close>

definition digit_value :: "char \<Rightarrow> int option" where
  "digit_value c =
     (if CHR ''0'' \<le> c \<and> c \<le> CHR ''9'' then Some (int (of_char c) - 48) else None)"

fun digits_value :: "int \<Rightarrow> string \<Rightarrow> int option" where
  "digits_value acc [] = Some acc"
| "digits_value acc (c # cs) =
     (case digit_value c of None \<Rightarrow> None | Some d \<Rightarrow> digits_value (10 * acc + d) cs)"

definition atoi :: "string \<Rightarrow> int option" where
  "atoi s =
     (let (negative, ds) =
        (case s of [] \<Rightarrow> (False, [])
         | c # cs \<Rightarrow> if c = CHR ''-'' then (True, cs) else if c = CHR ''+'' then (False, cs) else (False, s))
      in if ds = [] then None
         else case digits_value 0 ds of
           None \<Rightarrow> None
         | Some n \<Rightarrow> let v = (if negative then - n else n) in if in_int64 v then Some v else None)"

text \<open>A line's end, and a number in decimal: \<open>strconv.Itoa\<close> and the verb \<open>%d\<close>.\<close>

definition newline :: char where
  "newline = CHR 0x0A"

fun digits_of :: "nat \<Rightarrow> string" where
  "digits_of n = (if n < 10 then [char_of (48 + n)] else digits_of (n div 10) @ [char_of (48 + n mod 10)])"

declare digits_of.simps [simp del]

definition decimal :: "int \<Rightarrow> string" where
  "decimal i = (if i < 0 then ''-'' @ digits_of (nat (- i)) else digits_of (nat i))"

lemma decimal_digits: "digits_of 0 = ''0''" "digits_of 1 = ''1''"
  by code_simp+

lemma digits_of_value:
  "foldl (\<lambda>acc c. 10 * acc + (of_char c - 48)) 0 (digits_of n) = n"
proof (induction n rule: digits_of.induct)
  case (1 n)
  have "of_char (char_of (48 + d) :: char) - 48 = (d :: nat)" if "d < 10" for d
    using that by (simp add: of_char_of)
  with 1 show ?case by (simp add: digits_of.simps [of n])
qed

lemma digits_of_inject [simp]: "digits_of m = digits_of n \<longleftrightarrow> m = n"
  by (metis digits_of_value)

text \<open>The searches of \<open>strings\<close>: a suffix, a part, and where a part occurs last.\<close>

definition has_suffix :: "string \<Rightarrow> string \<Rightarrow> bool" where
  "has_suffix s p \<longleftrightarrow> has_prefix (rev s) (rev p)"

fun contains_text :: "string \<Rightarrow> string \<Rightarrow> bool" where
  "contains_text [] t = (t = [])"
| "contains_text (c # cs) t = (has_prefix (c # cs) t \<or> contains_text cs t)"

fun last_index :: "string \<Rightarrow> string \<Rightarrow> nat option" where
  "last_index [] t = (if t = [] then Some 0 else None)"
| "last_index (c # cs) t =
     (case last_index cs t of
        Some i \<Rightarrow> Some (Suc i)
      | None \<Rightarrow> if has_prefix (c # cs) t then Some 0 else None)"

text \<open>Insertion into a list that keeps its first occurrences: the loops with a \<open>seen\<close> map.\<close>

definition insert_new :: "'a \<Rightarrow> 'a list \<Rightarrow> 'a list" where
  "insert_new x xs = (if x \<in> set xs then xs else xs @ [x])"

lemma insert_new_simps [simp]:
  "set (insert_new x xs) = insert x (set xs)" "distinct xs \<Longrightarrow> distinct (insert_new x xs)"
  by (auto simp: insert_new_def)

lemma foldl_insert_new:
  "distinct acc \<Longrightarrow> distinct (foldl (\<lambda>acc x. insert_new x acc) acc xs)
   \<and> set (foldl (\<lambda>acc x. insert_new x acc) acc xs) = set acc \<union> set xs"
  by (induction xs arbitrary: acc) auto

lemma join_with_Cons: "ss \<noteq> [] \<Longrightarrow> join_with sep (s # ss) = s @ sep @ join_with sep ss"
  by (cases ss) simp_all

lemma join_with_append:
  "ss \<noteq> [] \<Longrightarrow> ts \<noteq> [] \<Longrightarrow> join_with sep (ss @ ts) = join_with sep ss @ sep @ join_with sep ts"
proof (induction ss)
  case (Cons s ss)
  then show ?case by (cases "ss = []") (simp_all add: join_with_Cons)
qed simp

subsection \<open>Words\<close>

text \<open>\<^verbatim>\<open>strings.Fields\<close>: the words between white space.\<close>

function fields_of :: "string \<Rightarrow> string list" where
  "fields_of s =
     (let rest = dropWhile is_space s in
      if rest = [] then [] else takeWhile (\<lambda>c. \<not> is_space c) rest # fields_of (dropWhile (\<lambda>c. \<not> is_space c) rest))"
  by pat_completeness auto

termination
proof (relation "measure length", simp)
  fix s rest :: string assume rest: "rest = dropWhile is_space s" "rest \<noteq> []"
  then have "\<not> is_space (hd rest)" by (metis hd_dropWhile)
  then have "length (dropWhile (\<lambda>c. \<not> is_space c) rest) < length rest"
    using rest(2) by (cases rest) (auto simp: le_imp_less_Suc length_dropWhile_le)
  also have "\<dots> \<le> length s" using rest(1) by (simp add: length_dropWhile_le)
  finally show "(dropWhile (\<lambda>c. \<not> is_space c) rest, s) \<in> measure length" by simp
qed

declare fields_of.simps [simp del]

end
