(* ===== verification/Go_Syntax.thy ===== *)
theory Go_Syntax
  imports Go_Strings
begin

section \<open>Syntax trees\<close>

text \<open>
  What the rewriter under \<^verbatim>\<open>tools/effectgo/rewrite\<close> uses of \<^verbatim>\<open>go/ast\<close>, \<^verbatim>\<open>go/token\<close> and
  \<^verbatim>\<open>go/types\<close>. A node has its kind, the positions \<^verbatim>\<open>Pos\<close> and \<^verbatim>\<open>End\<close> answer, and its
  children in the order \<^verbatim>\<open>ast.Walk\<close> visits them, each under the field that holds it. Two nodes of one
  file are the same pointer exactly when they are equal: their positions tell them apart.
\<close>

datatype kind =
    Ident string | BasicLit | CompositeLit | FuncLit | ParenExpr | SelectorExpr | IndexExpr | IndexListExpr
  | SliceExpr | TypeAssertExpr | CallExpr | StarExpr | UnaryExpr string | BinaryExpr string | KeyValueExpr
  | DeclStmt | EmptyStmt | LabeledStmt | ExprStmt | SendStmt | IncDecStmt | AssignStmt string | GoStmt
  | DeferStmt | ReturnStmt | BranchStmt string | BlockStmt | IfStmt | CaseClause | SwitchStmt | TypeSwitchStmt
  | CommClause | SelectStmt | ForStmt | RangeStmt string | GenDecl string | FuncType | FieldList | Field | OtherNode

datatype slot =
    AtX | AtY | AtFun | AtArgs | AtSel | AtLabel | AtLhs | AtRhs | AtResults | AtInit | AtCond | AtPost
  | AtTag | AtAssign | AtBody | AtElse | AtList | AtKey | AtValue | AtType | AtChan | AtCall | AtCase | AtParams | AtNames | AtOther

datatype node = Node (shape: kind) (pos: nat) (end_of: nat) (kids: "(slot \<times> node) list")

definition children :: "slot \<Rightarrow> node \<Rightarrow> node list" where
  "children f n = map snd (filter (\<lambda>(g, _). g = f) (kids n))"

text \<open>A field that holds one node or nil.\<close>

definition child :: "slot \<Rightarrow> node \<Rightarrow> node option" where
  "child f n = (case children f n of [] \<Rightarrow> None | c # _ \<Rightarrow> Some c)"

lemma size_kid: "(f, c) \<in> set (kids n) \<Longrightarrow> size c < size n"
proof (cases n)
  case (Node k p e ks)
  assume "(f, c) \<in> set (kids n)"
  then have "size_prod (\<lambda>_. 0) size (f, c) < Suc (size_list (size_prod (\<lambda>_. 0) size) ks)"
    using size_list_estimation' [of "(f, c)" ks "size_prod (\<lambda>_. 0) size (f, c)" "size_prod (\<lambda>_. 0) size"]
    by (simp add: Node)
  then show ?thesis by (simp add: Node)
qed

lemma size_snd_kid: "c \<in> snd ` set (kids n) \<Longrightarrow> size c < size n"
  by (auto dest: size_kid)

lemma children_kid: "c \<in> set (children f n) \<Longrightarrow> (f, c) \<in> set (kids n)"
  by (auto simp: children_def)

lemma child_children: "child f n = Some c \<Longrightarrow> c \<in> set (children f n)"
  by (auto simp: child_def split: list.splits)

lemma child_kid: "child f n = Some c \<Longrightarrow> (f, c) \<in> set (kids n)"
  by (auto dest: child_children children_kid)

lemma size_children [termination_simp]: "c \<in> set (children f n) \<Longrightarrow> size c < size n"
  by (auto dest: children_kid size_kid)

lemma size_first [termination_simp]: "children f n = c # cs \<Longrightarrow> size c < size n"
  by (rule size_children [of _ f]) simp

lemma size_child [termination_simp]: "child f n = Some c \<Longrightarrow> size c < size n"
  by (auto dest: child_kid size_kid)

lemma size_child_rev [termination_simp]: "Some c = child f n \<Longrightarrow> size c < size n"
  by (rule size_child) simp

lemma size_in_kids [termination_simp]:
  fixes ks :: "(slot \<times> node) list"
  shows "(f, c) \<in> set ks \<Longrightarrow> size c < Suc (size_list (size_prod (\<lambda>_. 0) size) ks)"
  using size_kid [of f c "Node k p e ks" for k p e] by simp

text \<open>
  \<^verbatim>\<open>ast.Inspect\<close> calls its function on a node and, when that answers true, on its children in
  order: \<open>visited go n\<close> are the nodes it is called on. A function that only sets a flag, or that keeps the
  first reason it finds, is \<open>list_ex\<close> or \<open>first_reason\<close> over them.
\<close>

fun visited :: "(node \<Rightarrow> bool) \<Rightarrow> node \<Rightarrow> node list" where
  "visited go (Node k p e ks) =
     Node k p e ks # (if go (Node k p e ks) then concat (map (\<lambda>(_, c). visited go c) ks) else [])"

definition first_reason :: "(node \<Rightarrow> string) \<Rightarrow> node list \<Rightarrow> string" where
  "first_reason reason ns = (case filter (\<lambda>s. s \<noteq> []) (map reason ns) of [] \<Rightarrow> [] | s # _ \<Rightarrow> s)"

abbreviation everything :: "node \<Rightarrow> node list" where
  "everything \<equiv> visited (\<lambda>_. True)"

lemma first_reason_empty: "first_reason reason ns = [] \<longleftrightarrow> (\<forall>n\<in>set ns. reason n = [])"
  by (induction ns) (auto simp: first_reason_def)

lemma visited_self [simp]: "n \<in> set (visited go n)"
  by (cases n) simp

lemma visited_eq: "visited go n = n # (if go n then concat (map (visited go) (map snd (kids n))) else [])"
  by (cases n) (simp add: comp_def case_prod_beta')

lemma visited_kid: "go n \<Longrightarrow> (f, c) \<in> set (kids n) \<Longrightarrow> m \<in> set (visited go c) \<Longrightarrow> m \<in> set (visited go n)"
  by (cases n) force

text \<open>\<^verbatim>\<open>ast.Unparen\<close> and the identifier an expression is, when it is one.\<close>

fun unparen :: "node \<Rightarrow> node" where
  "unparen n =
     (if shape n = ParenExpr then (case child AtX n of Some x \<Rightarrow> unparen x | None \<Rightarrow> n) else n)"

declare unparen.simps [simp del]

lemma unparen_plain [simp]: "shape n \<noteq> ParenExpr \<Longrightarrow> unparen n = n"
  by (simp add: unparen.simps)

definition ident_name :: "node \<Rightarrow> string option" where
  "ident_name n = (case shape n of Ident s \<Rightarrow> Some s | _ \<Rightarrow> None)"

definition ident_of :: "node \<Rightarrow> node option" where
  "ident_of n = (if ident_name (unparen n) = None then None else Some (unparen n))"

subsection \<open>Objects and types\<close>

text \<open>
  What the type checker answers for a file, as far as the rewriter asks it: the object an identifier uses
  or declares, and the type of an expression. A type is the identity of its \<^verbatim>\<open>types.Type\<close>, looked up
  in a finite table, because a type may contain itself.
\<close>

datatype object = PkgName | FuncObj "string option" string | BuiltinObj string | OtherObj nat

type_synonym type_id = nat

datatype type_object = TypeObject (obj_pkg: "string option") (obj_exported: bool)

datatype type_shape =
    NamedType type_object "type_id list" | AliasType type_object type_id
  | PointerType type_id | SliceType type_id | ArrayType type_id | ChanType type_id
  | MapType type_id type_id | SignatureType "type_id list" "type_id list"
  | StructType "(type_object \<times> type_id) list"
  | BasicType bool bool | TypeParamType | InterfaceType | TupleType

text \<open>
  \<open>BasicType\<close> says whether it is an integer and whether it is untyped. \<open>spelling\<close> is what
  \<^verbatim>\<open>types.TypeString\<close> writes: text, and at each package name what its qualifier answers.
\<close>

datatype piece = Spelled string | Qualified string string

record type_info =
  uses :: "node \<Rightarrow> object option"
  defs :: "node \<Rightarrow> object option"
  type_of :: "node \<Rightarrow> type_id"
  is_type :: "node \<Rightarrow> bool"
  object_type :: "node \<Rightarrow> type_id"
  type_table :: "(type_id \<times> type_shape) list"
  underlying :: "type_id \<Rightarrow> type_shape"
  spelling :: "type_id \<Rightarrow> piece list"
  identical :: "type_id \<Rightarrow> type_id \<Rightarrow> bool"

end
