(* ===== verification/Rewrite_Names.thy ===== *)
theory Rewrite_Names
  imports Go_Syntax
begin

section \<open>Splicing text and choosing names\<close>

text \<open>
  \<^verbatim>\<open>text.go\<close> and \<^verbatim>\<open>names.go\<close> of the rewriter: edits to a file's text, identifiers that no
  identifier of the file spells, and the spelling of types, with the packages it needs.
\<close>

subsection \<open>Edits\<close>

record edit =
  edit_start :: nat
  edit_end :: nat
  edit_text :: string

record source_file =
  file_base :: nat
  file_text :: string
  file_name :: string

definition offset :: "source_file \<Rightarrow> nat \<Rightarrow> nat" where
  "offset src p = p - file_base src"

text \<open>The text of \<open>[a, b)\<close>: Go's slice expression, with its bounds in order and in range.\<close>

definition text_between :: "string \<Rightarrow> nat \<Rightarrow> nat \<Rightarrow> string" where
  "text_between t a b = take (b - a) (drop a t)"

text \<open>\<^verbatim>\<open>fset.Position\<close>: lines and columns count from one.\<close>

definition line_number :: "source_file \<Rightarrow> nat \<Rightarrow> nat" where
  "line_number src p = Suc (length (filter (\<lambda>c. c = newline) (take (offset src p) (file_text src))))"

definition column_number :: "source_file \<Rightarrow> nat \<Rightarrow> nat" where
  "column_number src p = Suc (length (takeWhile (\<lambda>c. c \<noteq> newline) (rev (take (offset src p) (file_text src)))))"

definition line_at :: "source_file \<Rightarrow> nat \<Rightarrow> string" where
  "line_at src p =
     ''/*line '' @ file_name src @ '':'' @ digits_of (line_number src p) @ '':'' @ digits_of (column_number src p) @ ''*/''"

abbreviation line_of :: "source_file \<Rightarrow> node \<Rightarrow> string" where
  "line_of src n \<equiv> line_at src (pos n)"

text \<open>The loop over the sorted edits: one that overlaps what was written or leaves the range is skipped.\<close>

fun splice_from :: "string \<Rightarrow> nat \<Rightarrow> nat \<Rightarrow> edit list \<Rightarrow> string" where
  "splice_from t here limit [] = text_between t here limit"
| "splice_from t here limit (change # rest) =
     (if edit_start change < here \<or> limit < edit_end change then splice_from t here limit rest
      else text_between t here (edit_start change) @ edit_text change @ splice_from t (edit_end change) limit rest)"

definition splice :: "source_file \<Rightarrow> nat \<Rightarrow> nat \<Rightarrow> edit list \<Rightarrow> string" where
  "splice src start limit edits = splice_from (file_text src) start limit (sort_key edit_start edits)"

subsection \<open>Names\<close>

record names =
  taken :: "string list"
  issued :: nat

definition new_names :: "node \<Rightarrow> names" where
  "new_names file = \<lparr>taken = List.map_filter ident_name (everything file), issued = 0\<rparr>"

function fresh :: "string \<Rightarrow> names \<Rightarrow> string \<times> names" where
  "fresh stem all =
     (let next = Suc (issued all); name = stem @ digits_of next in
      if name \<in> set (taken all) then fresh stem (all\<lparr>issued := next\<rparr>)
      else (name, \<lparr>taken = name # taken all, issued = next\<rparr>))"
  by pat_completeness auto

lemma finite_spelled: "finite {k. n < k \<and> stem @ digits_of k \<in> set used}"
proof -
  have "inj (\<lambda>k. stem @ digits_of k)" by (rule injI) simp
  then have "finite ((\<lambda>k. stem @ digits_of k) -` set used)" by (simp add: finite_vimageI)
  then show ?thesis by (rule rev_finite_subset) auto
qed

termination fresh
proof (relation "measure (\<lambda>(stem, all). card {k. issued all < k \<and> stem @ digits_of k \<in> set (taken all)})", simp)
  fix stem all n name
  assume "n = Suc (issued all)" "name = stem @ digits_of n" "name \<in> set (taken all)"
  then have "{k. n < k \<and> stem @ digits_of k \<in> set (taken all)}
             \<subset> {k. issued all < k \<and> stem @ digits_of k \<in> set (taken all)}"
    by (auto intro!: psubsetI)
  then show "((stem, all\<lparr>issued := n\<rparr>), stem, all)
      \<in> measure (\<lambda>(stem, all). card {k. issued all < k \<and> stem @ digits_of k \<in> set (taken all)})"
    by (simp add: psubset_card_mono finite_spelled)
qed

declare fresh.simps [simp del]

subsection \<open>Packages and types\<close>

text \<open>
  What \<open>typeNames\<close> is given: the package of the file, the imports it can spell, and the names that might
  not mean a package at the call. Its names and additions change as types are spelled.
\<close>

record naming =
  own_package :: string
  imports_of :: "(string \<times> string) list"
  shadowed :: "string \<Rightarrow> bool"

record name_state =
  all_names :: names
  additions :: "(string \<times> string) list"

text \<open>The imports of a file: the path of each and the name it is known by, blank and dot imports left out.\<close>

definition import_table :: "(string \<times> string option) list \<Rightarrow> (string \<times> string) list" where
  "import_table specs =
     rev (List.map_filter (\<lambda>(path, name).
       case name of Some local \<Rightarrow> if local = ''_'' \<or> local = ''.'' then None else Some (path, local) | None \<Rightarrow> None) specs)"

text \<open>\<open>scope\<close> is what looking a name up from the call answers; \<open>None\<close> is a position in no scope.\<close>

definition shadowing :: "type_info \<Rightarrow> node \<Rightarrow> (string \<Rightarrow> object option) option \<Rightarrow> string \<Rightarrow> bool" where
  "shadowing info literal scope name \<longleftrightarrow>
     (\<exists>n\<in>set (everything literal). ident_name n = Some name \<and> defs info n \<noteq> None)
     \<or> (case scope of None \<Rightarrow> False | Some lookup \<Rightarrow> lookup name \<noteq> None \<and> lookup name \<noteq> Some PkgName)"

text \<open>What generated code calls the package at \<open>path\<close>.\<close>

definition package_name :: "naming \<Rightarrow> string \<Rightarrow> string \<Rightarrow> name_state \<Rightarrow> string \<times> name_state" where
  "package_name tn path name st =
     (case Option.bind (map_of (imports_of tn) path) (\<lambda>local. if shadowed tn local then None else Some local) of
        Some local \<Rightarrow> (local, st)
      | None \<Rightarrow>
          (case map_of (additions st) path of
             Some alias \<Rightarrow> (alias, st)
           | None \<Rightarrow>
               let (alias, all) = fresh (''rewritten'' @ to_upper (take 1 name) @ drop 1 name) (all_names st)
               in (alias, \<lparr>all_names = all, additions = (path, alias) # additions st\<rparr>)))"

text \<open>Go's internal-package rule, as the code decides it.\<close>

definition importable :: "string \<Rightarrow> string \<Rightarrow> bool" where
  "importable importer path =
     (case last_index path ''/internal/'' of
        Some i \<Rightarrow> importer = take i path \<or> has_prefix importer (take i path @ ''/'')
      | None \<Rightarrow>
          if \<not> has_suffix path ''/internal'' then \<not> has_prefix path ''internal/''
          else (let parent = take (length path - length ''/internal'') path
                in importer = parent \<or> has_prefix importer (parent @ ''/'')))"

definition visible :: "string \<Rightarrow> type_object \<Rightarrow> bool" where
  "visible own obj =
     (case obj_pkg obj of None \<Rightarrow> True
      | Some other \<Rightarrow> other = own \<or> (obj_exported obj \<and> importable own other))"

text \<open>
  What \<open>nameable\<close> looks at in a type, in order: objects that must be visible and types that must be
  nameable. \<open>None\<close> is a type it does not know.
\<close>

datatype check = MustBeVisible type_object | MustBeNameable type_id

fun checks_of :: "type_shape \<Rightarrow> check list option" where
  "checks_of (NamedType obj args) = Some (MustBeVisible obj # map MustBeNameable args)"
| "checks_of (AliasType obj t) = Some [MustBeVisible obj, MustBeNameable t]"
| "checks_of (PointerType t) = Some [MustBeNameable t]"
| "checks_of (SliceType t) = Some [MustBeNameable t]"
| "checks_of (ArrayType t) = Some [MustBeNameable t]"
| "checks_of (ChanType t) = Some [MustBeNameable t]"
| "checks_of (MapType k t) = Some [MustBeNameable k, MustBeNameable t]"
| "checks_of (SignatureType ps rs) = Some (map MustBeNameable ps @ map MustBeNameable rs)"
| "checks_of (StructType fs) = Some (concat (map (\<lambda>(obj, t). [MustBeVisible obj, MustBeNameable t]) fs))"
| "checks_of (BasicType _ _) = Some []"
| "checks_of TypeParamType = Some []"
| "checks_of InterfaceType = Some []"
| "checks_of TupleType = None"

definition checks_at :: "(type_id \<times> type_shape) list \<Rightarrow> type_id \<Rightarrow> check list option" where
  "checks_at table t = Option.bind (map_of table t) checks_of"

text \<open>
  The checks of a type run in order and stop at the first that fails; \<open>seen\<close> is the map the calls share,
  so a type met again, or while it is itself being checked, is not entered a second time.
\<close>

function nameable_all :: "string \<Rightarrow> (type_id \<times> type_shape) list \<Rightarrow> check list \<Rightarrow> type_id list \<Rightarrow> bool \<times> type_id list" where
  "nameable_all own table [] seen = (True, seen)"
| "nameable_all own table (MustBeVisible obj # cs) seen =
     (if visible own obj then nameable_all own table cs seen else (False, seen))"
| "nameable_all own table (MustBeNameable t # cs) seen =
     (if t \<in> set seen then nameable_all own table cs seen
      else case checks_at table t of
        None \<Rightarrow> (False, t # seen)
      | Some own_checks \<Rightarrow>
          (case nameable_all own table own_checks (t # seen) of
             (False, seen') \<Rightarrow> (False, seen')
           | (True, seen') \<Rightarrow> nameable_all own table cs seen'))"
  by pat_completeness auto

lemma nameable_all_keeps_seen:
  "nameable_all_dom (own, table, cs, seen) \<Longrightarrow> set seen \<subseteq> set (snd (nameable_all own table cs seen))"
  by (induction rule: nameable_all.pinduct)
     (force simp: nameable_all.psimps split: option.splits prod.splits bool.splits)+

definition unseen :: "(type_id \<times> type_shape) list \<Rightarrow> type_id list \<Rightarrow> nat" where
  "unseen table seen = card (fst ` set table - set seen)"

lemma unseen_mono: "set seen \<subseteq> set seen' \<Longrightarrow> unseen table seen' \<le> unseen table seen"
  by (auto simp: unseen_def intro!: card_mono)

lemma unseen_enter: "t \<notin> set seen \<Longrightarrow> checks_at table t = Some cs \<Longrightarrow> unseen table (t # seen) < unseen table seen"
proof -
  assume t: "t \<notin> set seen" "checks_at table t = Some cs"
  then have "t \<in> fst ` set table"
    by (auto simp: checks_at_def Option.bind_eq_Some_conv dest: map_of_SomeD intro: rev_image_eqI)
  with t(1) show ?thesis
    unfolding unseen_def by (intro psubset_card_mono) auto
qed

lemma unseen_after:
  assumes "nameable_all_dom (own, table, own_checks, t # seen)"
    and "(ok, seen') = nameable_all own table own_checks (t # seen)"
    and "t \<notin> set seen" "checks_at table t = Some own_checks"
  shows "unseen table seen' < unseen table seen"
proof -
  have "set (t # seen) \<subseteq> set seen'"
    using nameable_all_keeps_seen [OF assms(1)] by (simp flip: assms(2))
  then have "unseen table seen' \<le> unseen table (t # seen)" by (rule unseen_mono)
  also have "\<dots> < unseen table seen" using assms(3,4) by (rule unseen_enter)
  finally show ?thesis .
qed

termination nameable_all
  by (relation "measures [\<lambda>(own, table, cs, seen). unseen table seen, \<lambda>(own, table, cs, seen). length cs]")
     (simp_all, auto dest: unseen_enter unseen_after)

definition nameable :: "string \<Rightarrow> (type_id \<times> type_shape) list \<Rightarrow> type_id \<Rightarrow> bool" where
  "nameable own table t = fst (nameable_all own table [MustBeNameable t] [])"

text \<open>The spelling of a type: \<open>types.TypeString\<close> with this file's qualifier.\<close>

fun spell_pieces :: "naming \<Rightarrow> piece list \<Rightarrow> name_state \<Rightarrow> string \<times> name_state" where
  "spell_pieces tn [] st = ([], st)"
| "spell_pieces tn (Spelled s # ps) st = (let (rest, st) = spell_pieces tn ps st in (s @ rest, st))"
| "spell_pieces tn (Qualified path name # ps) st =
     (if path = own_package tn then spell_pieces tn ps st
      else let (alias, st) = package_name tn path name st; (rest, st) = spell_pieces tn ps st
           in (alias @ ''.'' @ rest, st))"

definition type_text :: "naming \<Rightarrow> type_info \<Rightarrow> type_id \<Rightarrow> name_state \<Rightarrow> string option \<times> name_state" where
  "type_text tn info t st =
     (if \<not> nameable (own_package tn) (type_table info) t then (None, st)
      else let (s, st) = spell_pieces tn (spelling info t) st in (Some s, st))"

subsection \<open>Edits, names and types\<close>

text \<open>An edit applied on its own, and edits that lie in a range in order and do not overlap.\<close>

definition apply_edit :: "edit \<Rightarrow> string \<Rightarrow> string" where
  "apply_edit change t = take (edit_start change) t @ edit_text change @ drop (edit_end change) t"

fun disjoint_edits :: "nat \<Rightarrow> nat \<Rightarrow> edit list \<Rightarrow> bool" where
  "disjoint_edits here limit [] = (here \<le> limit)"
| "disjoint_edits here limit (change # rest) =
     (here \<le> edit_start change \<and> edit_start change \<le> edit_end change \<and> disjoint_edits (edit_end change) limit rest)"

lemma disjoint_edits_le: "disjoint_edits here limit es \<Longrightarrow> here \<le> limit"
  by (induction es arbitrary: here) force+

lemma disjoint_edits_starts:
  "disjoint_edits here limit es \<Longrightarrow> change \<in> set es \<Longrightarrow> here \<le> edit_start change \<and> edit_end change \<le> limit"
  by (induction es arbitrary: here) (force dest: disjoint_edits_le)+

lemma disjoint_edits_widen:
  "disjoint_edits a b es \<Longrightarrow> a' \<le> a \<Longrightarrow> b \<le> b' \<Longrightarrow> disjoint_edits a' b' es"
  by (induction es arbitrary: a a') auto

lemma disjoint_edits_append:
  "disjoint_edits a b xs \<Longrightarrow> disjoint_edits b c ys \<Longrightarrow> disjoint_edits a c (xs @ ys)"
proof (induction xs arbitrary: a)
  case Nil
  then show ?case using disjoint_edits_widen [of b c ys a c] by simp
qed auto

lemma disjoint_edits_sorted: "disjoint_edits here limit es \<Longrightarrow> sorted (map edit_start es)"
  by (induction es arbitrary: here) (force dest: disjoint_edits_starts)+

lemma distinct_starts:
  "disjoint_edits a b es \<Longrightarrow> list_all (\<lambda>e. edit_start e < edit_end e) es \<Longrightarrow> distinct (map edit_start es)"
proof (induction es arbitrary: a)
  case (Cons e es)
  then have "edit_end e \<le> edit_start e'" if "e' \<in> set es" for e'
    using that disjoint_edits_starts [of "edit_end e" b es] by auto
  with Cons show ?case by fastforce
qed simp

lemma splice_from_in_place:
  assumes "disjoint_edits here limit es" "limit \<le> length t"
  shows "take here t @ splice_from t here limit es @ drop limit t = fold apply_edit (rev es) t"
  using assms
proof (induction es arbitrary: here)
  case Nil
  have "take here t @ take (limit - here) (drop here t) = take limit t"
    using Nil by (metis append_take_drop_id disjoint_edits.simps(1) le_add_diff_inverse take_add)
  then show ?case by (simp add: text_between_def flip: append_assoc)
next
  case (Cons change es)
  let ?s = "edit_start change" and ?e = "edit_end change"
  have bounds: "here \<le> ?s" "?s \<le> ?e" "?e \<le> limit" and rest: "disjoint_edits ?e limit es"
    using Cons.prems by (auto dest: disjoint_edits_le)
  have "take here t @ text_between t here ?s = take ?s t"
    using bounds by (simp add: text_between_def flip: take_add)
  then have "take here t @ splice_from t here limit (change # es) @ drop limit t
      = take ?s t @ edit_text change @ splice_from t ?e limit es @ drop limit t"
    using bounds by (simp flip: append_assoc)
  also have "\<dots> = apply_edit change (take ?e t @ splice_from t ?e limit es @ drop limit t)"
    using bounds Cons.prems(2) by (simp add: apply_edit_def min_absorb1)
  also have "\<dots> = apply_edit change (fold apply_edit (rev es) t)"
    using Cons.IH [OF rest Cons.prems(2)] by simp
  finally show ?case by simp
qed

text \<open>Edits that do not overlap are in one order only, whichever order they were collected in.\<close>

lemma splice_any_order:
  assumes "disjoint_edits start limit es" "limit \<le> length (file_text src)"
    and "mset collected = mset es" and "distinct (map edit_start es)"
  shows "take start (file_text src) @ splice src start limit collected @ drop limit (file_text src)
         = fold apply_edit (rev es) (file_text src)"
proof -
  have "inj_on edit_start (set es)" using assms(4) by (simp add: distinct_map)
  moreover have "set collected = set es" using assms(3) by (rule mset_eq_setD)
  moreover have "distinct (map edit_start collected)"
    using assms(3,4) by (metis mset_eq_imp_distinct_iff mset_map)
  ultimately have "sort_key edit_start collected = es"
    using assms(1,4) by (intro map_sorted_distinct_set_unique [of edit_start])
      (auto dest: disjoint_edits_sorted simp: distinct_map)
  then show ?thesis using splice_from_in_place [OF assms(1,2)] by (simp add: splice_def)
qed

lemma fresh_spec:
  "fresh stem all = (name, all') \<Longrightarrow>
     name \<notin> set (taken all) \<and> taken all' = name # taken all \<and> issued all < issued all'
     \<and> name = stem @ digits_of (issued all')"
proof (induction stem all rule: fresh.induct)
  case (1 stem all)
  show ?case
  proof (cases "stem @ digits_of (Suc (issued all)) \<in> set (taken all)")
    case True
    with 1 show ?thesis by (force simp: fresh.simps [of stem all] Let_def)
  next
    case False
    with "1.prems" show ?thesis by (auto simp: fresh.simps [of stem all] Let_def)
  qed
qed

text \<open>
  The types a type is made of, and a type that can be spelled as far as its own names go.
\<close>

definition component :: "(type_id \<times> type_shape) list \<Rightarrow> (type_id \<times> type_id) set" where
  "component table = {(t, u). \<exists>cs. checks_at table t = Some cs \<and> MustBeNameable u \<in> set cs}"

definition spellable :: "string \<Rightarrow> (type_id \<times> type_shape) list \<Rightarrow> type_id \<Rightarrow> bool" where
  "spellable own table t \<longleftrightarrow>
     (case checks_at table t of None \<Rightarrow> False
      | Some cs \<Rightarrow> \<forall>c\<in>set cs. case c of MustBeVisible obj \<Rightarrow> visible own obj | MustBeNameable _ \<Rightarrow> True)"

lemma nameable_all_grows: "set seen \<subseteq> set (snd (nameable_all own table cs seen))"
  by (induction own table cs seen rule: nameable_all.induct) (force split: option.splits prod.splits bool.splits)+

lemma nameable_all_sound:
  "nameable_all own table cs seen = (True, seen') \<Longrightarrow>
     set seen \<subseteq> set seen'
     \<and> (\<forall>c\<in>set cs. case c of MustBeVisible obj \<Rightarrow> visible own obj | MustBeNameable t \<Rightarrow> t \<in> set seen')
     \<and> (\<forall>t\<in>set seen' - set seen. spellable own table t \<and> component table `` {t} \<subseteq> set seen')"
proof (induction own table cs seen arbitrary: seen' rule: nameable_all.induct)
  case (3 own table t cs seen)
  show ?case
  proof (cases "t \<in> set seen")
    case True
    with "3.IH"(1) "3.prems" show ?thesis by auto
  next
    case False
    with "3.prems" obtain own_checks between where
        checks: "checks_at table t = Some own_checks"
      and inner: "nameable_all own table own_checks (t # seen) = (True, between)"
      and outer: "nameable_all own table cs between = (True, seen')"
      by (auto split: option.splits prod.splits bool.splits)
    note IH1 = "3.IH"(2) [OF False checks inner] and IH2 = "3.IH"(3) [OF False checks inner [symmetric] refl outer]
    have t: "spellable own table t" "component table `` {t} \<subseteq> set between"
      using IH1 checks by (fastforce simp: spellable_def component_def split: check.splits)+
    show ?thesis
    proof (intro conjI ballI)
      show "set seen \<subseteq> set seen'" using IH1 IH2 by auto
    next
      fix c assume "c \<in> set (MustBeNameable t # cs)"
      then show "case c of MustBeVisible obj \<Rightarrow> visible own obj | MustBeNameable t \<Rightarrow> t \<in> set seen'"
        using IH1 IH2 by auto
    next
      fix u assume "u \<in> set seen' - set seen"
      then consider "u = t" | "u \<in> set between - set (t # seen)" | "u \<in> set seen' - set between" by auto
      then show "spellable own table u" and "component table `` {u} \<subseteq> set seen'"
        using t IH1 IH2 by (cases; blast)+
    qed
  qed
qed (auto split: if_splits)

lemma nameable_all_complete:
  "nameable_all own table cs seen = (False, seen') \<Longrightarrow>
     \<exists>c\<in>set cs. case c of MustBeVisible obj \<Rightarrow> \<not> visible own obj
       | MustBeNameable t \<Rightarrow> \<exists>u. (t, u) \<in> (component table)\<^sup>* \<and> \<not> spellable own table u"
proof (induction own table cs seen arbitrary: seen' rule: nameable_all.induct)
  case (3 own table t cs seen)
  show ?case
  proof (cases "t \<in> set seen")
    case True
    with "3.IH"(1) "3.prems" show ?thesis by auto
  next
    case fresh_type: False
    show ?thesis
    proof (cases "checks_at table t")
      case None
      then have "(t, t) \<in> (component table)\<^sup>* \<and> \<not> spellable own table t" by (simp add: spellable_def)
      then show ?thesis by auto
    next
      case (Some own_checks)
      obtain ok between where inner: "nameable_all own table own_checks (t # seen) = (ok, between)" by fastforce
      show ?thesis
      proof (cases ok)
        case True
        with "3.IH"(3) [OF fresh_type Some inner [symmetric]] "3.prems" fresh_type Some inner show ?thesis by auto
      next
        case False
        then obtain c where c: "c \<in> set own_checks" "case c of MustBeVisible obj \<Rightarrow> \<not> visible own obj
            | MustBeNameable t \<Rightarrow> \<exists>u. (t, u) \<in> (component table)\<^sup>* \<and> \<not> spellable own table u"
          using "3.IH"(2) [OF fresh_type Some] inner by auto
        have "\<exists>u. (t, u) \<in> (component table)\<^sup>* \<and> \<not> spellable own table u"
        proof (cases c)
          case (MustBeVisible obj)
          with c Some have "\<not> spellable own table t" by (force simp: spellable_def)
          then show ?thesis by blast
        next
          case (MustBeNameable v)
          with c Some have "(t, v) \<in> component table" by (auto simp: component_def)
          with c(2) MustBeNameable show ?thesis by (auto intro: converse_rtrancl_into_rtrancl)
        qed
        then show ?thesis by auto
      qed
    qed
  qed
qed (auto split: if_splits)


text \<open>
  A module's generic list whose elements are pointers back to it, and one of an unexported type elsewhere.
\<close>

definition cyclic_types :: "(type_id \<times> type_shape) list" where
  "cyclic_types =
     [(0, PointerType 1), (1, NamedType (TypeObject (Some ''m/list'') True) [2]), (2, SliceType 0),
      (3, MapType 4 0), (4, BasicType False False), (5, ChanType 6),
      (6, NamedType (TypeObject (Some ''m/list'') False) [])]"

lemma cyclic_types_nameable: "nameable ''m'' cyclic_types 3" "\<not> nameable ''m'' cyclic_types 5"
  by code_simp+

text \<open>
  A package directory named \<open>internal\<close> inside another one: the last of the two is what Go looks at, and
  the code looks at the one before it.
\<close>

lemma importable_misses_inner_internal: "importable ''a/x'' ''a/internal/b/internal''"
  by code_simp

end
