(* ===== verification/Rewrite_Site.thy ===== *)
theory Rewrite_Site
  imports Rewrite_Names
begin

section \<open>Bodies and their steps\<close>

text \<open>
  \<^verbatim>\<open>site.go\<close>, \<^verbatim>\<open>order.go\<close> and the predicates of \<^verbatim>\<open>branch.go\<close> and \<^verbatim>\<open>tail.go\<close>: which calls
  of \<open>effect.Gen\<close> the rewriter takes, where the steps \<open>do.Await\<close> and \<open>do.Fail\<close> of a body are, in which
  order they are awaited, and which statements end the list they are in.
\<close>

definition effect_path :: string where
  "effect_path = ''github.com/mbauer83/effect-golang/effect''"

text \<open>A step: whether it fails, its argument, and the type an await answers with.\<close>

record step =
  fails :: bool
  argument :: node
  answers :: "type_id option"

type_synonym step_map = "(node \<times> step) list"

record site =
  site_call :: node
  site_literal :: node
  site_do :: "object option"
  site_r :: type_id
  site_e :: type_id
  site_a :: type_id
  site_steps :: step_map

abbreviation uses_ident :: "type_info \<Rightarrow> node \<Rightarrow> object option" where
  "uses_ident info n \<equiv> Option.bind (ident_of n) (uses info)"

subsection \<open>Recognising a site\<close>

text \<open>The identifier a call of a package's function selects, type arguments aside.\<close>

definition selected :: "node \<Rightarrow> node option" where
  "selected call =
     (case child AtFun call of None \<Rightarrow> None
      | Some f \<Rightarrow>
          (case shape (unparen f) of
             SelectorExpr \<Rightarrow> child AtSel (unparen f)
           | IndexExpr \<Rightarrow>
               (case child AtX (unparen f) of None \<Rightarrow> None
                | Some s \<Rightarrow> if shape s = SelectorExpr then child AtSel s else None)
           | IndexListExpr \<Rightarrow>
               (case child AtX (unparen f) of None \<Rightarrow> None
                | Some s \<Rightarrow> if shape s = SelectorExpr then child AtSel s else None)
           | _ \<Rightarrow> None))"

definition is_gen :: "type_info \<Rightarrow> node \<Rightarrow> bool" where
  "is_gen info call =
     (case selected call of None \<Rightarrow> False
      | Some ident \<Rightarrow> uses info ident = Some (FuncObj (Some effect_path) ''Gen''))"

text \<open>The receiver and the name of a method call: its function is a selector, parentheses aside.\<close>

definition method_call :: "node \<Rightarrow> (node \<times> string) option" where
  "method_call call =
     (case child AtFun call of None \<Rightarrow> None
      | Some f \<Rightarrow>
          if shape (unparen f) \<noteq> SelectorExpr then None
          else case (child AtX (unparen f), Option.bind (child AtSel (unparen f)) ident_name) of
            (Some x, Some sel) \<Rightarrow> Some (x, sel)
          | _ \<Rightarrow> None)"

text \<open>The name of the method a call makes on \<open>do\<close>, when it makes one.\<close>

definition method_of_do :: "type_info \<Rightarrow> object \<Rightarrow> node \<Rightarrow> string option" where
  "method_of_do info d call =
     (case method_call call of None \<Rightarrow> None
      | Some (x, sel) \<Rightarrow> if uses_ident info x = Some d then Some sel else None)"

text \<open>
  Every use of \<open>do\<close>, in the order of \<^verbatim>\<open>ast.Inspect\<close>, until one gives a reason. The type checker has
  seen that a call of a method of \<open>do\<close> has an argument, and that only bodies hold expressions in a
  function literal.
\<close>

function collect_steps :: "type_info \<Rightarrow> object \<Rightarrow> bool \<Rightarrow> node \<Rightarrow> step_map \<times> string \<Rightarrow> step_map \<times> string" where
  "collect_steps info d nested n (steps, reason) =
     (if reason \<noteq> [] then (steps, reason)
      else if shape n = FuncLit then
        (case child AtBody n of None \<Rightarrow> (steps, reason) | Some b \<Rightarrow> collect_steps info d True b (steps, reason))
      else if shape n = CallExpr \<and> method_of_do info d n \<noteq> None then
        (if nested then (steps, ''do is used inside a function literal'')
         else case children AtArgs n of [] \<Rightarrow> (steps, ''do has no argument'')
          | arg # _ \<Rightarrow>
              if method_of_do info d n = Some ''Await'' then
                collect_steps info d nested arg ((n, \<lparr>fails = False, argument = arg, answers = Some (type_of info n)\<rparr>) # steps, reason)
              else if method_of_do info d n = Some ''Fail'' then
                collect_steps info d nested arg ((n, \<lparr>fails = True, argument = arg, answers = None\<rparr>) # steps, reason)
              else (steps, ''do.'' @ the (method_of_do info d n) @ '' is not a step''))
      else if ident_name n \<noteq> None \<and> uses info n = Some d then
        (steps, ''do is used other than as the receiver of a step'')
      else fold (\<lambda>(_, c) acc. collect_steps info d nested c acc) (kids n) (steps, reason))"
  by pat_completeness auto

termination
  by (relation "measure (\<lambda>(info, d, nested, n, acc). size n)")
     (auto intro: size_child size_first size_kid)

declare collect_steps.simps [simp del]

text \<open>The results of a function literal's type and its one parameter, as the code looks for them.\<close>

definition list_of :: "slot \<Rightarrow> node \<Rightarrow> node list" where
  "list_of f ft = (case child f ft of None \<Rightarrow> [] | Some fl \<Rightarrow> children AtList fl)"

definition find_site :: "type_info \<Rightarrow> node \<Rightarrow> site option \<times> string" where
  "find_site info call =
     (if \<not> is_gen info call then (None, [])
      else case children AtArgs call of
        [literal] \<Rightarrow>
          if shape literal \<noteq> FuncLit then (None, ''the body is not a function literal'')
          else (case child AtType literal of
            None \<Rightarrow> (None, ''the body has named results'')
          | Some ft \<Rightarrow>
              (case list_of AtResults ft of
                 [result] \<Rightarrow>
                   if children AtNames result \<noteq> [] then (None, ''the body has named results'')
                   else (case map_of (type_table info) (type_of info call) of
                     Some (NamedType _ [r, e, a]) \<Rightarrow>
                       let d = (case list_of AtParams ft of
                                  [param] \<Rightarrow> (case children AtNames param of [name] \<Rightarrow> defs info name | _ \<Rightarrow> None)
                                | _ \<Rightarrow> None);
                           (steps, reason) =
                             (case (d, child AtBody literal) of
                                (Some do_object, Some body) \<Rightarrow> collect_steps info do_object False body ([], [])
                              | _ \<Rightarrow> ([], []))
                       in if reason \<noteq> [] then (None, reason)
                          else (Some \<lparr>site_call = call, site_literal = literal, site_do = d, site_r = r, site_e = e,
                                  site_a = a, site_steps = steps\<rparr>, [])
                   | _ \<Rightarrow> (None, ''the call's type is not an effect.Effect''))
               | _ \<Rightarrow> (None, ''the body has named results'')))
      | _ \<Rightarrow> (None, ''the body is not a function literal''))"

subsection \<open>What a body must not hold\<close>

definition is_step :: "step_map \<Rightarrow> node \<Rightarrow> bool" where
  "is_step steps n \<longleftrightarrow> shape n = CallExpr \<and> map_of steps n \<noteq> None"

text \<open>The argument of a step.\<close>

definition argument_in :: "step_map \<Rightarrow> node \<Rightarrow> node" where
  "argument_in steps call = (case map_of steps call of Some st \<Rightarrow> argument st | None \<Rightarrow> call)"

text \<open>Where a search that stays out of function literals goes; the body's own literal is not one of them.\<close>

definition outside_literals :: "node \<Rightarrow> bool" where
  "outside_literals n \<longleftrightarrow> shape n \<noteq> FuncLit"

definition contains_step :: "site \<Rightarrow> node \<Rightarrow> bool" where
  "contains_step s n \<longleftrightarrow>
     list_ex (is_step (site_steps s)) (visited (\<lambda>m. outside_literals m \<or> m = site_literal s) n)"

definition ends_goroutine :: "node \<Rightarrow> string" where
  "ends_goroutine call =
     (case method_call call of None \<Rightarrow> []
      | Some (x, sel) \<Rightarrow>
          if sel = ''Goexit'' then
            (case Option.bind (ident_of x) ident_name of
               Some name \<Rightarrow> if name = ''runtime'' then ''runtime.Goexit'' else []
             | None \<Rightarrow> [])
          else if sel \<in> {''FailNow'', ''Fatal'', ''Fatalf'', ''SkipNow'', ''Skip'', ''Skipf''} then sel
          else [])"

definition decline_at :: "site \<Rightarrow> node \<Rightarrow> string" where
  "decline_at s n =
     (case shape n of
        DeferStmt \<Rightarrow> ''the body defers a call''
      | LabeledStmt \<Rightarrow> ''the body has a label''
      | BranchStmt tok \<Rightarrow>
          if tok = ''goto'' \<or> tok = ''fallthrough'' \<or> child AtLabel n \<noteq> None then ''the body uses '' @ tok else []
      | SelectStmt \<Rightarrow> if contains_step s n then ''a step is inside a select or a go statement'' else []
      | GoStmt \<Rightarrow> if contains_step s n then ''a step is inside a select or a go statement'' else []
      | CallExpr \<Rightarrow>
          (let name = ends_goroutine n
           in if name = [] then []
              else ''the body calls '' @ name @ '', which a rewritten body would let end the fiber'')
      | _ \<Rightarrow> [])"

definition decline_reason :: "site \<Rightarrow> string" where
  "decline_reason s =
     (case child AtBody (site_literal s) of None \<Rightarrow> []
      | Some body \<Rightarrow> first_reason (decline_at s) (visited outside_literals body))"

subsection \<open>The order of a statement's own steps\<close>

text \<open>A statement's own expressions, in the order the code lists them; \<open>None\<close> is any other statement.\<close>

definition own_exprs :: "node \<Rightarrow> node list option" where
  "own_exprs stmt =
     (case shape stmt of
        ExprStmt \<Rightarrow> Some (children AtX stmt)
      | AssignStmt _ \<Rightarrow> Some (children AtLhs stmt @ children AtRhs stmt)
      | DeclStmt \<Rightarrow> Some [stmt]
      | ReturnStmt \<Rightarrow> Some (children AtResults stmt)
      | IncDecStmt \<Rightarrow> Some (children AtX stmt)
      | SendStmt \<Rightarrow> Some (children AtChan stmt @ children AtValue stmt)
      | IfStmt \<Rightarrow> Some (children AtCond stmt @ children AtInit stmt)
      | SwitchStmt \<Rightarrow> Some (children AtTag stmt @ children AtInit stmt)
      | TypeSwitchStmt \<Rightarrow> Some (children AtAssign stmt @ children AtInit stmt)
      | BlockStmt \<Rightarrow> Some []
      | _ \<Rightarrow> None)"

definition pure :: "type_info \<Rightarrow> node \<Rightarrow> bool" where
  "pure info call \<longleftrightarrow>
     (case child AtFun call of None \<Rightarrow> False
      | Some f \<Rightarrow>
          is_type info f
          \<or> (case uses_ident info f of
               Some (BuiltinObj name) \<Rightarrow>
                 name \<in> {''len'', ''cap'', ''make'', ''new'', ''complex'', ''real'', ''imag'', ''min'', ''max''}
             | _ \<Rightarrow> False))"

text \<open>What a step could tell was run before it: a receive, and a call that is no step and not pure.\<close>

definition effectful :: "type_info \<Rightarrow> step_map \<Rightarrow> node \<Rightarrow> bool" where
  "effectful info steps n \<longleftrightarrow>
     shape n = UnaryExpr ''<-'' \<or> (shape n = CallExpr \<and> map_of steps n = None \<and> \<not> pure info n)"

text \<open>
  The steps of expressions, sorted as \<^verbatim>\<open>sort.Slice\<close> sorts them, and the reason to decline: a step on the
  right of a short-circuit operator, or after a call it would overtake.
\<close>

definition within :: "node \<Rightarrow> node list \<Rightarrow> bool" where
  "within n earlier \<longleftrightarrow> list_ex (\<lambda>call. pos call \<le> pos n \<and> end_of n \<le> end_of call) earlier"

definition short_circuit_reason :: "site \<Rightarrow> node \<Rightarrow> string" where
  "short_circuit_reason s n =
     (case shape n of
        BinaryExpr op \<Rightarrow>
          if (op = ''&&'' \<or> op = ''||'') \<and> list_ex (contains_step s) (children AtY n)
          then ''a step is on the right of '' @ op else []
      | _ \<Rightarrow> [])"

definition overtakes :: "node list \<Rightarrow> node list \<Rightarrow> nat \<Rightarrow> bool" where
  "overtakes ordered others i \<longleftrightarrow>
     (let call = ordered ! i in
      list_ex (\<lambda>other.
        pos other < pos call \<and> \<not> (pos other \<le> pos call \<and> end_of call \<le> end_of other)
        \<and> \<not> within other (take i ordered)) others)"

definition own_steps :: "type_info \<Rightarrow> site \<Rightarrow> node \<Rightarrow> node list \<times> string" where
  "own_steps info s stmt =
     (case own_exprs stmt of
        None \<Rightarrow> ([], ''a step is in a statement this rewrite does not translate'')
      | Some exprs \<Rightarrow>
          let seen = concat (map (visited outside_literals) exprs);
              ordered = sort_key end_of (filter (is_step (site_steps s)) seen);
              others = filter (effectful info (site_steps s)) seen;
              right = first_reason (short_circuit_reason s) seen
          in (ordered,
              if right \<noteq> [] then right
              else if list_ex (overtakes ordered others) [0..<length ordered]
              then ''a call is evaluated before a step in the same statement'' else []))"

subsection \<open>Statements that end their list\<close>

record jump_targets =
  brk :: string
  cont :: string

definition no_jumps :: jump_targets where
  "no_jumps = \<lparr>brk = [], cont = []\<rparr>"

text \<open>Whether an unlabeled break in a loop's body leaves the loop.\<close>

definition same_loop :: "node \<Rightarrow> bool" where
  "same_loop n =
     (case shape n of FuncLit \<Rightarrow> False | ForStmt \<Rightarrow> False | RangeStmt _ \<Rightarrow> False | SwitchStmt \<Rightarrow> False
      | TypeSwitchStmt \<Rightarrow> False | SelectStmt \<Rightarrow> False | _ \<Rightarrow> True)"

definition breaks :: "node \<Rightarrow> bool" where
  "breaks body \<longleftrightarrow> list_ex (\<lambda>n. shape n = BranchStmt ''break'') (visited same_loop body)"

text \<open>A call statement that does not return: a failing step, and the builtin \<open>panic\<close>.\<close>

definition never_returns :: "type_info \<Rightarrow> step_map \<Rightarrow> node \<Rightarrow> bool" where
  "never_returns info steps stmt \<longleftrightarrow>
     (case child AtX stmt of None \<Rightarrow> False
      | Some x \<Rightarrow>
          let call = unparen x in
          shape call = CallExpr
          \<and> (case map_of steps call of
               Some st \<Rightarrow> fails st
             | None \<Rightarrow> Option.bind (child AtFun call) (uses_ident info) = Some (BuiltinObj ''panic'')))"

definition body_list :: "node \<Rightarrow> node list" where
  "body_list stmt = (case child AtBody stmt of None \<Rightarrow> [] | Some b \<Rightarrow> children AtList b)"

lemma size_last [termination_simp]: "children f n \<noteq> [] \<Longrightarrow> size (last (children f n)) < size n"
  by (rule size_children [of _ f]) simp

lemma size_body_list [termination_simp]: "c \<in> set (body_list n) \<Longrightarrow> size c < size n"
  by (cases "child AtBody n") (auto simp: body_list_def dest!: size_children size_child)

lemma size_last_body [termination_simp]: "body_list n \<noteq> [] \<Longrightarrow> size (last (body_list n)) < size n"
  by (intro size_body_list last_in_set)

function terminates :: "type_info \<Rightarrow> step_map \<Rightarrow> jump_targets \<Rightarrow> node \<Rightarrow> bool" where
  "terminates info steps jumps stmt =
     (case shape stmt of
        ReturnStmt \<Rightarrow> True
      | BranchStmt tok \<Rightarrow> tok = ''break'' \<and> brk jumps \<noteq> [] \<or> tok = ''continue'' \<and> cont jumps \<noteq> []
      | ExprStmt \<Rightarrow> never_returns info steps stmt
      | BlockStmt \<Rightarrow> if children AtList stmt = [] then False else terminates info steps jumps (last (children AtList stmt))
      | IfStmt \<Rightarrow>
          (case child AtElse stmt of None \<Rightarrow> False
           | Some alternative \<Rightarrow>
               if body_list stmt = [] then False
               else if \<not> terminates info steps jumps (last (body_list stmt)) then False
               else terminates info steps jumps alternative)
      | ForStmt \<Rightarrow> child AtCond stmt = None \<and> (case child AtBody stmt of None \<Rightarrow> True | Some b \<Rightarrow> \<not> breaks b)
      | _ \<Rightarrow> False)"
  by pat_completeness auto

termination
  by (relation "measure (\<lambda>(info, steps, jumps, stmt). size stmt)")
     (auto intro: size_last size_last_body size_child)

declare terminates.simps [simp del]

subsection \<open>Statements that may stand in a mapping\<close>

text \<open>A return or a control structure outside function literals.\<close>

definition branches_or_returns :: "kind \<Rightarrow> bool" where
  "branches_or_returns k =
     (case k of ReturnStmt \<Rightarrow> True | BranchStmt _ \<Rightarrow> True | IfStmt \<Rightarrow> True | SwitchStmt \<Rightarrow> True
      | TypeSwitchStmt \<Rightarrow> True | ForStmt \<Rightarrow> True | RangeStmt _ \<Rightarrow> True | SelectStmt \<Rightarrow> True | BlockStmt \<Rightarrow> True
      | LabeledStmt \<Rightarrow> True | GoStmt \<Rightarrow> True | DeferStmt \<Rightarrow> True | _ \<Rightarrow> False)"

definition returns_or_branches :: "node \<Rightarrow> bool" where
  "returns_or_branches stmt \<longleftrightarrow> list_ex (\<lambda>n. branches_or_returns (shape n)) (visited outside_literals stmt)"

definition ends_in_value :: "site \<Rightarrow> node list \<Rightarrow> node list \<Rightarrow> bool" where
  "ends_in_value s own following \<longleftrightarrow>
     own \<noteq> []
     \<and> list_all (\<lambda>call. \<not> (case map_of (site_steps s) call of Some st \<Rightarrow> fails st | None \<Rightarrow> False)) own
     \<and> list_all (\<lambda>n. \<not> contains_step s n) (drop 1 following)
     \<and> list_all (\<lambda>n. \<not> returns_or_branches n) (butlast following)"

definition has_default :: "node list \<Rightarrow> bool" where
  "has_default clauses \<longleftrightarrow> list_ex (\<lambda>clause. children AtCase clause = []) clauses"

definition header_has_step :: "site \<Rightarrow> node option \<Rightarrow> bool" where
  "header_has_step s header = (case header of None \<Rightarrow> False | Some n \<Rightarrow> contains_step s n)"

definition inside_any :: "node \<Rightarrow> node list \<Rightarrow> bool" where
  "inside_any call others \<longleftrightarrow>
     list_ex (\<lambda>other. other \<noteq> call \<and> pos other \<le> pos call \<and> end_of call \<le> end_of other) others"

subsection \<open>No use of \<open>do\<close> is left\<close>

text \<open>
  The nodes of a body that are still there once every step is replaced by the name of its value, with its
  argument awaited in its place. The type of a function literal holds no expression.
\<close>

function kept :: "node set \<Rightarrow> node \<Rightarrow> node set" where
  "kept steps n =
     (if n \<in> steps then (case children AtArgs n of [] \<Rightarrow> {} | arg # _ \<Rightarrow> kept steps arg)
      else if shape n = FuncLit then insert n (case child AtBody n of None \<Rightarrow> {} | Some b \<Rightarrow> kept steps b)
      else insert n (\<Union>(_, c) \<in> set (kids n). kept steps c))"
  by pat_completeness auto

termination
  by (relation "measure (\<lambda>(steps, n). size n)") (auto intro: size_child size_first size_kid)

declare kept.simps [simp del]

definition uses_do :: "type_info \<Rightarrow> object \<Rightarrow> node \<Rightarrow> bool" where
  "uses_do info d n \<longleftrightarrow> ident_name n \<noteq> None \<and> uses info n = Some d"

lemma visited_outside_kid:
  "shape n \<noteq> FuncLit \<Longrightarrow> (f, c) \<in> set (kids n) \<Longrightarrow> set (visited outside_literals c) \<subseteq> set (visited outside_literals n)"
  using visited_kid [of outside_literals n] by (auto simp: outside_literals_def)

text \<open>What a collection without a reason has done, for any steps that include the ones it found.\<close>

definition collected :: "type_info \<Rightarrow> object \<Rightarrow> bool \<Rightarrow> node set \<Rightarrow> node set \<Rightarrow> step_map \<Rightarrow> step_map \<Rightarrow> bool" where
  "collected info d nested visitable remaining steps steps' \<longleftrightarrow>
     (\<exists>new. steps' = new @ steps \<and> (nested \<longrightarrow> new = [])
        \<and> (\<forall>(c, st)\<in>set new. c \<in> visitable \<and> shape c = CallExpr \<and> method_of_do info d c \<noteq> None))
     \<and> (\<forall>m\<in>remaining. \<not> uses_do info d m)"

lemma collect_steps_reason [simp]: "reason \<noteq> [] \<Longrightarrow> collect_steps info d nested n (steps, reason) = (steps, reason)"
  by (simp add: collect_steps.simps)

lemma fold_collect_reason [simp]:
  "reason \<noteq> [] \<Longrightarrow> fold (\<lambda>(_, c) acc. collect_steps info d nested c acc) ks (steps, reason) = (steps, reason)"
  by (induction ks) auto

definition do_calls :: "type_info \<Rightarrow> object \<Rightarrow> node set" where
  "do_calls info d = {c. shape c = CallExpr \<and> method_of_do info d c \<noteq> None}"

definition adds_calls :: "type_info \<Rightarrow> object \<Rightarrow> step_map \<Rightarrow> step_map \<Rightarrow> bool" where
  "adds_calls info d steps steps' \<longleftrightarrow> set steps \<subseteq> set steps' \<and> fst ` set steps' \<subseteq> fst ` set steps \<union> do_calls info d"

lemma adds_calls_refl: "adds_calls info d steps steps"
  by (simp add: adds_calls_def)

lemma adds_calls_trans: "adds_calls info d a b \<Longrightarrow> adds_calls info d b c \<Longrightarrow> adds_calls info d a c"
  unfolding adds_calls_def by blast

lemma adds_calls_cons: "n \<in> do_calls info d \<Longrightarrow> adds_calls info d ((n, st) # steps) c \<Longrightarrow> adds_calls info d steps c"
  unfolding adds_calls_def by auto

lemma fold_collect_adds:
  assumes "\<And>c acc. c \<in> snd ` set ks \<Longrightarrow> adds_calls info d (fst acc) (fst (collect_steps info d nested c acc))"
  shows "adds_calls info d (fst acc) (fst (fold (\<lambda>(_, c) acc. collect_steps info d nested c acc) ks acc))"
  using assms
proof (induction ks arbitrary: acc)
  case (Cons k ks)
  obtain f c where k: "k = (f, c)" by fastforce
  have "adds_calls info d (fst acc) (fst (collect_steps info d nested c acc))"
    using Cons.prems [of c acc] k by simp
  moreover have "adds_calls info d (fst (collect_steps info d nested c acc))
      (fst (fold (\<lambda>(_, c) acc. collect_steps info d nested c acc) ks (collect_steps info d nested c acc)))"
    by (rule Cons.IH, rule Cons.prems) simp
  ultimately show ?case using k by (auto intro: adds_calls_trans)
qed (simp add: adds_calls_refl)

lemma collect_steps_adds: "adds_calls info d (fst acc) (fst (collect_steps info d nested n acc))"
proof (induction "size n" arbitrary: n nested acc rule: less_induct)
  case less
  obtain steps reason where acc: "acc = (steps, reason)" by fastforce
  have folded: "adds_calls info d (fst acc) (fst (fold (\<lambda>(_, c) acc. collect_steps info d nested c acc) (kids n) acc))"
    by (rule fold_collect_adds, rule less.hyps, rule size_snd_kid)
  have literal': "adds_calls info d steps (fst (collect_steps info d True b (steps, [])))"
    if "child AtBody n = Some b" for b
  proof -
    have "adds_calls info d (fst (steps, [] :: string)) (fst (collect_steps info d True b (steps, [])))"
      by (rule less.hyps [OF size_child [OF that]])
    then show ?thesis by simp
  qed
  have step': "adds_calls info d steps (fst (collect_steps info d nested arg ((n, st) # steps, [])))"
    if "children AtArgs n = arg # args" "shape n = CallExpr" "method_of_do info d n \<noteq> None" for arg args st
  proof (rule adds_calls_cons)
    show "n \<in> do_calls info d" using that by (simp add: do_calls_def)
    have "adds_calls info d (fst ((n, st) # steps, [] :: string)) (fst (collect_steps info d nested arg ((n, st) # steps, [])))"
      by (rule less.hyps [OF size_first [OF that(1)]])
    then show "adds_calls info d ((n, st) # steps) (fst (collect_steps info d nested arg ((n, st) # steps, [])))" by simp
  qed
  note collect = collect_steps.simps [of info d _ n]
  consider (stopped) "reason \<noteq> []" | (literal) "reason = []" "shape n = FuncLit"
    | (step) "reason = []" "shape n = CallExpr" "method_of_do info d n \<noteq> None"
    | (other) "reason = []" "shape n \<noteq> FuncLit" "\<not> (shape n = CallExpr \<and> method_of_do info d n \<noteq> None)" by blast
  then show ?case
  proof cases
    case step
    then show ?thesis
      using step' by (cases nested; cases "children AtArgs n") (simp_all add: acc collect adds_calls_refl)
  next
    case other
    then show ?thesis using folded by (auto simp: acc collect adds_calls_refl)
  qed (auto simp: acc collect adds_calls_refl literal' split: option.split)
qed

lemma fold_collect:
  assumes "\<And>c steps later. c \<in> snd ` set ks \<Longrightarrow> collect_steps info d nested c (steps, []) = (later, []) \<Longrightarrow>
      set later \<subseteq> set steps' \<Longrightarrow> collected info d nested (V c) (R c) steps later"
    and "fold (\<lambda>(_, c) acc. collect_steps info d nested c acc) ks (steps, []) = (steps', [])"
  shows "collected info d nested (\<Union>(_, c)\<in>set ks. V c) (\<Union>(_, c)\<in>set ks. R c) steps steps'"
  using assms
proof (induction ks arbitrary: steps)
  case Nil
  then show ?case by (simp add: collected_def)
next
  case (Cons k ks)
  obtain f c where k: "k = (f, c)" by fastforce
  obtain mid reason where first: "collect_steps info d nested c (steps, []) = (mid, reason)" by fastforce
  with Cons.prems(2) k have "reason = []" by (cases "reason = []") auto
  have folded: "fold (\<lambda>(_, c) acc. collect_steps info d nested c acc) ks (mid, []) = (steps', [])"
    using Cons.prems(2) first \<open>reason = []\<close> k by simp
  then have "set mid \<subseteq> set steps'"
    using fold_collect_adds [of ks info d nested "(mid, [])", OF collect_steps_adds] by (simp add: adds_calls_def)
  with first \<open>reason = []\<close> have 1: "collected info d nested (V c) (R c) steps mid"
    using Cons.prems(1) [of c steps mid] k by simp
  have 2: "collected info d nested (\<Union>(_, c)\<in>set ks. V c) (\<Union>(_, c)\<in>set ks. R c) mid steps'"
    using folded by (rule Cons.IH [rotated]) (rule Cons.prems(1), simp_all)
  from 1 obtain new1 where new1: "mid = new1 @ steps" "nested \<longrightarrow> new1 = []"
      "\<forall>(c', st)\<in>set new1. c' \<in> V c \<and> shape c' = CallExpr \<and> method_of_do info d c' \<noteq> None"
    by (auto simp: collected_def)
  from 2 obtain new2 where new2: "steps' = new2 @ mid" "nested \<longrightarrow> new2 = []"
      "\<forall>(c', st)\<in>set new2. c' \<in> (\<Union>(_, c)\<in>set ks. V c) \<and> shape c' = CallExpr \<and> method_of_do info d c' \<noteq> None"
    by (auto simp: collected_def)
  from 1 2 have "\<forall>m\<in>(\<Union>(_, c)\<in>set (k # ks). R c). \<not> uses_do info d m"
    by (auto simp: collected_def k)
  moreover have "\<forall>(c', st)\<in>set (new2 @ new1). c' \<in> (\<Union>(_, c)\<in>set (k # ks). V c) \<and> shape c' = CallExpr
      \<and> method_of_do info d c' \<noteq> None"
    using new1(3) new2(3) by (auto simp: k)
  ultimately show ?case
    using new1(1,2) new2(1,2) unfolding collected_def by (intro conjI exI [of _ "new2 @ new1"]) simp_all
qed

lemma collected_mono:
  "collected info d nested V R steps steps' \<Longrightarrow> V \<subseteq> V' \<Longrightarrow> \<not> uses_do info d n \<Longrightarrow> collected info d nested V' (insert n R) steps steps'"
  unfolding collected_def by fast

lemma method_of_do_call: "method_of_do info d n \<noteq> None \<Longrightarrow> shape n = CallExpr \<Longrightarrow> ident_name n = None"
  by (simp add: ident_name_def)

lemma collect_steps_collected:
  assumes "collect_steps info d nested n (steps, []) = (steps', [])" "fst ` set steps' \<subseteq> S"
    and "\<forall>c\<in>S. shape c = CallExpr \<and> method_of_do info d c \<noteq> None"
  shows "collected info d nested (set (visited outside_literals n)) (kept S n) steps steps'"
  using assms(1,2)
proof (induction "size n" arbitrary: n nested steps steps' rule: less_induct)
  case less
  note collect = less.prems(1) [unfolded collect_steps.simps [of info d nested n]]
  consider (literal) "shape n = FuncLit" | (step) "shape n = CallExpr" "method_of_do info d n \<noteq> None"
    | (other) "shape n \<noteq> FuncLit" "\<not> (shape n = CallExpr \<and> method_of_do info d n \<noteq> None)" by blast
  then show ?case
  proof cases
    case literal
    then have "n \<notin> S" "\<not> uses_do info d n" using assms(3) by (auto simp: uses_do_def ident_name_def)
    show ?thesis
    proof (cases "child AtBody n")
      case None
      with literal collect \<open>n \<notin> S\<close> \<open>\<not> uses_do info d n\<close> show ?thesis
        by (simp add: collected_def kept.simps [of S n])
    next
      case (Some b)
      with literal collect less.hyps [OF size_child [OF Some], of True] less.prems(2)
      have "collected info d True (set (visited outside_literals b)) (kept S b) steps steps'" by simp
      with literal Some \<open>n \<notin> S\<close> \<open>\<not> uses_do info d n\<close> show ?thesis
        by (auto simp: collected_def kept.simps [of S n])
    qed
  next
    case step
    then obtain arg args st where args: "children AtArgs n = arg # args" and "\<not> nested"
      and inner: "collect_steps info d nested arg ((n, st) # steps, []) = (steps', [])"
      using collect by (auto split: if_splits list.splits)
    have col: "collected info d nested (set (visited outside_literals arg)) (kept S arg) ((n, st) # steps) steps'"
      by (rule less.hyps [OF size_first [OF args] inner less.prems(2)])
    then have "n \<in> S" using less.prems(2) by (auto simp: collected_def)
    moreover have "set (visited outside_literals arg) \<subseteq> set (visited outside_literals n)"
      using step args by (intro visited_outside_kid [of n AtArgs]) (auto intro: children_kid)
    moreover from col obtain new where "steps' = (new @ [(n, st)]) @ steps"
        "\<forall>(c, st)\<in>set new. c \<in> set (visited outside_literals arg) \<and> shape c = CallExpr \<and> method_of_do info d c \<noteq> None"
      by (auto simp: collected_def)
    ultimately show ?thesis
      using col step args \<open>\<not> nested\<close> unfolding collected_def
      by (intro conjI exI [of _ "new @ [(n, st)]"]) (auto simp: kept.simps [of S n])
  next
    case other
    then have "n \<notin> S" using assms(3) by auto
    have "\<not> uses_do info d n"
      and folded: "fold (\<lambda>(_, c) acc. collect_steps info d nested c acc) (kids n) (steps, []) = (steps', [])"
      using collect other by (auto simp: uses_do_def split: if_splits)
    have col: "collected info d nested (\<Union>(_, c)\<in>set (kids n). set (visited outside_literals c))
        (\<Union>(_, c)\<in>set (kids n). kept S c) steps steps'"
      by (rule fold_collect [OF _ folded], rule less.hyps) (use less.prems(2) size_snd_kid in auto)
    have inside: "(\<Union>(_, c)\<in>set (kids n). set (visited outside_literals c)) \<subseteq> set (visited outside_literals n)"
      using visited_outside_kid [OF other(1)] by auto
    have "kept S n = insert n (\<Union>(_, c)\<in>set (kids n). kept S c)"
      using \<open>n \<notin> S\<close> other(1) by (simp add: kept.simps [of S n])
    with collected_mono [OF col inside \<open>\<not> uses_do info d n\<close>] show ?thesis by simp
  qed
qed

text \<open>
  A body is only rewritten when nothing of \<open>do\<close> is left in it. If collecting the steps of a body gives no
  reason to decline, every step it found is a call of a method of \<open>do\<close> outside every function literal of the
  body, and once each of them is replaced by the value of its argument no identifier that means \<open>do\<close>
  remains anywhere in the body, function literals included.
\<close>

theorem collected_steps_use_up_do:
  assumes "collect_steps info d False body ([], []) = (steps, [])"
  shows "kept (fst ` set steps) body \<inter> {n. uses_do info d n} = {}
    \<and> fst ` set steps \<subseteq> {c \<in> set (visited outside_literals body). shape c = CallExpr \<and> method_of_do info d c \<noteq> None}"
proof -
  have "fst ` set steps \<subseteq> do_calls info d"
    using collect_steps_adds [of info d "([], [])" False body] by (simp add: assms adds_calls_def)
  then have "collected info d False (set (visited outside_literals body)) (kept (fst ` set steps) body) [] steps"
    using assms by (intro collect_steps_collected) (auto simp: do_calls_def)
  then show ?thesis by (auto simp: collected_def)
qed

subsection \<open>Statements that end their list do not run off its end\<close>

text \<open>
  How Go lets a statement end, whatever its conditions answer: it falls through to the next statement, leaves
  the function by a return or a panic, or breaks out of or continues a statement around it. A body with a
  goto or a fallthrough is declined before.
\<close>

datatype ending = FallsThrough | Leaves | BreaksOut "string option" | ContinuesAt "string option"

definition label_of :: "node \<Rightarrow> string option" where
  "label_of stmt = Option.bind (child AtLabel stmt) ident_name"

definition structured :: "kind \<Rightarrow> bool" where
  "structured k \<longleftrightarrow> branches_or_returns k \<and> k \<noteq> GoStmt \<and> k \<noteq> DeferStmt"

definition stays_in_loop :: "ending \<Rightarrow> bool" where
  "stays_in_loop e \<longleftrightarrow> e = FallsThrough \<or> e = ContinuesAt None"

text \<open>What an ending inside a loop, a switch or a select is for the statement itself.\<close>

definition leaving :: "ending \<Rightarrow> ending" where
  "leaving e = (if e = BreaksOut None then FallsThrough else e)"

definition past_label :: "string option \<Rightarrow> ending \<Rightarrow> ending" where
  "past_label l e = (if l \<noteq> None \<and> e = BreaksOut l then FallsThrough else e)"

text \<open>The body of an if, a loop, a switch or a select is a block.\<close>

definition block_of :: "node \<Rightarrow> node option" where
  "block_of s = (case child AtBody s of None \<Rightarrow> None | Some b \<Rightarrow> if shape b = BlockStmt then Some b else None)"

inductive completes :: "type_info \<Rightarrow> step_map \<Rightarrow> node \<Rightarrow> ending \<Rightarrow> bool"
  and completes_all :: "type_info \<Rightarrow> step_map \<Rightarrow> node list \<Rightarrow> ending \<Rightarrow> bool"
  for info steps
where
  panics: "completes info steps s Leaves"
| plain: "\<not> structured (shape s) \<Longrightarrow> \<not> (shape s = ExprStmt \<and> never_returns info steps s) \<Longrightarrow>
    completes info steps s FallsThrough"
| break: "shape s = BranchStmt ''break'' \<Longrightarrow> completes info steps s (BreaksOut (label_of s))"
| continue: "shape s = BranchStmt ''continue'' \<Longrightarrow> completes info steps s (ContinuesAt (label_of s))"
| block: "shape s = BlockStmt \<Longrightarrow> completes_all info steps (children AtList s) e \<Longrightarrow> completes info steps s e"
| if_then: "shape s = IfStmt \<Longrightarrow> block_of s = Some b \<Longrightarrow> completes_all info steps (children AtList b) e \<Longrightarrow> completes info steps s e"
| if_else: "shape s = IfStmt \<Longrightarrow> child AtElse s = Some a \<Longrightarrow> completes info steps a e \<Longrightarrow> completes info steps s e"
| if_skips: "shape s = IfStmt \<Longrightarrow> child AtElse s = None \<Longrightarrow> completes info steps s FallsThrough"
| for_ends: "shape s = ForStmt \<Longrightarrow> child AtCond s \<noteq> None \<Longrightarrow> completes info steps s FallsThrough"
| for_left: "shape s = ForStmt \<Longrightarrow> block_of s = Some b \<Longrightarrow> completes_all info steps (children AtList b) e \<Longrightarrow> \<not> stays_in_loop e \<Longrightarrow>
    completes info steps s (leaving e)"
| range_ends: "shape s = RangeStmt tok \<Longrightarrow> completes info steps s FallsThrough"
| range_left: "shape s = RangeStmt tok \<Longrightarrow> block_of s = Some b \<Longrightarrow> completes_all info steps (children AtList b) e \<Longrightarrow> \<not> stays_in_loop e \<Longrightarrow>
    completes info steps s (leaving e)"
| switch_skips: "shape s = SwitchStmt \<or> shape s = TypeSwitchStmt \<Longrightarrow> block_of s = Some b \<Longrightarrow> \<not> has_default (children AtList b) \<Longrightarrow>
    completes info steps s FallsThrough"
| clause: "shape s \<in> {SwitchStmt, TypeSwitchStmt, SelectStmt} \<Longrightarrow> block_of s = Some b \<Longrightarrow> c \<in> set (children AtList b) \<Longrightarrow>
    completes_all info steps (children AtBody c) e \<Longrightarrow> completes info steps s (leaving e)"
| labeled: "shape s = LabeledStmt \<Longrightarrow> child AtX s = Some inner \<Longrightarrow> completes info steps inner e \<Longrightarrow>
    completes info steps s (past_label (label_of s) e)"
| all_done: "completes_all info steps [] FallsThrough"
| goes_on: "completes info steps s FallsThrough \<Longrightarrow> completes_all info steps ss e \<Longrightarrow> completes_all info steps (s # ss) e"
| stops_at: "completes info steps s e \<Longrightarrow> e \<noteq> FallsThrough \<Longrightarrow> completes_all info steps (s # ss) e"

inductive_cases falls_allE: "completes_all info steps (s # ss) FallsThrough"

lemma completes_all_falls: "completes_all info steps ss FallsThrough \<Longrightarrow> s \<in> set ss \<Longrightarrow> completes info steps s FallsThrough"
  by (induction ss) (auto elim!: falls_allE)

lemma completes_all_falls_last:
  "completes_all info steps ss FallsThrough \<Longrightarrow> ss \<noteq> [] \<Longrightarrow> completes info steps (last ss) FallsThrough"
  by (rule completes_all_falls [OF _ last_in_set])

text \<open>A statement that breaks out without a label holds such a break outside any loop, switch or select.\<close>

lemma visited_through: "same_loop n \<Longrightarrow> c \<in> set (children f n) \<Longrightarrow> m \<in> set (visited same_loop c) \<Longrightarrow> m \<in> set (visited same_loop n)"
  by (rule visited_kid [of same_loop n f c]) (auto intro: children_kid)

lemma visited_block:
  assumes "same_loop n" "block_of n = Some b" "c \<in> set (children AtList b)" "m \<in> set (visited same_loop c)"
  shows "m \<in> set (visited same_loop n)"
proof -
  have b: "child AtBody n = Some b" "same_loop b"
    using assms(2) by (auto simp: block_of_def same_loop_def split: option.splits if_splits)
  have "m \<in> set (visited same_loop b)" using b(2) assms(3,4) by (rule visited_through)
  then show ?thesis using assms(1) b(1) by (intro visited_through [of n b AtBody]) (auto dest: child_children)
qed

definition breaks_in :: "node \<Rightarrow> bool" where
  "breaks_in n \<longleftrightarrow> (\<exists>m\<in>set (visited same_loop n). shape m = BranchStmt ''break'')"

lemma breaks_in_through:
  "same_loop n \<Longrightarrow> c \<in> set (children f n) \<Longrightarrow> breaks_in c \<Longrightarrow> breaks_in n"
  "same_loop n \<Longrightarrow> child f n = Some c \<Longrightarrow> breaks_in c \<Longrightarrow> breaks_in n"
  "same_loop n \<Longrightarrow> block_of n = Some b \<Longrightarrow> c \<in> set (children AtList b) \<Longrightarrow> breaks_in c \<Longrightarrow> breaks_in n"
  unfolding breaks_in_def using visited_through visited_block child_children by blast+

lemma completes_breaks:
  "completes info steps s e \<Longrightarrow> e = BreaksOut None \<Longrightarrow> breaks_in s"
  "completes_all info steps ss e \<Longrightarrow> e = BreaksOut None \<Longrightarrow> \<exists>s\<in>set ss. breaks_in s"
proof (induction rule: completes_completes_all.inducts)
  case (break s)
  then show ?case unfolding breaks_in_def using visited_self by blast
next
  case (block s e)
  then show ?case by (auto intro: breaks_in_through(1) simp: same_loop_def)
next
  case (if_then s b e)
  then show ?case by (auto intro: breaks_in_through(3) simp: same_loop_def)
next
  case (if_else s a e)
  then show ?case by (auto intro: breaks_in_through(2) simp: same_loop_def)
next
  case (labeled s inner e)
  then have "e = BreaksOut None" by (auto simp: past_label_def split: if_splits)
  with labeled show ?case by (auto intro: breaks_in_through(2) simp: same_loop_def)
qed (auto simp: leaving_def split: if_splits)

lemma structured_kinds [simp]:
  "structured ReturnStmt" "structured (BranchStmt tok)" "structured IfStmt" "structured SwitchStmt"
  "structured TypeSwitchStmt" "structured ForStmt" "structured (RangeStmt tok)" "structured SelectStmt"
  "structured BlockStmt" "structured LabeledStmt" "\<not> structured ExprStmt"
  by (simp_all add: structured_def branches_or_returns_def)


text \<open>\<open>if c { return 1 } else { return 2 }\<close>, and a loop that is left by a break.\<close>

definition no_types :: type_info where
  "no_types =
     \<lparr>uses = (\<lambda>_. None), defs = (\<lambda>_. None), type_of = (\<lambda>_. 0), is_type = (\<lambda>_. False), object_type = (\<lambda>_. 0),
      type_table = [(0, BasicType True False)], underlying = (\<lambda>_. BasicType True False),
      spelling = (\<lambda>_. [Spelled ''int'']), identical = (=)\<rparr>"

definition either_returns :: node where
"either_returns = Node IfStmt 1 36 [(AtCond, Node (Ident ''c'') 4 5 []), (AtBody, Node BlockStmt 6 18 [(AtList, Node
     ReturnStmt 8 16 [(AtResults, Node BasicLit 15 16 [])])]), (AtElse, Node BlockStmt 24 36 [(AtList, Node ReturnStmt
     26 34 [(AtResults, Node BasicLit 33 34 [])])])]"

definition broken_loop :: node where
  "broken_loop = Node ForStmt 1 14 [(AtBody, Node BlockStmt 5 14 [(AtList, Node (BranchStmt ''break'') 7 12 [])])]"

lemma broken_loop_falls_through: "completes no_types [] broken_loop FallsThrough"
proof -
  have "completes no_types [] (Node (BranchStmt ''break'') 7 12 []) (BreaksOut None)"
    using completes_completes_all.break [of "Node (BranchStmt ''break'') 7 12 []" no_types "[]"]
    by (simp add: label_of_def child_def children_def)
  then have "completes_all no_types [] [Node (BranchStmt ''break'') 7 12 []] (BreaksOut None)"
    by (rule stops_at) simp
  then have "completes no_types [] broken_loop (leaving (BreaksOut None))"
    by (intro for_left [where b = "Node BlockStmt 5 14 [(AtList, Node (BranchStmt ''break'') 7 12 [])]"])
       (simp_all add: broken_loop_def block_of_def child_def children_def stays_in_loop_def)
  then show ?thesis by (simp add: leaving_def)
qed

lemma either_returns_terminates: "terminates no_types [] no_jumps either_returns"
  by code_simp


end
