(* ===== verification/Rewrite_Order.thy ===== *)
theory Rewrite_Order
  imports Rewrite_Site
begin

section \<open>Awaiting steps first\<close>

text \<open>
  The rewriter awaits a statement's own steps before the statement, each in the continuation of the one
  before. This theory states the order in which Go evaluates the calls, receives and steps of a statement,
  the order in which the rewritten statement does, and that a statement that is not declined keeps the first.
\<close>

subsection \<open>Positions\<close>

text \<open>
  A node lies between its own positions, its children follow each other inside it, a call ends after its
  parts, a unary operator starts before its operand, and a branch statement holds at most its label.
\<close>

definition is_unary :: "kind \<Rightarrow> bool" where
  "is_unary k = (case k of UnaryExpr _ \<Rightarrow> True | _ \<Rightarrow> False)"

definition is_branch :: "kind \<Rightarrow> bool" where
  "is_branch k = (case k of BranchStmt _ \<Rightarrow> True | _ \<Rightarrow> False)"

abbreviation in_order :: "node \<Rightarrow> node \<Rightarrow> bool" where
  "in_order a b \<equiv> end_of a \<le> pos b"

fun placed :: "node \<Rightarrow> bool" where
  "placed (Node k p e ks) \<longleftrightarrow>
     p < e
     \<and> list_all (\<lambda>(f, c). placed c \<and> p \<le> pos c \<and> end_of c \<le> e
          \<and> (k = CallExpr \<longrightarrow> end_of c < e) \<and> (is_unary k \<longrightarrow> p < pos c)
          \<and> (is_branch k \<longrightarrow> f = AtLabel)) ks
     \<and> sorted_wrt in_order (map snd ks)"

definition placed_all :: "node list \<Rightarrow> bool" where
  "placed_all ns \<longleftrightarrow> list_all placed ns \<and> sorted_wrt in_order ns"

lemma placed_kids: "placed n \<Longrightarrow> placed_all (map snd (kids n))"
  by (cases n) (auto simp: placed_all_def list_all_iff)

lemma placed_kid:
  assumes "placed n" "(f, c) \<in> set (kids n)"
  shows "placed c" "pos n \<le> pos c" "end_of c \<le> end_of n" "shape n = CallExpr \<Longrightarrow> end_of c < end_of n"
    "shape n = UnaryExpr op \<Longrightarrow> pos n < pos c" "is_branch (shape n) \<Longrightarrow> f = AtLabel"
  using assms by (cases n; auto simp: list_all_iff is_unary_def)+

lemma placed_nonempty: "placed n \<Longrightarrow> pos n < end_of n"
  by (cases n) simp

lemma placed_all_Nil [simp]: "placed_all []"
  by (simp add: placed_all_def)

lemma placed_all_Cons [simp]:
  "placed_all (n # ns) \<longleftrightarrow> placed n \<and> (\<forall>m\<in>set ns. end_of n \<le> pos m) \<and> placed_all ns"
  by (auto simp: placed_all_def)

subsection \<open>Two orders of evaluation\<close>

text \<open>
  Go evaluates calls, receives and steps left to right, what is inside one before it. A function literal's
  body is not evaluated with it. \<open>outside done\<close> is the same order without the nodes in \<open>done\<close> and what
  is inside them: they have been evaluated and are replaced by names.
\<close>

fun order_of :: "(node \<Rightarrow> bool) \<Rightarrow> node set \<Rightarrow> node \<Rightarrow> node list" where
  "order_of event done (Node k p e ks) =
     (if Node k p e ks \<in> done \<or> k = FuncLit then []
      else concat (map (\<lambda>(f, c). order_of event done c) ks) @ (if event (Node k p e ks) then [Node k p e ks] else []))"

definition outside :: "(node \<Rightarrow> bool) \<Rightarrow> node set \<Rightarrow> node list \<Rightarrow> node list" where
  "outside event done ns = concat (map (order_of event done) ns)"

abbreviation evaluation_order :: "(node \<Rightarrow> bool) \<Rightarrow> node list \<Rightarrow> node list" where
  "evaluation_order event \<equiv> outside event {}"

text \<open>
  The rewritten statement: the first step with what its argument evaluates, then the next one with what is
  left of its own, and at last the statement with the steps replaced.
\<close>

fun awaiting_order :: "(node \<Rightarrow> bool) \<Rightarrow> (node \<Rightarrow> node) \<Rightarrow> node set \<Rightarrow> node list \<Rightarrow> node list \<Rightarrow> node list" where
  "awaiting_order event argument_of done [] roots = outside event done roots"
| "awaiting_order event argument_of done (step # own) roots =
     outside event done [argument_of step] @ [step] @ awaiting_order event argument_of (insert step done) own roots"

text \<open>What Go can tell the order of: the steps, and what \<open>effectful\<close> says of the other nodes.\<close>

definition event :: "type_info \<Rightarrow> site \<Rightarrow> node \<Rightarrow> bool" where
  "event info s n \<longleftrightarrow> is_step (site_steps s) n \<or> effectful info (site_steps s) n"

text \<open>A step is a method of \<open>do\<close>, itself no call, applied to one argument.\<close>

definition step_applied :: "node \<times> step \<Rightarrow> bool" where
  "step_applied entry =
     (case map snd (kids (fst entry)) of
        [f, a] \<Rightarrow> a = argument (snd entry)
          \<and> list_all (\<lambda>n. shape n \<noteq> CallExpr \<and> shape n \<noteq> UnaryExpr ''<-'') (everything f)
      | _ \<Rightarrow> False)"

lemma outside_simps [simp]:
  "outside ev D [] = []" "outside ev D (n # ns) = order_of ev D n @ outside ev D ns"
  by (simp_all add: outside_def)

lemma order_of_kids:
  "order_of ev D n = (if n \<in> D \<or> shape n = FuncLit then []
     else outside ev D (map snd (kids n)) @ (if ev n then [n] else []))"
  by (cases n) (simp add: outside_def comp_def case_prod_beta')

lemma size_kids_list: "size_list size (map snd (kids n)) < size n"
proof -
  have "size_list size (map snd ks) \<le> size_list (size_prod (\<lambda>_. 0) size) ks" for ks :: "(slot \<times> node) list"
    by (induction ks) auto
  then show ?thesis by (cases n) (simp add: le_imp_less_Suc)
qed

lemma outside_in: "m \<in> set (outside ev D ns) \<longleftrightarrow> (\<exists>n\<in>set ns. m \<in> set (order_of ev D n))"
  by (auto simp: outside_def)

lemma outside_kids: "m \<in> set (outside ev D (map snd ks)) \<longleftrightarrow> (\<exists>f c. (f, c) \<in> set ks \<and> m \<in> set (order_of ev D c))"
  by (force simp: outside_def)

text \<open>What is evaluated inside a node lies inside it, and is neither done nor a literal.\<close>

lemma order_of_inside:
  assumes "placed n" "m \<in> set (order_of ev D n)"
  shows "pos n \<le> pos m \<and> end_of m \<le> end_of n \<and> pos m < end_of m \<and> size m \<le> size n \<and> m \<notin> D \<and> ev m \<and> placed m"
  using assms
proof (induction "size n" arbitrary: n rule: less_induct)
  case less
  consider (self) "m = n" "n \<notin> D" "ev n" | (kid) f c where "(f, c) \<in> set (kids n)" "m \<in> set (order_of ev D c)"
    using less.prems(2) by (auto simp: order_of_kids [of ev D n] outside_in split: if_splits)
  then show ?case
  proof cases
    case self
    with less.prems(1) show ?thesis by (auto dest: placed_nonempty)
  next
    case (kid f c)
    note c = placed_kid [OF less.prems(1) kid(1)] and small = size_kid [OF kid(1)]
    from less.hyps [OF small c(1) kid(2)] c(2,3) small show ?thesis by auto
  qed
qed

lemma outside_inside:
  assumes "placed_all ns" "m \<in> set (outside ev D ns)"
  shows "\<exists>n\<in>set ns. pos n \<le> pos m \<and> end_of m \<le> end_of n" "pos m < end_of m" "m \<notin> D" "ev m" "placed m"
  using assms order_of_inside [of _ m ev D] by (auto simp: outside_in placed_all_def list_all_iff)

text \<open>Done nodes that are not inside a tree do not change its order.\<close>

lemma order_of_cong:
  assumes "placed n" "s \<notin> set (everything n)"
  shows "order_of ev (insert s D) n = order_of ev D n"
  using assms
proof (induction "size n" arbitrary: n rule: less_induct)
  case less
  have "outside ev (insert s D) (map snd (kids n)) = outside ev D (map snd (kids n))"
    unfolding outside_def
  proof (rule arg_cong [of _ _ concat], rule map_cong [OF refl])
    fix c assume "c \<in> set (map snd (kids n))"
    then obtain f where c: "(f, c) \<in> set (kids n)" by auto
    then have "s \<notin> set (everything c)" using less.prems(2) visited_kid [of "\<lambda>_. True" n f c s] by auto
    with c show "order_of ev (insert s D) c = order_of ev D c"
      using less.hyps [OF size_kid [OF c] placed_kid(1) [OF less.prems(1) c]] by simp
  qed
  moreover have "s \<noteq> n" using less.prems(2) by auto
  ultimately show ?case by (simp add: order_of_kids [of ev _ n])
qed

lemma everything_inside:
  assumes "placed n" "m \<in> set (everything n)"
  shows "pos n \<le> pos m \<and> end_of m \<le> end_of n \<and> pos m < end_of m"
  using assms
proof (induction "size n" arbitrary: n rule: less_induct)
  case less
  consider (self) "m = n" | (kid) f c where "(f, c) \<in> set (kids n)" "m \<in> set (everything c)"
    using less.prems(2) by (cases n) auto
  then show ?case
  proof cases
    case self
    with less.prems(1) show ?thesis by (auto dest: placed_nonempty)
  next
    case (kid f c)
    note c = placed_kid [OF less.prems(1) kid(1)]
    from less.hyps [OF size_kid [OF kid(1)] c(1) kid(2)] c(2,3) show ?thesis by auto
  qed
qed

lemma outside_cong:
  assumes "placed_all ns" "\<forall>n\<in>set ns. end_of n \<le> pos s \<or> end_of s \<le> pos n" "pos s < end_of s"
  shows "outside ev (insert s D) ns = outside ev D ns"
  unfolding outside_def
proof (rule arg_cong [of _ _ concat], rule map_cong [OF refl])
  fix n assume n: "n \<in> set ns"
  then have "placed n" using assms(1) by (simp add: placed_all_def list_all_iff)
  moreover have "s \<notin> set (everything n)"
    using everything_inside [OF \<open>placed n\<close>, of s] assms(2,3) n by force
  ultimately show "order_of ev (insert s D) n = order_of ev D n" by (rule order_of_cong)
qed

text \<open>
  Where a node stands in the order: before it what ends before it starts, then what it encloses, then
  itself, and after it what starts after its end or strictly encloses it. Taking it out, with what it
  encloses, leaves the rest.
\<close>

definition encloses :: "node \<Rightarrow> node \<Rightarrow> bool" where
  "encloses a b \<longleftrightarrow> pos a \<le> pos b \<and> end_of b \<le> end_of a \<and> (pos a < pos b \<or> end_of b < end_of a)"

lemma order_splits:
  assumes "placed_all ns" "s \<in> set (outside ev D ns)"
    and only: "\<And>n. ev n \<Longrightarrow> shape n = CallExpr \<or> shape n = UnaryExpr ''<-''"
  shows "\<exists>before after. outside ev D ns = before @ outside ev D (map snd (kids s)) @ [s] @ after
      \<and> outside ev (insert s D) ns = before @ after
      \<and> (\<forall>a\<in>set before. end_of a \<le> pos s) \<and> (\<forall>a\<in>set after. end_of s \<le> pos a \<or> encloses a s)"
  using assms(1,2)
proof (induction "size_list size ns" arbitrary: ns rule: less_induct)
  case less
  then obtain n ms where ns: "ns = n # ms" by (cases ns) auto
  have n: "placed n" "placed_all ms" "\<forall>m\<in>set ms. end_of n \<le> pos m" using less.prems(1) ns by auto
  have s: "pos s < end_of s" by (rule outside_inside(2) [OF less.prems])
  show ?case
  proof (cases "s \<in> set (order_of ev D n)")
    case True
    note in_n = order_of_inside [OF n(1) True]
    have rest: "outside ev (insert s D) ms = outside ev D ms"
      using n in_n s by (intro outside_cong) auto
    have later: "\<forall>a\<in>set (outside ev D ms). end_of s \<le> pos a"
      using outside_inside(1) [OF n(2)] n(3) in_n by (meson le_trans)
    have entered: "n \<notin> D" "shape n \<noteq> FuncLit" using True by (auto simp: order_of_kids [of ev D n] split: if_splits)
    show ?thesis
    proof (cases "s = n")
      case True
      then have "ev n" using in_n by simp
      with entered True rest later show ?thesis
        by (intro exI [of _ "[]"] exI [of _ "outside ev D ms"]) (auto simp: ns order_of_kids [of ev _ n])
    next
      case False
      then have "s \<in> set (outside ev D (map snd (kids n)))"
        using True entered by (auto simp: order_of_kids [of ev D n] split: if_splits)
      moreover have "size_list size (map snd (kids n)) < size_list size ns"
        using size_kids_list [of n] by (simp add: ns)
      ultimately obtain before after where
          kids: "outside ev D (map snd (kids n)) = before @ outside ev D (map snd (kids s)) @ [s] @ after"
            "outside ev (insert s D) (map snd (kids n)) = before @ after"
          and around: "\<forall>a\<in>set before. end_of a \<le> pos s" "\<forall>a\<in>set after. end_of s \<le> pos a \<or> encloses a s"
        using less.hyps [OF _ placed_kids [OF n(1)]] by blast
      have "encloses n s" if "ev n"
      proof -
        obtain f c where c: "(f, c) \<in> set (kids n)" "s \<in> set (order_of ev D c)"
          using \<open>s \<in> set (outside ev D (map snd (kids n)))\<close> by (auto simp: outside_kids)
        note in_c = order_of_inside [OF placed_kid(1) [OF n(1) c(1)] c(2)] and at = placed_kid [OF n(1) c(1)]
        show ?thesis using only [OF that] in_c at(2-5) by (auto simp: encloses_def)
      qed
      with kids around rest later entered False show ?thesis
        by (intro exI [of _ before] exI [of _ "after @ (if ev n then [n] else []) @ outside ev D ms"])
           (auto simp: ns order_of_kids [of ev _ n])
    qed
  next
    case False
    then have in_ms: "s \<in> set (outside ev D ms)" using less.prems(2) ns by simp
    obtain m where m: "m \<in> set ms" "pos m \<le> pos s" "end_of s \<le> end_of m" using outside_inside(1) [OF n(2) in_ms] by blast
    have "outside ev (insert s D) [n] = outside ev D [n]"
      using n m s by (intro outside_cong) auto
    then have same: "order_of ev (insert s D) n = order_of ev D n" by simp
    have earlier: "\<forall>a\<in>set (order_of ev D n). end_of a \<le> pos s"
      using order_of_inside [OF n(1), of _ ev D] n(3) m by fastforce
    have "size_list size ms < size_list size ns" by (simp add: ns)
    from less.hyps [OF this n(2) in_ms] obtain before after where
        split: "outside ev D ms = before @ outside ev D (map snd (kids s)) @ [s] @ after"
          "outside ev (insert s D) ms = before @ after"
        and around: "\<forall>a\<in>set before. end_of a \<le> pos s" "\<forall>a\<in>set after. end_of s \<le> pos a \<or> encloses a s"
      by blast
    show ?thesis
    proof (intro exI conjI)
      show "outside ev D ns = (order_of ev D n @ before) @ outside ev D (map snd (kids s)) @ [s] @ after"
        by (simp add: ns split(1))
      show "outside ev (insert s D) ns = (order_of ev D n @ before) @ after"
        by (simp add: ns split(2) same)
      show "\<forall>a\<in>set (order_of ev D n @ before). end_of a \<le> pos s" using earlier around(1) by auto
    qed (rule around(2))
  qed
qed

subsection \<open>The order is kept\<close>

text \<open>An effectful node is no step, and only calls and receives are events.\<close>

lemma event_kinds: "event info s n \<Longrightarrow> shape n = CallExpr \<or> shape n = UnaryExpr ''<-''"
  by (auto simp: event_def is_step_def effectful_def)

lemma before_first_step:
  assumes before: "end_of a \<le> pos s" "pos a < end_of a" "pos s < end_of s"
    and gone: "\<And>d. d \<in> D \<Longrightarrow> end_of d \<le> pos a \<or> encloses a d"
    and guard: "pos a < pos s \<Longrightarrow> end_of s \<le> end_of a \<or> (\<exists>d\<in>D. pos d \<le> pos a \<and> end_of a \<le> end_of d)"
  shows False
proof -
  have "pos a < pos s" "\<not> end_of s \<le> end_of a" using before by linarith+
  with guard obtain d where d: "d \<in> D" "pos d \<le> pos a" "end_of a \<le> end_of d" by blast
  then show False using gone [of d] before(2) by (auto simp: encloses_def)
qed

lemma awaiting_keeps:
  assumes placed: "placed_all roots" and only: "\<And>n. ev n \<Longrightarrow> shape n = CallExpr \<or> shape n = UnaryExpr ''<-''"
    and calls: "\<And>n. is_st n \<Longrightarrow> shape n = CallExpr"
    and arg: "\<And>s D. s \<in> set own \<Longrightarrow> outside ev D (map snd (kids s)) = outside ev D [argument_of s]"
    and sorted: "sorted (map end_of own)" "distinct own"
    and steps: "set own = {n \<in> set (outside ev D roots). is_st n}"
    and gone: "\<And>a d. a \<in> set (outside ev D roots) \<Longrightarrow> d \<in> D \<Longrightarrow> end_of d \<le> pos a \<or> encloses a d"
    and guard: "\<And>i a. i < length own \<Longrightarrow> a \<in> set (outside ev D roots) \<Longrightarrow> \<not> is_st a \<Longrightarrow> pos a < pos (own ! i) \<Longrightarrow>
      end_of (own ! i) \<le> end_of a \<or> (\<exists>d \<in> D \<union> set (take i own). pos d \<le> pos a \<and> end_of a \<le> end_of d)"
  shows "awaiting_order ev argument_of D own roots = outside ev D roots"
  using arg sorted steps gone guard
proof (induction own arbitrary: D)
  case (Cons s own)
  let ?all = "outside ev D roots"
  have s: "s \<in> set ?all" "is_st s" using Cons.prems(4) by auto
  obtain before after where all: "?all = before @ outside ev D (map snd (kids s)) @ [s] @ after"
      and rest: "outside ev (insert s D) roots = before @ after"
      and around: "\<forall>a\<in>set before. end_of a \<le> pos s" "\<forall>a\<in>set after. end_of s \<le> pos a \<or> encloses a s"
    using order_splits [OF placed s(1) only] by blast
  have span: "pos a < end_of a" if "a \<in> set ?all" for a
    using outside_inside(2) [OF placed that] .
  have "before = []"
  proof (rule ccontr)
    assume "before \<noteq> []"
    then obtain a where a: "a \<in> set before" by (cases before) auto
    then have a_all: "a \<in> set ?all" using all by simp
    have early: "end_of a \<le> pos s" using around(1) a by simp
    show False
    proof (cases "is_st a")
      case True
      with a_all Cons.prems(4) have "a \<in> set (s # own)" by blast
      then have "end_of s \<le> end_of a" using Cons.prems(2) by auto
      with early span [OF s(1)] show False by simp
    next
      case False
      show False
      proof (rule before_first_step [OF early span [OF a_all] span [OF s(1)]])
        show "end_of d \<le> pos a \<or> encloses a d" if "d \<in> D" for d using Cons.prems(5) [OF a_all that] .
        show "end_of s \<le> end_of a \<or> (\<exists>d\<in>D. pos d \<le> pos a \<and> end_of a \<le> end_of d)" if "pos a < pos s"
          using Cons.prems(6) [of 0 a] a_all False that by simp
      qed
    qed
  qed
  have "placed s" by (rule outside_inside(5) [OF placed s(1)])
  have "shape s = CallExpr" using s(2) by (rule calls)
  have inner: "\<not> is_st a" if a_in: "a \<in> set (outside ev D (map snd (kids s)))" for a
  proof
    assume "is_st a"
    obtain f c where c: "(f, c) \<in> set (kids s)" "a \<in> set (order_of ev D c)" using a_in by (auto simp: outside_kids)
    note at = placed_kid [OF \<open>placed s\<close> c(1)]
    have "end_of a < end_of s" using order_of_inside [OF at(1) c(2)] at(4) \<open>shape s = CallExpr\<close> by auto
    moreover have "a \<in> set (s # own)" using \<open>is_st a\<close> a_in all Cons.prems(4) by auto
    then have "end_of s \<le> end_of a" using Cons.prems(2) by auto
    ultimately show False by simp
  qed
  have "s \<notin> set after"
    using outside_inside(3) [OF placed, of s ev "insert s D"] rest by auto
  have "awaiting_order ev argument_of (insert s D) own roots = outside ev (insert s D) roots"
  proof (rule Cons.IH)
    show "outside ev D' (map snd (kids s')) = outside ev D' [argument_of s']" if "s' \<in> set own" for s' D'
      using Cons.prems(1) that by simp
    show "sorted (map end_of own)" "distinct own" using Cons.prems(2,3) by auto
    show "set own = {n \<in> set (outside ev (insert s D) roots). is_st n}"
    proof -
      have "insert s (set own) = insert s {n \<in> set after. is_st n}"
        using Cons.prems(4) all inner \<open>before = []\<close> s(2) by auto
      moreover have "s \<notin> set own" "s \<notin> {n \<in> set after. is_st n}" using Cons.prems(3) \<open>s \<notin> set after\<close> by auto
      ultimately show ?thesis using rest \<open>before = []\<close> by (simp add: insert_ident)
    qed
    show "end_of d \<le> pos a \<or> encloses a d" if "a \<in> set (outside ev (insert s D) roots)" "d \<in> insert s D" for a d
      using that rest all around(2) Cons.prems(5) [of a d] \<open>before = []\<close> by auto
    show "end_of (own ! i) \<le> end_of a \<or> (\<exists>d \<in> insert s D \<union> set (take i own). pos d \<le> pos a \<and> end_of a \<le> end_of d)"
      if "i < length own" "a \<in> set (outside ev (insert s D) roots)" "\<not> is_st a" "pos a < pos (own ! i)" for i a
      using Cons.prems(6) [of "Suc i" a] that rest all \<open>before = []\<close> by auto
  qed
  then show ?case using all rest Cons.prems(1) [of s D] \<open>before = []\<close> by simp
qed simp

text \<open>What is evaluated with a tree is what a search outside function literals visits.\<close>

lemma order_of_visited:
  "set (order_of ev {} n) = {m \<in> set (visited outside_literals n). ev m \<and> shape m \<noteq> FuncLit}"
proof (induction "size n" arbitrary: n rule: less_induct)
  case less
  have kids: "set (order_of ev {} c) = {m \<in> set (visited outside_literals c). ev m \<and> shape m \<noteq> FuncLit}"
    if "c \<in> snd ` set (kids n)" for c
    by (rule less.hyps [OF size_snd_kid [OF that]])
  show ?case
  proof (cases "shape n = FuncLit")
    case True
    then show ?thesis
      by (simp add: order_of_kids [of ev "{}" n] visited_eq [of _ n] outside_literals_def)
  next
    case False
    have "set (outside ev {} (map snd (kids n))) = (\<Union>c\<in>snd ` set (kids n). set (order_of ev {} c))"
      by (simp add: outside_def)
    also have "\<dots> = (\<Union>c\<in>snd ` set (kids n). {m \<in> set (visited outside_literals c). ev m \<and> shape m \<noteq> FuncLit})"
      using kids by (rule SUP_cong [OF refl])
    finally show ?thesis
      using False by (auto simp: order_of_kids [of ev "{}" n] visited_eq [of _ n] outside_literals_def)
  qed
qed

lemma order_of_everything: "m \<in> set (order_of ev D n) \<Longrightarrow> m \<in> set (everything n) \<and> ev m"
proof (induction "size n" arbitrary: n rule: less_induct)
  case less
  consider "m = n" "ev n" | f c where "(f, c) \<in> set (kids n)" "m \<in> set (order_of ev D c)"
    using less.prems by (auto simp: order_of_kids [of ev D n] outside_kids split: if_splits)
  then show ?case
  proof cases
    case (2 f c)
    with less.hyps [OF size_kid [OF 2(1)] 2(2)] visited_kid [of "\<lambda>_. True" n f c m] show ?thesis by simp
  qed simp
qed

lemma visited_everything: "m \<in> set (visited go n) \<Longrightarrow> m \<in> set (everything n)"
proof (induction "size n" arbitrary: n rule: less_induct)
  case less
  consider "m = n" | c where "c \<in> snd ` set (kids n)" "m \<in> set (visited go c)"
    using less.prems by (auto simp: visited_eq [of go n] split: if_splits)
  then show ?case
  proof cases
    case (2 c)
    then have "m \<in> set (everything c)" using less.hyps [OF size_snd_kid] by blast
    with 2(1) show ?thesis by (auto simp: visited_eq [of "\<lambda>_. True" n])
  qed simp
qed

lemma visited_size: "m \<in> set (everything n) \<Longrightarrow> size m \<le> size n"
proof (induction "size n" arbitrary: n rule: less_induct)
  case less
  consider "m = n" | c where "c \<in> snd ` set (kids n)" "m \<in> set (everything c)"
    using less.prems by (auto simp: visited_eq [of "\<lambda>_. True" n])
  then show ?case
  proof cases
    case (2 c)
    then show ?thesis using less.hyps [OF size_snd_kid] size_snd_kid by fastforce
  qed simp
qed

lemma distinct_visited_all:
  assumes "placed_all ns"
  shows "distinct (concat (map (visited go) ns))"
  using assms
proof (induction "size_list size ns" arbitrary: ns rule: less_induct)
  case less
  show ?case
  proof (cases ns)
    case (Cons n ms)
    then have n: "placed n" "placed_all ms" "\<forall>m\<in>set ms. end_of n \<le> pos m" using less.prems by auto
    have later: "distinct (concat (map (visited go) ms))" using Cons n(2) by (intro less.hyps) auto
    have "distinct (concat (map (visited go) (map snd (kids n))))"
      using Cons size_kids_list [of n] placed_kids [OF n(1)] by (intro less.hyps) auto
    moreover have "n \<notin> set (concat (map (visited go) (map snd (kids n))))"
      using visited_everything visited_size size_snd_kid [of _ n] by fastforce
    ultimately have "distinct (visited go n)" by (simp add: visited_eq [of go n])
    moreover have "set (visited go n) \<inter> set (concat (map (visited go) ms)) = {}"
    proof (rule ccontr)
      assume "set (visited go n) \<inter> set (concat (map (visited go) ms)) \<noteq> {}"
      then obtain x m where x: "x \<in> set (everything n)" "m \<in> set ms" "x \<in> set (everything m)"
        using visited_everything by fastforce
      moreover from x(2) n(2) have "placed m" by (simp add: placed_all_def list_all_iff)
      ultimately show False
        using everything_inside [OF n(1) x(1)] everything_inside [of m x] n(3) by fastforce
    qed
    ultimately show ?thesis using later Cons by simp
  qed simp
qed

lemma step_evaluates_argument:
  assumes "list_all step_applied (site_steps s)" "is_step (site_steps s) call"
  shows "outside (event info s) D (map snd (kids call)) = outside (event info s) D [argument_in (site_steps s) call]"
proof -
  from assms(2) obtain st where st: "map_of (site_steps s) call = Some st" by (auto simp: is_step_def)
  then have "step_applied (call, st)" using assms(1) by (auto simp: list_all_iff dest: map_of_SomeD)
  then obtain f where f: "map snd (kids call) = [f, argument st]"
      "\<forall>n\<in>set (everything f). shape n \<noteq> CallExpr \<and> shape n \<noteq> UnaryExpr ''<-''"
    by (auto simp: step_applied_def list_all_iff split: list.splits)
  have "order_of (event info s) D f = []"
  proof (rule ccontr)
    assume "order_of (event info s) D f \<noteq> []"
    then obtain n where "n \<in> set (order_of (event info s) D f)" by (cases "order_of (event info s) D f") auto
    then show False using order_of_everything f(2) event_kinds by blast
  qed
  with f(1) st show ?thesis by (simp add: argument_in_def)
qed

text \<open>
  C24: Awaiting a statement's steps before it keeps Go's order of evaluation. For a statement whose steps the
  rewriter does not decline, awaiting them in the order it gives them, each with what its argument still has
  to evaluate, and then evaluating the statement with the steps replaced by their values, performs the
  steps, the calls that may have an effect and the receives exactly in the order in which Go evaluates them
  in the statement as written.
\<close>

theorem awaiting_first_keeps_evaluation_order:
  assumes "own_steps info s stmt = (own, [])" "own_exprs stmt = Some exprs" "placed_all exprs"
    and "list_all step_applied (site_steps s)"
  shows "awaiting_order (event info s) (argument_in (site_steps s)) {} own exprs = evaluation_order (event info s) exprs"
proof (rule awaiting_keeps [OF assms(3) event_kinds, where is_st = "is_step (site_steps s)"])
  let ?seen = "concat (map (visited outside_literals) exprs)"
  have own: "own = sort_key end_of (filter (is_step (site_steps s)) ?seen)"
    and guard: "\<not> list_ex (overtakes own (filter (effectful info (site_steps s)) ?seen)) [0..<length own]"
    using assms(1,2) by (auto simp: own_steps_def Let_def split: if_splits)
  have all: "set (evaluation_order (event info s) exprs) = {n \<in> set ?seen. event info s n \<and> shape n \<noteq> FuncLit}"
    by (auto simp: outside_def order_of_visited)
  show "shape n = CallExpr" if "is_step (site_steps s) n" for n using that by (simp add: is_step_def)
  show "outside (event info s) D (map snd (kids call)) = outside (event info s) D [argument_in (site_steps s) call]"
    if "call \<in> set own" for call D
    using that own by (intro step_evaluates_argument [OF assms(4)]) simp
  show "sorted (map end_of own)" using own by simp
  show "distinct own" using own distinct_visited_all [OF assms(3)] by simp
  show "set own = {n \<in> set (evaluation_order (event info s) exprs). is_step (site_steps s) n}"
  proof -
    have "set own = {n \<in> set ?seen. is_step (site_steps s) n}" unfolding own by auto
    then show ?thesis unfolding all by (auto simp: event_def is_step_def)
  qed
  show "end_of (own ! i) \<le> end_of a \<or> (\<exists>d\<in>{} \<union> set (take i own). pos d \<le> pos a \<and> end_of a \<le> end_of d)"
    if "i < length own" "a \<in> set (evaluation_order (event info s) exprs)" "\<not> is_step (site_steps s) a"
      "pos a < pos (own ! i)" for i a
  proof -
    have "a \<in> set (filter (effectful info (site_steps s)) ?seen)" using that(2,3) all by (auto simp: event_def)
    moreover have "\<not> overtakes own (filter (effectful info (site_steps s)) ?seen) i"
      using guard that(1) by (simp add: list_ex_iff)
    ultimately have "end_of (own ! i) \<le> end_of a \<or> within a (take i own)"
      using that(4) unfolding overtakes_def Let_def list_ex_iff by (meson less_imp_le)
    then show ?thesis by (auto simp: within_def list_ex_iff)
  qed
qed auto

text \<open>\<open>f(do.Await(a), g())\<close>: the step, the call of \<open>g\<close>, and the call of \<open>f\<close> around both.\<close>

definition awaited_call :: node where
"awaited_call = Node CallExpr 3 14 [(AtFun, Node SelectorExpr 3 11 [(AtX, Node (Ident ''do'') 3 5 []), (AtSel, Node
     (Ident ''Await'') 6 11 [])]), (AtArgs, Node (Ident ''a'') 12 13 [])]"

definition later_call :: node where
"later_call = Node CallExpr 16 19 [(AtFun, Node (Ident ''g'') 16 17 [])]"

definition around_call :: node where
  "around_call = Node CallExpr 1 20 [(AtFun, Node (Ident ''f'') 1 2 []), (AtArgs, awaited_call), (AtArgs, later_call)]"

definition call_statement :: node where
  "call_statement = Node ExprStmt 1 20 [(AtX, around_call)]"

definition call_site :: site where
  "call_site =
     \<lparr>site_call = call_statement, site_literal = call_statement, site_do = None, site_r = 0, site_e = 0, site_a = 0,
      site_steps = [(awaited_call, \<lparr>fails = False, argument = Node (Ident ''a'') 12 13 [], answers = Some 0\<rparr>)]\<rparr>"

lemma call_statement_steps:
  "own_steps no_types call_site call_statement = ([awaited_call], [])"
  "own_exprs call_statement = Some [around_call]" "placed_all [around_call]" "list_all step_applied (site_steps call_site)"
  "evaluation_order (event no_types call_site) [around_call] = [awaited_call, later_call, around_call]"
  by code_simp+

theorem awaiting_first_keeps_evaluation_order_witness:
  "awaiting_order (event no_types call_site) (argument_in (site_steps call_site)) {} [awaited_call] [around_call]
   = [awaited_call, later_call, around_call]"
  using awaiting_first_keeps_evaluation_order [OF call_statement_steps(1-4)] unfolding call_statement_steps(5) .

end
