(* ===== verification/Rewrite_Text.thy ===== *)
theory Rewrite_Text
  imports Rewrite_Order
begin

section \<open>Spelling statements\<close>

text \<open>
  \<^verbatim>\<open>walk.go\<close>: the text of a node with the edits the rewrite makes inside it, and the state one body's
  emission keeps. \<open>temps\<close> are the names awaited values are bound to, \<open>jumps\<close> what an unlabeled break and
  continue become.
\<close>

subsection \<open>The emitter\<close>

text \<open>
  What an emitter is made with, and what changes while it writes: the names and imports, the steps it has
  awaited, its first reason to give up, and the statements it has split from their init.
\<close>

record emitter =
  em_src :: source_file
  em_info :: type_info
  em_site :: site
  em_naming :: naming
  em_replacements :: "(node \<times> string) list"
  em_effect :: string
  em_r :: string
  em_e :: string
  em_a :: string

definition em_eff :: "emitter \<Rightarrow> string" where
  "em_eff em = em_effect em @ ''.Effect['' @ em_r em @ '', '' @ em_e em @ '', '' @ em_a em @ '']''"

record emit_state =
  es_names :: name_state
  es_emitted :: "node list"
  es_failure :: string
  es_detached :: "node list"

type_synonym temps = "(node \<times> string) list"

definition decline :: "string \<Rightarrow> emit_state \<Rightarrow> emit_state" where
  "decline reason st = (if es_failure st = [] then st\<lparr>es_failure := reason\<rparr> else st)"

definition fresh_name :: "string \<Rightarrow> emit_state \<Rightarrow> string \<times> emit_state" where
  "fresh_name stem st =
     (let (name, all) = fresh stem (all_names (es_names st))
      in (name, st\<lparr>es_names := (es_names st)\<lparr>all_names := all\<rparr>\<rparr>))"

definition spell_type :: "emitter \<Rightarrow> type_id \<Rightarrow> emit_state \<Rightarrow> string option \<times> emit_state" where
  "spell_type em t st =
     (let (s, ns) = type_text (em_naming em) (em_info em) t (es_names st) in (s, st\<lparr>es_names := ns\<rparr>))"

definition emit_step :: "node \<Rightarrow> emit_state \<Rightarrow> emit_state" where
  "emit_step call st = st\<lparr>es_emitted := call # es_emitted st\<rparr>"

definition needs :: "emitter \<Rightarrow> node \<Rightarrow> bool" where
  "needs em stmt = contains_step (em_site em) stmt"

subsection \<open>Jumps and redeclarations\<close>

definition jumps_inside :: "node \<Rightarrow> jump_targets \<Rightarrow> jump_targets" where
  "jumps_inside n jumps =
     (case shape n of
        ForStmt \<Rightarrow> no_jumps | RangeStmt _ \<Rightarrow> no_jumps
      | SwitchStmt \<Rightarrow> no_jumps\<lparr>cont := cont jumps\<rparr> | TypeSwitchStmt \<Rightarrow> no_jumps\<lparr>cont := cont jumps\<rparr>
      | SelectStmt \<Rightarrow> no_jumps\<lparr>cont := cont jumps\<rparr>
      | _ \<Rightarrow> jumps)"

definition type_switch_guard :: "node \<Rightarrow> bool" where
  "type_switch_guard assign =
     (case children AtRhs assign of
        [rhs] \<Rightarrow> shape (unparen rhs) = TypeAssertExpr \<and> child AtType (unparen rhs) = None
      | _ \<Rightarrow> False)"

text \<open>What a break or a continue may mean something else inside of.\<close>

definition jump_scope :: "kind \<Rightarrow> bool" where
  "jump_scope k =
     (case k of ForStmt \<Rightarrow> True | RangeStmt _ \<Rightarrow> True | SwitchStmt \<Rightarrow> True | TypeSwitchStmt \<Rightarrow> True
      | SelectStmt \<Rightarrow> True | _ \<Rightarrow> False)"

text \<open>
  The left side of a \<open>:=\<close>: whether it reuses a name, the declarations of the names it does not, and the
  names themselves. \<open>None\<close> is the decline of a name whose type cannot be spelled.
\<close>

fun redeclared :: "emitter \<Rightarrow> node list \<Rightarrow> emit_state \<Rightarrow> (bool \<times> string \<times> string list) option \<times> emit_state" where
  "redeclared em [] st = (Some (False, [], []), st)"
| "redeclared em (x # xs) st =
     (let name = (case Option.bind (ident_of x) ident_name of Some s \<Rightarrow> s | None \<Rightarrow> []) in
      if name = ''_'' then
        (case redeclared em xs st of
           (Some (reuses, ds, left), st) \<Rightarrow> (Some (reuses, ds, name # left), st)
         | (None, st) \<Rightarrow> (None, st))
      else if Option.bind (ident_of x) (defs (em_info em)) = None then
        (case redeclared em xs st of
           (Some (reuses, ds, left), st) \<Rightarrow> (Some (True, ds, name # left), st)
         | (None, st) \<Rightarrow> (None, st))
      else
        (case spell_type em (object_type (em_info em) (unparen x)) st of
           (None, st) \<Rightarrow> (None, decline ''a redeclared name has a type this file cannot name'' st)
         | (Some t, st) \<Rightarrow>
             (case redeclared em xs st of
                (Some (reuses, ds, left), st) \<Rightarrow>
                  (Some (reuses, ''var '' @ name @ '' '' @ t @ ''; '' @ ds, name # left), st)
              | (None, st) \<Rightarrow> (None, st))))"

subsection \<open>The text of a node\<close>

text \<open>The token of a branch statement, when a node is one.\<close>

definition branch_token :: "node \<Rightarrow> string option" where
  "branch_token n = (case shape n of BranchStmt tok \<Rightarrow> Some tok | _ \<Rightarrow> None)"

definition add_edit :: "emitter \<Rightarrow> node \<Rightarrow> string \<Rightarrow> edit list \<times> emit_state \<Rightarrow> edit list \<times> emit_state" where
  "add_edit em n s acc =
     (fst acc @ [\<lparr>edit_start = offset (em_src em) (pos n), edit_end = offset (em_src em) (end_of n), edit_text = s\<rparr>], snd acc)"

definition succeed_open :: "emitter \<Rightarrow> string" where
  "succeed_open em =
     ''return '' @ em_effect em @ ''.Succeed['' @ em_r em @ '', '' @ em_e em @ '', '' @ em_a em @ '']('' "

lemma size_list_children: "size_list size (children f n) < size n"
proof -
  have "size_list size (map snd (filter P ks)) \<le> size_list (size_prod (\<lambda>_. 0) size) ks" for P and ks :: "(slot \<times> node) list"
    by (induction ks) (auto simp: comp_def)
  then show ?thesis by (cases n) (simp add: children_def le_imp_less_Suc)
qed

lemma size_rhs: "Suc (2 * size_list size (children f n)) < 2 * size n"
  using size_list_children [of f n] by simp

lemma size_only: "children f n = [c] \<Longrightarrow> size c < size n"
  by (rule size_first)

text \<open>
  \<open>collect\<close> starts the walk of a node with the jumps that hold inside it; \<open>walk\<close> is what \<^verbatim>\<open>ast.Inspect\<close>
  does at each node beneath \<open>upper\<close>. Nothing more is collected once a reason to decline is set.
\<close>

function text_of_node :: "emitter \<Rightarrow> temps \<Rightarrow> jump_targets \<Rightarrow> node \<Rightarrow> emit_state \<Rightarrow> string \<times> emit_state"
  and texts_of :: "emitter \<Rightarrow> temps \<Rightarrow> jump_targets \<Rightarrow> node list \<Rightarrow> emit_state \<Rightarrow> string list \<times> emit_state"
  and collect :: "emitter \<Rightarrow> temps \<Rightarrow> jump_targets \<Rightarrow> bool \<Rightarrow> node \<Rightarrow> node \<Rightarrow> edit list \<times> emit_state \<Rightarrow> edit list \<times> emit_state"
  and walk :: "emitter \<Rightarrow> temps \<Rightarrow> jump_targets \<Rightarrow> bool \<Rightarrow> node \<Rightarrow> node \<Rightarrow> node \<Rightarrow> edit list \<times> emit_state \<Rightarrow> edit list \<times> emit_state"
where
  "text_of_node em temps jumps n st =
     (let (edits, st) = collect em temps jumps False n n ([], st)
      in (splice (em_src em) (offset (em_src em) (pos n)) (offset (em_src em) (end_of n)) edits, st))"
| "texts_of em temps jumps [] st = ([], st)"
| "texts_of em temps jumps (n # ns) st =
     (let (s, st) = text_of_node em temps jumps n st; (ss, st) = texts_of em temps jumps ns st in (s # ss, st))"
| "collect em temps jumps in_function root n acc =
     walk em temps (jumps_inside n jumps) in_function root n n acc"
| "walk em temps jumps in_function root upper n acc =
     (let (acc, enters) =
        (if es_failure (snd acc) \<noteq> [] then (acc, False)
         else if shape n = CallExpr then
           (case map_of (em_replacements em) n of
              Some replacement \<Rightarrow> (add_edit em n replacement acc, False)
            | None \<Rightarrow>
                if in_function then (acc, True)
                else (case map_of temps n of
                    Some name \<Rightarrow> (add_edit em n name acc, False)
                  | None \<Rightarrow>
                      if is_step (site_steps (em_site em)) n
                      then ((fst acc, decline ''a step was reached before it was awaited'' (snd acc)), False)
                      else (acc, True)))
         else if shape n = FuncLit \<and> n \<noteq> root then
           (case child AtBody n of None \<Rightarrow> (acc, False)
            | Some b \<Rightarrow> (collect em temps no_jumps True b b acc, False))
         else if shape n = ReturnStmt \<and> \<not> in_function then
           (case children AtResults n of
              [result] \<Rightarrow>
                let (s, st) = text_of_node em temps jumps result (snd acc)
                in (add_edit em n (succeed_open em @ s @ '')'') (fst acc, st), False)
            | _ \<Rightarrow> (acc, True))
         else if branch_token n \<noteq> None \<and> \<not> in_function \<and> child AtLabel n = None then
           (if branch_token n = Some ''break'' \<and> brk jumps \<noteq> [] then (add_edit em n (brk jumps) acc, True)
            else if branch_token n = Some ''continue'' \<and> cont jumps \<noteq> [] then (add_edit em n (cont jumps) acc, True)
            else (acc, True))
         else if jump_scope (shape n) \<and> n \<noteq> upper \<and> jumps \<noteq> no_jumps then
           (collect em temps jumps in_function n n acc, False)
         else if shape n = AssignStmt '':='' \<and> \<not> in_function \<and> \<not> type_switch_guard n then
           (case redeclared em (children AtLhs n) (snd acc) of
              (Some (True, ds, left), st) \<Rightarrow>
                let (right, st) = texts_of em temps jumps (children AtRhs n) st
                in (add_edit em n (ds @ join_with '', '' left @ '' = '' @ join_with '', '' right) (fst acc, st), False)
            | (_, st) \<Rightarrow> ((fst acc, st), True))
         else (acc, True))
      in if enters then fold (\<lambda>(_, c) acc. walk em temps jumps in_function root upper c acc) (kids n) acc else acc)"
  by pat_completeness auto

termination
  by (relation "measures
       [\<lambda>x. case x of
          Inl (Inl (_, _, _, n, _)) \<Rightarrow> 2 * size n
        | Inl (Inr (_, _, _, ns, _)) \<Rightarrow> Suc (2 * size_list size ns)
        | Inr (Inl (_, _, _, _, _, n, _)) \<Rightarrow> 2 * size n
        | Inr (Inr (_, _, _, _, _, _, n, _)) \<Rightarrow> 2 * size n,
        \<lambda>x. case x of
          Inl (Inl _) \<Rightarrow> 2 | Inl (Inr _) \<Rightarrow> 2 | Inr (Inl _) \<Rightarrow> 1
        | Inr (Inr (_, _, _, _, _, upper, n, _)) \<Rightarrow> if n = upper then 0 else 2]")
     (auto simp: size_rhs simp del: split_paired_All dest: size_kid size_child size_only)

declare text_of_node.simps [simp del] collect.simps [simp del] walk.simps [simp del]

subsection \<open>No edit is dropped\<close>

text \<open>
  Splicing skips an edit that overlaps the one before. The edits of a node lie inside it, in the order of the
  text, and do not overlap, so none is skipped.
\<close>

definition adds_between :: "emitter \<Rightarrow> nat \<Rightarrow> nat \<Rightarrow> edit list \<times> emit_state \<Rightarrow> edit list \<times> emit_state \<Rightarrow> bool" where
  "adds_between em a b acc acc' \<longleftrightarrow>
     (\<exists>new. fst acc' = fst acc @ new \<and> disjoint_edits (offset (em_src em) a) (offset (em_src em) b) new
        \<and> list_all (\<lambda>e. edit_start e < edit_end e) new)"

lemma adds_same: "a \<le> b \<Longrightarrow> fst acc' = fst acc \<Longrightarrow> adds_between em a b acc acc'"
  by (simp add: adds_between_def offset_def)

lemma adds_trans: "adds_between em a b x y \<Longrightarrow> adds_between em b c y z \<Longrightarrow> adds_between em a c x z"
proof -
  assume "adds_between em a b x y" "adds_between em b c y z"
  then obtain es fs where es: "fst y = fst x @ es" "disjoint_edits (offset (em_src em) a) (offset (em_src em) b) es"
        "list_all (\<lambda>e. edit_start e < edit_end e) es"
      and fs: "fst z = fst y @ fs" "disjoint_edits (offset (em_src em) b) (offset (em_src em) c) fs"
        "list_all (\<lambda>e. edit_start e < edit_end e) fs"
    unfolding adds_between_def by blast
  then show "adds_between em a c x z"
    unfolding adds_between_def using disjoint_edits_append [OF es(2) fs(2)] by (intro exI [of _ "es @ fs"]) simp
qed

lemma adds_widen: "adds_between em a b x y \<Longrightarrow> a' \<le> a \<Longrightarrow> b \<le> b' \<Longrightarrow> adds_between em a' b' x y"
proof -
  assume "adds_between em a b x y" and bounds: "a' \<le> a" "b \<le> b'"
  then obtain es where es: "fst y = fst x @ es" "disjoint_edits (offset (em_src em) a) (offset (em_src em) b) es"
      "list_all (\<lambda>e. edit_start e < edit_end e) es"
    unfolding adds_between_def by blast
  then show "adds_between em a' b' x y"
    unfolding adds_between_def using disjoint_edits_widen [OF es(2)] bounds by (intro exI [of _ es]) (simp add: offset_def)
qed

lemma adds_edit:
  "file_base (em_src em) \<le> pos n \<Longrightarrow> pos n < end_of n \<Longrightarrow> fst acc = fst acc' \<Longrightarrow>
     adds_between em (pos n) (end_of n) acc (add_edit em n s acc')"
  by (simp add: adds_between_def add_edit_def offset_def) linarith

text \<open>The children of a node in order, each adding edits inside it.\<close>

lemma fold_adds:
  assumes "\<And>c acc. c \<in> snd ` set ks \<Longrightarrow> adds_between em (pos c) (end_of c) acc (f c acc)"
    and "placed_all (map snd ks)" "\<forall>c\<in>snd ` set ks. a \<le> pos c \<and> end_of c \<le> b" "a \<le> b"
  shows "adds_between em a b acc (fold (\<lambda>(_, c) acc. f c acc) ks acc)"
  using assms
proof (induction ks arbitrary: a acc)
  case Nil
  then show ?case by (simp add: adds_same)
next
  case (Cons k ks)
  obtain g c where k: "k = (g, c)" by fastforce
  have c: "a \<le> pos c" "end_of c \<le> b" "placed c" using Cons.prems(2,3) k by auto
  have "adds_between em a (end_of c) acc (f c acc)"
  proof (rule adds_widen)
    show "adds_between em (pos c) (end_of c) acc (f c acc)" using k by (intro Cons.prems(1)) simp
  qed (use c in simp_all)
  moreover have "adds_between em (end_of c) b (f c acc) (fold (\<lambda>(_, c) acc. f c acc) ks (f c acc))"
  proof (rule Cons.IH)
    show "adds_between em (pos c') (end_of c') acc' (f c' acc')" if "c' \<in> snd ` set ks" for c' acc'
      using that by (intro Cons.prems(1)) simp
    show "placed_all (map snd ks)" "\<forall>c'\<in>snd ` set ks. end_of c \<le> pos c' \<and> end_of c' \<le> b" "end_of c \<le> b"
      using Cons.prems(2,3) k c by simp_all
  qed
  ultimately have "adds_between em a b acc (fold (\<lambda>(_, c) acc. f c acc) ks (f c acc))" by (rule adds_trans)
  then show ?case by (simp add: k)
qed

lemma placed_branch_leaf: "placed n \<Longrightarrow> branch_token n \<noteq> None \<Longrightarrow> child AtLabel n = None \<Longrightarrow> kids n = []"
proof (rule ccontr)
  assume n: "placed n" "branch_token n \<noteq> None" "child AtLabel n = None" "kids n \<noteq> []"
  then obtain f c ks where kids: "kids n = (f, c) # ks" by (cases "kids n") auto
  then have "(f, c) \<in> set (kids n)" by simp
  moreover have "is_branch (shape n)" using n(2) by (auto simp: branch_token_def is_branch_def split: kind.splits)
  ultimately have "f = AtLabel" using placed_kid(6) [OF n(1)] by blast
  with n(3) kids show False by (simp add: child_def children_def)
qed

lemma walk_adds:
  assumes "placed n" "file_base (em_src em) \<le> pos n"
  shows "adds_between em (pos n) (end_of n) acc (walk em temps jumps in_function root upper n acc)"
  using assms
proof (induction "size n" arbitrary: n upper jumps in_function root acc rule: less_induct)
  case less
  have span: "pos n < end_of n" using less.prems(1) by (rule placed_nonempty)
  have edit: "adds_between em (pos n) (end_of n) acc (add_edit em n s (fst acc, st))" for s st
    using less.prems(2) span by (intro adds_edit) simp_all
  have edit': "adds_between em (pos n) (end_of n) acc (add_edit em n s acc)" for s
    using less.prems(2) span by (intro adds_edit) simp_all
  have same: "adds_between em (pos n) (end_of n) acc (fst acc, st)" "adds_between em (pos n) (end_of n) acc acc" for st
    using span by (simp_all add: adds_same)
  have inside: "\<forall>c\<in>snd ` set (kids n). pos n \<le> pos c \<and> end_of c \<le> end_of n"
    using placed_kid(2,3) [OF less.prems(1)] by auto
  have kids: "adds_between em (pos n) (end_of n) acc'
      (fold (\<lambda>(_, c) acc. walk em temps jumps in_function root upper c acc) (kids n) acc')"
    for jumps in_function root upper acc'
  proof (rule fold_adds)
    show "adds_between em (pos c) (end_of c) acc'' (walk em temps jumps in_function root upper c acc'')"
      if "c \<in> snd ` set (kids n)" for c acc''
    proof (rule less.hyps)
      show "size c < size n" by (rule size_snd_kid [OF that])
      show "placed c" using that placed_kid(1) [OF less.prems(1)] by auto
      show "file_base (em_src em) \<le> pos c" using that inside less.prems(2) by (meson le_trans)
    qed
  qed (use placed_kids [OF less.prems(1)] inside span in auto)
  have in_literal: "adds_between em (pos n) (end_of n) acc (collect em temps jumps in_function b b acc)"
    if "child AtBody n = Some b" for b jumps in_function
  proof -
    note k = child_kid [OF that]
    have "adds_between em (pos b) (end_of b) acc (collect em temps jumps in_function b b acc)"
      unfolding collect.simps
      by (rule less.hyps [OF size_kid [OF k] placed_kid(1) [OF less.prems(1) k]])
         (use placed_kid(2) [OF less.prems(1) k] less.prems(2) in simp)
    then show ?thesis using placed_kid(2,3) [OF less.prems(1) k] by (rule adds_widen)
  qed
  have enters: "adds_between em (pos n) (end_of n) acc
      (fold (\<lambda>(_, c) acc. walk em temps jumps in_function root upper c acc) (kids n) acc')"
    if "fst acc' = fst acc" for jumps in_function root upper acc'
    using kids [of acc' jumps in_function root upper] that by (simp add: adds_between_def)
  have own: "adds_between em (pos n) (end_of n) acc (walk em temps jumps in_function root upper n acc)"
    if "\<not> (jump_scope (shape n) \<and> n \<noteq> upper \<and> jumps \<noteq> no_jumps)" for upper jumps in_function root
  proof -
    note walk = walk.simps [of em temps jumps _ root upper n acc]
    consider (stopped) "es_failure (snd acc) \<noteq> []" | (call) "es_failure (snd acc) = []" "shape n = CallExpr"
      | (literal) "es_failure (snd acc) = []" "shape n = FuncLit" "n \<noteq> root"
      | (return) "es_failure (snd acc) = []" "shape n = ReturnStmt" "\<not> in_function"
      | (branch) "es_failure (snd acc) = []" "branch_token n \<noteq> None" "\<not> in_function" "child AtLabel n = None"
      | (assign) "es_failure (snd acc) = []" "shape n = AssignStmt '':=''" "\<not> in_function" "\<not> type_switch_guard n"
      | (plain) "es_failure (snd acc) = []" "shape n \<noteq> CallExpr" "\<not> (shape n = FuncLit \<and> n \<noteq> root)"
          "\<not> (shape n = ReturnStmt \<and> \<not> in_function)" "\<not> (branch_token n \<noteq> None \<and> \<not> in_function \<and> child AtLabel n = None)"
          "\<not> (shape n = AssignStmt '':='' \<and> \<not> in_function \<and> \<not> type_switch_guard n)"
      by argo
    then show ?thesis
    proof cases
      case stopped
      then show ?thesis by (simp add: walk same)
    next
      case call
      then show ?thesis
        by (auto simp: walk edit' same enters split: option.splits)
    next
      case literal
      then show ?thesis by (auto simp: walk same in_literal split: option.splits)
    next
      case return
      then show ?thesis by (auto simp: walk same edit enters case_prod_beta split: list.splits)
    next
      case branch
      then have "kids n = []" using placed_branch_leaf less.prems(1) by blast
      moreover have "shape n \<noteq> CallExpr" "shape n \<noteq> FuncLit" "shape n \<noteq> ReturnStmt"
        using branch(2) by (auto simp: branch_token_def)
      ultimately show ?thesis using branch by (auto simp: walk same edit')
    next
      case assign
      then have "branch_token n = None" "\<not> jump_scope (shape n)" by (simp_all add: branch_token_def jump_scope_def)
      with assign show ?thesis
        by (cases "redeclared em (children AtLhs n) (snd acc)")
           (auto simp: walk edit enters case_prod_beta split: option.splits bool.splits)
    next
      case plain
      then have "walk em temps jumps in_function root upper n acc
          = fold (\<lambda>(_, c) acc. walk em temps jumps in_function root upper c acc) (kids n) acc"
        using that by (simp only: walk if_False if_True simp_thms prod.case Let_def)
      then show ?thesis by (simp add: enters)
    qed
  qed
  show ?case
  proof (cases "jump_scope (shape n) \<and> n \<noteq> upper \<and> jumps \<noteq> no_jumps \<and> es_failure (snd acc) = []")
    case True
    then have "branch_token n = None" "shape n \<notin> {CallExpr, FuncLit, ReturnStmt}"
      by (auto simp: branch_token_def jump_scope_def split: kind.splits)
    with True have "walk em temps jumps in_function root upper n acc
        = walk em temps (jumps_inside n jumps) in_function n n n acc"
      by (simp add: walk.simps [of em temps jumps in_function root upper n acc] collect.simps)
    with own show ?thesis by simp
  next
    case False
    show ?thesis
    proof (cases "es_failure (snd acc) = []")
      case True
      with False show ?thesis by (intro own) simp
    next
      case stop: False
      then show ?thesis by (simp add: walk.simps [of em temps jumps in_function root upper n acc] same)
    qed
  qed
qed

text \<open>
  Spelling a statement drops no edit. The edits the walk of a node collects lie inside the node, follow
  each other and do not overlap, so splicing skips none of them: the text of the node put back in the file
  is the file with every edit carried out, one after the other from the last to the first, and each
  replaces exactly the text of the node it was made for.
\<close>

theorem no_edit_is_dropped:
  assumes "placed n" "file_base (em_src em) \<le> pos n" "offset (em_src em) (end_of n) \<le> length (file_text (em_src em))"
  shows "let src = em_src em; a = offset src (pos n); b = offset src (end_of n);
             edits = fst (collect em temps jumps False n n ([], st)) in
         disjoint_edits a b edits
         \<and> take a (file_text src) @ fst (text_of_node em temps jumps n st) @ drop b (file_text src)
           = fold apply_edit (rev edits) (file_text src)"
proof -
  let ?src = "em_src em" and ?edits = "fst (collect em temps jumps False n n ([], st))"
  have added: "adds_between em (pos n) (end_of n) ([], st) (collect em temps jumps False n n ([], st))"
    unfolding collect.simps by (rule walk_adds [OF assms(1,2)])
  then have edits: "disjoint_edits (offset ?src (pos n)) (offset ?src (end_of n)) ?edits" "list_all (\<lambda>e. edit_start e < edit_end e) ?edits"
    by (auto simp: adds_between_def)
  have "fst (text_of_node em temps jumps n st) = splice ?src (offset ?src (pos n)) (offset ?src (end_of n)) ?edits"
    by (simp add: text_of_node.simps case_prod_beta)
  with splice_any_order [OF edits(1) assms(3) refl distinct_starts [OF edits]] edits(1) show ?thesis
    by (simp add: Let_def)
qed

text \<open>
  A body that returns a function literal: \<open>return func() int { return 1 }\<close>. The result is spelled as a root of
  its own, so the literal counts as the body and not as a function inside it, and its own return is made an
  effect, which its type \<open>int\<close> does not allow.
\<close>

definition returned_literal :: node where
"returned_literal = Node ReturnStmt 1 31 [(AtResults, Node FuncLit 8 31 [(AtType, Node FuncType 8 18 []), (AtBody,
     Node BlockStmt 19 31 [(AtList, Node ReturnStmt 21 29 [(AtResults, Node BasicLit 28 29 [])])])])]"

definition literal_emitter :: emitter where
  "literal_emitter = \<lparr>em_src = \<lparr>file_base = 1, file_text = ''return func() int { return 1 }'', file_name = ''a.go''\<rparr>,
     em_info = no_types,
     em_site = \<lparr>site_call = returned_literal, site_literal = returned_literal, site_do = None, site_r = 0, site_e = 0, site_a = 0,
       site_steps = []\<rparr>,
     em_naming = \<lparr>own_package = ''m'', imports_of = [], shadowed = (\<lambda>_. False)\<rparr>,
     em_replacements = [], em_effect = ''effect'', em_r = ''R'', em_e = ''E'', em_a = ''A''\<rparr>"

definition no_names :: emit_state where
  "no_names = \<lparr>es_names = \<lparr>all_names = \<lparr>taken = [], issued = 0\<rparr>, additions = []\<rparr>, es_emitted = [], es_failure = [],
     es_detached = []\<rparr>"

lemma literal_result_is_rewritten_inside:
  "fst (text_of_node literal_emitter [] no_jumps returned_literal no_names)
   = ''return effect.Succeed[R, E, A](func() int { return effect.Succeed[R, E, A](1) })''"
  by code_simp

end
