(* ===== verification/Rewrite_Emit.thy ===== *)
theory Rewrite_Emit
  imports Rewrite_Text
begin

section \<open>Writing a body as a chain\<close>

text \<open>
  \<^verbatim>\<open>emit.go\<close>, \<^verbatim>\<open>branch.go\<close>, \<^verbatim>\<open>loop.go\<close>, \<^verbatim>\<open>range.go\<close> and \<^verbatim>\<open>tail.go\<close>: the text of the chain a
  body becomes, statement by statement. \<open>k\<close> is how a list
  that runs off its end continues, empty at the top of a body.
\<close>

abbreviation nl :: string where
  "nl \<equiv> [newline]"

abbreviation plain_text :: "emitter \<Rightarrow> node \<Rightarrow> emit_state \<Rightarrow> string \<times> emit_state" where
  "plain_text em \<equiv> text_of_node em [] no_jumps"

subsection \<open>Steps\<close>

definition step_of :: "emitter \<Rightarrow> node \<Rightarrow> step option" where
  "step_of em call = (if is_step (site_steps (em_site em)) call then map_of (site_steps (em_site em)) call else None)"

text \<open>
  \<open>chain\<close>: each step awaited in the continuation of the one before. \<open>None\<close> is a value whose type the file
  cannot name; a failing step is not awaited.
\<close>

fun awaits :: "emitter \<Rightarrow> node list \<Rightarrow> string \<Rightarrow> temps \<Rightarrow> nat \<Rightarrow> emit_state \<Rightarrow> (string \<times> temps \<times> nat) option \<times> emit_state" where
  "awaits em [] out temps depth st = (Some (out, temps, depth), st)"
| "awaits em (call # own) out temps depth st =
     (let st = emit_step call st in
      case step_of em call of
        None \<Rightarrow> awaits em own out temps depth st
      | Some step \<Rightarrow>
          if fails step then awaits em own out temps depth st
          else let (name, st) = fresh_name ''awaited'' st in
            case spell_type em (the (answers step)) st of
              (None, st) \<Rightarrow> (None, decline ''a step's value has a type this file cannot name'' st)
            | (Some value, st) \<Rightarrow>
                let (s, st) = text_of_node em temps no_jumps (argument step) st
                in awaits em own
                     (out @ ''return '' @ line_of (em_src em) call @ s @ ''.FlatMap(func('' @ name @ '' '' @ value @ '') ''
                      @ em_eff em @ '' {'' @ nl)
                     ((call, name) # temps) (Suc depth) st)"

definition chain :: "emitter \<Rightarrow> node list \<Rightarrow> (temps \<Rightarrow> emit_state \<Rightarrow> string \<times> emit_state) \<Rightarrow> emit_state \<Rightarrow> string \<times> emit_state" where
  "chain em own inner st =
     (case awaits em own [] [] 0 st of
        (None, st) \<Rightarrow> ([], st)
      | (Some (out, temps, depth), st) \<Rightarrow>
          let (s, st) = inner temps st in (out @ s @ concat (replicate depth (''})'' @ nl)), st))"

definition unreachable :: "emitter \<Rightarrow> node list \<Rightarrow> emit_state \<Rightarrow> emit_state" where
  "unreachable em rest st =
     st\<lparr>es_emitted :=
          filter (\<lambda>call. list_ex (\<lambda>stmt. pos stmt \<le> pos call \<and> end_of call \<le> end_of stmt) rest) (map fst (site_steps (em_site em)))
          @ es_emitted st\<rparr>"

text \<open>\<open>return do.Await(fx)\<close>, where the effect answers with the body's own type.\<close>

definition tail_step :: "emitter \<Rightarrow> node \<Rightarrow> node option" where
  "tail_step em stmt =
     (if shape stmt \<noteq> ReturnStmt then None
      else case children AtResults stmt of
        [result] \<Rightarrow>
          (case step_of em (unparen result) of
             None \<Rightarrow> None
           | Some step \<Rightarrow>
               if fails step \<or> \<not> identical (em_info em) (the (answers step)) (site_a (em_site em)) then None
               else Some (unparen result))
      | _ \<Rightarrow> None)"

definition argument_of :: "emitter \<Rightarrow> node \<Rightarrow> node" where
  "argument_of em call = argument_in (site_steps (em_site em)) call"

text \<open>A statement that neither branches nor holds a step any more.\<close>

definition simple :: "emitter \<Rightarrow> node \<Rightarrow> temps \<Rightarrow> emit_state \<Rightarrow> string \<times> emit_state" where
  "simple em stmt temps st =
     (let call = (if shape stmt = ExprStmt then map_option unparen (child AtX stmt) else None) in
      case Option.bind call (step_of em) of
        Some step \<Rightarrow>
          if fails step then
            let (s, st) = text_of_node em temps no_jumps (argument step) st
            in (''return '' @ line_of (em_src em) stmt @ em_effect em @ ''.Fail['' @ em_r em @ '', '' @ em_a em @ '', '' @ em_e em
                @ '']('' @ s @ '')'' @ nl, st)
          else (''_ = '' @ the (map_of temps (the call)) @ nl, st)
      | None \<Rightarrow>
          let (s, st) = text_of_node em temps no_jumps stmt st in (line_of (em_src em) stmt @ s @ nl, st))"

fun simple_all :: "emitter \<Rightarrow> node list \<Rightarrow> temps \<Rightarrow> emit_state \<Rightarrow> string \<times> emit_state" where
  "simple_all em [] temps st = ([], st)"
| "simple_all em (stmt # stmts) temps st =
     (let (s, st) = simple em stmt temps st; (ss, st) = simple_all em stmts temps st in (s @ ss, st))"

text \<open>The last step of a body as a mapping of its value, when nothing after it awaits, branches or leaves.\<close>

definition value_tail ::
  "emitter \<Rightarrow> node \<Rightarrow> node list \<Rightarrow> string \<Rightarrow> jump_targets \<Rightarrow> node list \<Rightarrow> emit_state \<Rightarrow> (string \<times> emit_state) option" where
  "value_tail em stmt rest k jumps own st =
     (let following = stmt # rest; final = last own in
      if k \<noteq> [] \<or> jumps \<noteq> no_jumps \<or> shape (last following) \<noteq> ReturnStmt
         \<or> length (children AtResults (last following)) \<noteq> 1 \<or> \<not> ends_in_value (em_site em) own following
      then None
      else case spell_type em (the (Option.bind (step_of em final) answers)) st of
        (None, _) \<Rightarrow> None
      | (Some value, st) \<Rightarrow>
          Some (chain em (butlast own) (\<lambda>temps st.
            let (name, st) = fresh_name ''awaited'' st;
                mapped = (final, name) # temps;
                (body, st) = simple_all em (butlast following) mapped st;
                (result, st) = text_of_node em mapped no_jumps (hd (children AtResults (last following))) st;
                (arg, st) = text_of_node em temps no_jumps (argument_of em final) st
            in (''return '' @ line_of (em_src em) final @ arg @ ''.Map(func('' @ name @ '' '' @ value @ '') '' @ em_a em @ '' {'' @ nl
                @ body @ ''return '' @ line_of (em_src em) (last following) @ result @ nl @ ''})'' @ nl, st))
            (emit_step final st)))"

subsection \<open>Continuations\<close>

text \<open>
  \<open>compound\<close>: what follows a statement whose branches rejoin it becomes a continuation defined before it,
  unless no branch does.
\<close>

definition compound ::
  "emitter \<Rightarrow> node list \<Rightarrow> string \<Rightarrow> (emit_state \<Rightarrow> string \<times> emit_state) \<Rightarrow> (string \<Rightarrow> emit_state \<Rightarrow> string \<times> emit_state)
   \<Rightarrow> emit_state \<Rightarrow> string \<times> emit_state" where
  "compound em rest k after emit st =
     (if rest = [] then emit k st
      else let (name, st) = fresh_name ''continuation'' st;
               next = ''return '' @ name @ ''()'';
               (statement, st) = emit next st
           in if \<not> contains_text statement next then (statement, st)
              else let (following, st) = after st
                   in (name @ '' := func() '' @ em_eff em @ '' {'' @ nl @ following @ ''}'' @ nl @ statement, st))"

text \<open>A statement split from an init: the statement without it still spans it, so it is remembered.\<close>

definition without_field :: "slot \<Rightarrow> node \<Rightarrow> node" where
  "without_field f n = Node (shape n) (pos n) (end_of n) (filter (\<lambda>(g, _). g \<noteq> f) (kids n))"

definition without_init :: "emitter \<Rightarrow> node \<Rightarrow> (node \<times> node) option" where
  "without_init em stmt =
     (case child AtInit stmt of
        None \<Rightarrow> None
      | Some init \<Rightarrow>
          (case shape stmt of
             IfStmt \<Rightarrow> if needs em init \<or> header_has_step (em_site em) (child AtCond stmt)
               then Some (init, without_field AtInit stmt) else None
           | SwitchStmt \<Rightarrow> if needs em init \<or> header_has_step (em_site em) (child AtTag stmt)
               then Some (init, without_field AtInit stmt) else None
           | TypeSwitchStmt \<Rightarrow> if needs em init \<or> header_has_step (em_site em) (child AtAssign stmt)
               then Some (init, without_field AtInit stmt) else None
           | _ \<Rightarrow> None))"

definition detach :: "node \<Rightarrow> emit_state \<Rightarrow> emit_state" where
  "detach stmt st = st\<lparr>es_detached := stmt # es_detached st\<rparr>"

subsection \<open>Loops\<close>

text \<open>
  A loop becomes two functions, one for an iteration and one for the back edge, whose parameters are the
  variables the loop declares.
\<close>

record loop =
  run :: string
  advance :: string
  params :: "string list"
  loop_args :: "string list"

fun loop_variables :: "emitter \<Rightarrow> node option list \<Rightarrow> emit_state \<Rightarrow> (string list \<times> string list) option \<times> emit_state" where
  "loop_variables em [] st = (Some ([], []), st)"
| "loop_variables em (v # vs) st =
     (case v of
        None \<Rightarrow> loop_variables em vs st
      | Some ident \<Rightarrow>
          let name = the (ident_name ident) in
          if defs (em_info em) ident = None \<or> name = ''_'' then loop_variables em vs st
          else case spell_type em (object_type (em_info em) ident) st of
            (None, st) \<Rightarrow> (None, decline ''a loop variable has a type this file cannot name'' st)
          | (Some t, st) \<Rightarrow>
              (case loop_variables em vs st of
                 (Some (ps, as), st) \<Rightarrow> (Some ((name @ '' '' @ t) # ps, name # as), st)
               | (None, st) \<Rightarrow> (None, st)))"

definition new_loop :: "emitter \<Rightarrow> node option list \<Rightarrow> emit_state \<Rightarrow> loop option \<times> emit_state" where
  "new_loop em vars st =
     (let (r, st) = fresh_name ''iteration'' st; (a, st) = fresh_name ''advance'' st in
      case loop_variables em vars st of
        (None, st) \<Rightarrow> (None, st)
      | (Some (ps, as), st) \<Rightarrow> (Some \<lparr>run = r, advance = a, params = ps, loop_args = as\<rparr>, st))"

definition signature :: "loop \<Rightarrow> string \<Rightarrow> string" where
  "signature lp eff = ''func('' @ join_with '', '' (params lp) @ '') '' @ eff"

definition loop_call :: "loop \<Rightarrow> string \<Rightarrow> string" where
  "loop_call lp name = name @ ''('' @ join_with '', '' (loop_args lp) @ '')''"

definition declare_loop :: "emitter \<Rightarrow> loop \<Rightarrow> string" where
  "declare_loop em lp = ''var '' @ run lp @ '', '' @ advance lp @ '' '' @ signature lp (em_eff em) @ nl"

definition again :: "emitter \<Rightarrow> loop \<Rightarrow> string" where
  "again em lp =
     ''return '' @ em_effect em @ ''.Suspend['' @ em_r em @ '', '' @ em_e em @ '', '' @ em_a em @ ''](func() '' @ em_eff em
     @ '' { return '' @ loop_call lp (run lp) @ '' })''"

definition back_edge :: "loop \<Rightarrow> string" where
  "back_edge lp = ''return '' @ loop_call lp (advance lp)"

definition loop_idents :: "node \<Rightarrow> node option list" where
  "loop_idents stmt =
     (case child AtInit stmt of
        Some init \<Rightarrow> if shape init = AssignStmt '':='' then map ident_of (children AtLhs init) else []
      | None \<Rightarrow> [])"

text \<open>A line of a field that may be absent: its position and its text.\<close>

definition optional_line :: "emitter \<Rightarrow> node option \<Rightarrow> emit_state \<Rightarrow> string \<times> emit_state" where
  "optional_line em part st =
     (case part of None \<Rightarrow> ([], st)
      | Some n \<Rightarrow> let (s, st) = plain_text em n st in (line_of (em_src em) n @ s @ nl, st))"

definition loop_condition :: "emitter \<Rightarrow> node option \<Rightarrow> string \<Rightarrow> emit_state \<Rightarrow> string \<times> emit_state" where
  "loop_condition em cond after st =
     (case cond of None \<Rightarrow> ([], st)
      | Some n \<Rightarrow> let (s, st) = plain_text em n st
          in (''if !('' @ line_of (em_src em) n @ s @ '') {'' @ nl @ after @ nl @ ''}'' @ nl, st))"

subsection \<open>Ranges\<close>

datatype range_kind = OverInteger | OverIndexed | OverChannel

definition range_kind :: "type_info \<Rightarrow> type_id \<Rightarrow> range_kind option" where
  "range_kind info t =
     (case underlying info t of
        BasicType is_integer _ \<Rightarrow> if is_integer then Some OverInteger else None
      | SliceType _ \<Rightarrow> Some OverIndexed
      | ArrayType _ \<Rightarrow> Some OverIndexed
      | PointerType p \<Rightarrow> (case underlying info p of ArrayType _ \<Rightarrow> Some OverIndexed | _ \<Rightarrow> None)
      | ChanType _ \<Rightarrow> Some OverChannel
      | _ \<Rightarrow> None)"

definition has_call :: "node \<Rightarrow> bool" where
  "has_call n \<longleftrightarrow> list_ex (\<lambda>m. shape m = CallExpr) (everything n)"

definition is_slice :: "type_info \<Rightarrow> type_id \<Rightarrow> bool" where
  "is_slice info t = (case underlying info t of SliceType _ \<Rightarrow> True | _ \<Rightarrow> False)"

definition range_expr :: "node \<Rightarrow> node" where
  "range_expr stmt = (case child AtX stmt of Some x \<Rightarrow> x | None \<Rightarrow> stmt)"

text \<open>The statement \<open>ownSteps\<close> is asked about: the expression a range is over.\<close>

definition as_statement :: "node \<Rightarrow> node" where
  "as_statement x = Node ExprStmt (pos x) (end_of x) [(AtX, x)]"

definition integer_type :: "emitter \<Rightarrow> node \<Rightarrow> emit_state \<Rightarrow> string option \<times> emit_state" where
  "integer_type em x st =
     (case map_of (type_table (em_info em)) (type_of (em_info em) x) of
        Some (BasicType _ True) \<Rightarrow> (Some ''int'', st)
      | _ \<Rightarrow>
          (case spell_type em (type_of (em_info em) x) st of
             (None, st) \<Rightarrow> (None, decline ''a range's integer has a type this file cannot name'' st)
           | (Some t, st) \<Rightarrow> (Some t, st)))"

definition bind_targets :: "emitter \<Rightarrow> node \<Rightarrow> node list \<Rightarrow> string list \<Rightarrow> emit_state \<Rightarrow> string \<times> emit_state" where
  "bind_targets em stmt targets values st =
     (let (left, st) = texts_of em [] no_jumps targets st in
      if list_all (\<lambda>s. s = ''_'') left then ([], st)
      else (join_with '', '' left @ (if shape stmt = RangeStmt '':='' then '' := '' else '' = '')
            @ join_with '', '' values @ nl, st))"

definition iteration_variables ::
  "emitter \<Rightarrow> node \<Rightarrow> range_kind \<Rightarrow> string \<Rightarrow> string \<Rightarrow> string \<Rightarrow> emit_state \<Rightarrow> string \<times> emit_state" where
  "iteration_variables em stmt kind collection index after st =
     (let targets = children AtKey stmt @ children AtValue stmt in
      case kind of
        OverChannel \<Rightarrow>
          let (item, st) = fresh_name ''received'' st; (opened, st) = fresh_name ''open'' st;
              out = item @ '', '' @ opened @ '' := <-'' @ collection @ nl @ ''if !'' @ opened @ '' {'' @ nl @ after @ nl @ ''}'' @ nl
          in (case child AtKey stmt of
                None \<Rightarrow> (out @ ''_ = '' @ item @ nl, st)
              | Some key \<Rightarrow> let (s, st) = bind_targets em stmt [key] [item] st in (out @ s, st))
      | OverInteger \<Rightarrow>
          if targets = [] then ([], st) else bind_targets em stmt targets (take (length targets) [index]) st
      | OverIndexed \<Rightarrow>
          if targets = [] then ([], st)
          else bind_targets em stmt targets (take (length targets) [index, collection @ ''['' @ index @ '']'']) st)"

text \<open>The collection's variable and the test that ends the loop.\<close>

definition range_header :: "range_kind \<Rightarrow> string \<Rightarrow> string \<Rightarrow> string \<Rightarrow> string" where
  "range_header kind collection index_type over =
     (case kind of
        OverInteger \<Rightarrow> collection @ '' := '' @ index_type @ ''('' @ over @ '')'' @ nl
      | _ \<Rightarrow> collection @ '' := '' @ over @ nl)"

definition range_bound :: "range_kind \<Rightarrow> string \<Rightarrow> string \<Rightarrow> string \<Rightarrow> string" where
  "range_bound kind collection index after =
     (case kind of
        OverInteger \<Rightarrow> ''if '' @ index @ '' >= '' @ collection @ '' {'' @ nl @ after @ nl @ ''}'' @ nl
      | OverIndexed \<Rightarrow> ''if '' @ index @ '' >= len('' @ collection @ '') {'' @ nl @ after @ nl @ ''}'' @ nl
      | OverChannel \<Rightarrow> [])"

subsection \<open>Statements\<close>

definition header_field :: "emitter \<Rightarrow> temps \<Rightarrow> node option \<Rightarrow> string \<Rightarrow> emit_state \<Rightarrow> string \<times> emit_state" where
  "header_field em temps part tail st =
     (case part of None \<Rightarrow> ([], st)
      | Some n \<Rightarrow> let (s, st) = text_of_node em temps no_jumps n st in (s @ tail, st))"

definition last_of :: "node list \<Rightarrow> node option" where
  "last_of stmts = (if stmts = [] then None else Some (last stmts))"

definition ends_list :: "emitter \<Rightarrow> jump_targets \<Rightarrow> node option \<Rightarrow> bool" where
  "ends_list em jumps stmt =
     (case stmt of None \<Rightarrow> False | Some s \<Rightarrow> terminates (em_info em) (site_steps (em_site em)) jumps s)"

lemma size_filter_kids: "size_list (size_prod (\<lambda>_. 0) size) (filter P ks) \<le> size_list (size_prod (\<lambda>_. 0) size) ks"
  by (induction ks) auto

lemma size_without_field:
  "(f, c) \<in> set (kids n) \<Longrightarrow> size (without_field f n) + size c + 1 < size n"
proof -
  have "size_list (size_prod (\<lambda>_. 0) size) (filter (\<lambda>(g, _). g \<noteq> f) ks) + size c + 1
        < size_list (size_prod (\<lambda>_. 0) size) ks" if "(f, c) \<in> set ks" for ks
    using that
  proof (induction ks)
    case (Cons x ks)
    show ?case
    proof (cases "x = (f, c)")
      case True
      then show ?thesis using size_filter_kids [of "\<lambda>(g, _). g \<noteq> f" ks] by simp
    next
      case False
      with Cons show ?thesis by (cases x) auto
    qed
  qed simp
  moreover assume "(f, c) \<in> set (kids n)"
  ultimately show ?thesis by (cases n) (auto simp: without_field_def)
qed

lemma without_init_size:
  "without_init em stmt = Some (init, clone) \<Longrightarrow> size_list size [init, clone] \<le> size stmt"
  using size_without_field [of AtInit init stmt]
  by (auto simp: without_init_def split: option.splits kind.splits if_splits dest!: child_kid)

lemma size_list_body_list: "size_list size (body_list n) < size n"
proof (cases "child AtBody n")
  case None
  then show ?thesis by (cases n) (simp add: body_list_def)
next
  case (Some b)
  then show ?thesis using size_list_children [of AtList b] size_child [OF Some] by (simp add: body_list_def)
qed

lemma lists_smaller:
  "4 * size_list size (children f n) < Suc (4 * size n)" "4 * size_list size (body_list n) < Suc (4 * size n)"
  "4 * size_list size (children f n) < 4 + (4 * size n + m)"
  using size_list_children [of f n] size_list_body_list [of n] by simp_all

lemma list_in_child_smaller: "child g n = Some e \<Longrightarrow> 4 * size_list size (children f e) < Suc (4 * size n)"
  using size_list_children [of f e] size_child [of g n e] by simp

text \<open>
  The emission of statements. \<open>emit_rest\<close> is the loop of \<^verbatim>\<open>list\<close>: \<open>ending\<close> is the last statement of the
  list it was given, \<open>out\<close> what it has written. A clause list that may not be translated is \<open>None\<close>.
\<close>

function emit_rest ::
    "emitter \<Rightarrow> node option \<Rightarrow> string \<Rightarrow> node list \<Rightarrow> string \<Rightarrow> jump_targets \<Rightarrow> emit_state \<Rightarrow> string \<times> emit_state"
  and emit_statement ::
    "emitter \<Rightarrow> node \<Rightarrow> node list \<Rightarrow> string \<Rightarrow> jump_targets \<Rightarrow> emit_state \<Rightarrow> string \<times> emit_state"
  and emit_branch :: "emitter \<Rightarrow> node \<Rightarrow> temps \<Rightarrow> string \<Rightarrow> jump_targets \<Rightarrow> emit_state \<Rightarrow> string \<times> emit_state"
  and emit_clauses ::
    "emitter \<Rightarrow> node list \<Rightarrow> temps \<Rightarrow> string \<Rightarrow> jump_targets \<Rightarrow> emit_state \<Rightarrow> string option \<times> emit_state"
  and emit_for :: "emitter \<Rightarrow> node \<Rightarrow> string \<Rightarrow> emit_state \<Rightarrow> string \<times> emit_state"
  and emit_range :: "emitter \<Rightarrow> node \<Rightarrow> string \<Rightarrow> emit_state \<Rightarrow> string \<times> emit_state"
where
  "emit_rest em ending out [] k jumps st =
     (if k \<noteq> [] \<and> \<not> ends_list em jumps ending then (out @ k @ nl, st) else (out, st))"
| "emit_rest em ending out (stmt # rest) k jumps st =
     (if es_failure st \<noteq> [] then ([], st)
      else if \<not> needs em stmt \<and> stmt \<in> set (es_detached st) then
        (let (s, st) = emit_branch em stmt [] [] jumps st in emit_rest em ending (out @ s) rest k jumps st)
      else if \<not> needs em stmt then
        (let (s, st) = text_of_node em [] jumps stmt st
         in emit_rest em ending (out @ line_of (em_src em) stmt @ s @ nl) rest k jumps st)
      else (let (s, st) = emit_statement em stmt rest k jumps st in (out @ s, st)))"
| "emit_statement em stmt rest k jumps st =
     (case without_init em stmt of
        Some (init, clone) \<Rightarrow>
          compound em rest k (\<lambda>st. emit_rest em (last_of rest) [] rest k jumps st)
            (\<lambda>next st. let (inner, st) = emit_rest em (Some clone) [] [init, clone] next jumps st
               in (''return func() '' @ em_eff em @ '' {'' @ nl @ inner @ ''}()'' @ nl, st))
            (detach clone st)
      | None \<Rightarrow>
          if shape stmt = ForStmt then
            compound em rest k (\<lambda>st. emit_rest em (last_of rest) [] rest k jumps st) (\<lambda>next st. emit_for em stmt next st) st
          else if jump_scope (shape stmt) \<and> shape stmt \<notin> {SwitchStmt, TypeSwitchStmt, SelectStmt} then
            compound em rest k (\<lambda>st. emit_rest em (last_of rest) [] rest k jumps st) (\<lambda>next st. emit_range em stmt next st) st
          else
            let (own, reason) = own_steps (em_info em) (em_site em) stmt;
                st = (if reason \<noteq> [] then decline reason st else st) in
            if es_failure st \<noteq> [] then ([], st)
            else case tail_step em stmt of
              Some tail \<Rightarrow>
                chain em (butlast own)
                  (\<lambda>temps st. let (s, st) = text_of_node em temps no_jumps (argument_of em tail) st
                     in (''return '' @ line_of (em_src em) stmt @ s @ nl, st))
                  (emit_step tail st)
            | None \<Rightarrow>
                if shape stmt \<in> {IfStmt, SwitchStmt, TypeSwitchStmt, BlockStmt} then
                  compound em rest k (\<lambda>st. emit_rest em (last_of rest) [] rest k jumps st)
                    (\<lambda>next st. chain em own (\<lambda>temps st. emit_branch em stmt temps next jumps st) st) st
                else case value_tail em stmt rest k jumps own st of
                  Some result \<Rightarrow> result
                | None \<Rightarrow>
                    chain em own
                      (\<lambda>temps st.
                        if ends_list em jumps (Some stmt) then simple em stmt temps (unreachable em rest st)
                        else let (s, st) = simple em stmt temps st;
                                 (t, st) = emit_rest em (last_of rest) [] rest k jumps st
                             in (s @ t, st))
                      st)"
| "emit_branch em stmt temps k jumps st =
     (if shape stmt = BlockStmt then
        let (s, st) = emit_rest em (last_of (children AtList stmt)) [] (children AtList stmt) k jumps st
        in (''{'' @ nl @ s @ ''}'' @ nl, st)
      else if shape stmt = IfStmt then
        let (init, st) = header_field em temps (child AtInit stmt) ''; '' st;
            (cond, st) = header_field em temps (child AtCond stmt) [] st;
            (body, st) = emit_rest em (last_of (body_list stmt)) [] (body_list stmt) k jumps st;
            (alternative, st) =
              (case child AtElse stmt of
                 None \<Rightarrow> (if k \<noteq> [] then '' else {'' @ nl @ k @ nl @ ''}'' else [], st)
               | Some e \<Rightarrow>
                   if shape e = BlockStmt then
                     let (s, st) = emit_rest em (last_of (children AtList e)) [] (children AtList e) k jumps st
                     in ('' else {'' @ nl @ s @ ''}'', st)
                   else
                     let (s, st) = emit_rest em (Some e) [] [e] k jumps st in ('' else {'' @ nl @ s @ ''}'', st))
        in (line_of (em_src em) stmt @ ''if '' @ init @ cond @ '' {'' @ nl @ body @ ''}'' @ alternative @ nl, st)
      else if shape stmt = SwitchStmt \<or> shape stmt = TypeSwitchStmt then
        let (init, st) = header_field em temps (child AtInit stmt) ''; '' st;
            (tag, st) = header_field em temps (child (if shape stmt = SwitchStmt then AtTag else AtAssign) stmt) [] st in
        case emit_clauses em (body_list stmt) temps k jumps st of
          (None, st) \<Rightarrow> ([], st)
        | (Some s, st) \<Rightarrow>
            (''switch '' @ init @ tag @ '' {'' @ nl @ s @ ''}'' @ nl
             @ (if k \<noteq> [] \<and> \<not> has_default (body_list stmt) then k @ nl else []), st)
      else ([], decline ''an unexpected statement holds a step'' st))"
| "emit_clauses em [] temps k outer st = (Some [], st)"
| "emit_clauses em (clause # clauses) temps k outer st =
     (if list_ex (contains_step (em_site em)) (children AtCase clause) then
        (None, decline ''a step is in a case expression, which is evaluated only until one matches'' st)
      else
        let (cases, st) = texts_of em temps no_jumps (children AtCase clause) st;
            (body, st) = emit_rest em (last_of (children AtBody clause)) [] (children AtBody clause) k
              \<lparr>brk = k, cont = cont outer\<rparr> st in
        case emit_clauses em clauses temps k outer st of
          (None, st) \<Rightarrow> (None, st)
        | (Some s, st) \<Rightarrow>
            (Some ((if children AtCase clause = [] then ''default:'' else ''case '' @ join_with '', '' cases @ '':'')
                   @ nl @ body @ s), st))"
| "emit_for em stmt after st =
     (if list_ex (header_has_step (em_site em)) [child AtInit stmt, child AtCond stmt, child AtPost stmt]
      then ([], decline ''a step is in a loop's init, condition or post statement'' st)
      else case new_loop em (loop_idents stmt) st of
        (None, st) \<Rightarrow> ([], st)
      | (Some lp, st) \<Rightarrow>
          let (init, st) = optional_line em (child AtInit stmt) st;
              (post, st) = optional_line em (child AtPost stmt) st;
              (cond, st) = loop_condition em (child AtCond stmt) after st;
              (body, st) = emit_rest em (last_of (body_list stmt)) [] (body_list stmt) (back_edge lp)
                \<lparr>brk = after, cont = back_edge lp\<rparr> st
          in (''return func() '' @ em_eff em @ '' {'' @ nl @ init @ declare_loop em lp
              @ advance lp @ '' = '' @ signature lp (em_eff em) @ '' {'' @ nl @ post @ again em lp @ nl @ ''}'' @ nl
              @ run lp @ '' = '' @ signature lp (em_eff em) @ '' {'' @ nl @ cond @ body
              @ ''}'' @ nl @ ''return '' @ loop_call lp (run lp) @ nl @ ''}()'' @ nl, st))"
| "emit_range em stmt after st =
     (let x = range_expr stmt; t = type_of (em_info em) x in
      case range_kind (em_info em) t of
        None \<Rightarrow> ([], decline ''a step is inside a range over a map, a string or a function'' st)
      | Some kind \<Rightarrow>
          if kind = OverIndexed \<and> child AtValue stmt = None \<and> has_call x \<and> \<not> is_slice (em_info em) t
          then ([], decline ''a range over an array with only a key, which Go does not evaluate'' st)
          else let (own, reason) = own_steps (em_info em) (em_site em) (as_statement x);
                   st = (if reason \<noteq> [] then decline reason st else st) in
            chain em own
              (\<lambda>temps st.
                let (over, st) = text_of_node em temps no_jumps x st;
                    (collection, st) = fresh_name ''ranged'' st;
                    (index, st) = fresh_name ''index'' st;
                    (index_type, st) = (if kind = OverInteger then integer_type em x st else (Some ''int'', st)) in
                case index_type of
                  None \<Rightarrow> ([], st)
                | Some ty \<Rightarrow>
                    let (r, st) = fresh_name ''iteration'' st;
                        (a, st) = fresh_name ''advance'' st;
                        counted = (kind \<noteq> OverChannel);
                        lp = \<lparr>run = r, advance = a, params = (if counted then [index @ '' '' @ ty] else []),
                              loop_args = (if counted then [index] else [])\<rparr>;
                        (variables, st) = iteration_variables em stmt kind collection index after st;
                        (body, st) = emit_rest em (last_of (body_list stmt)) [] (body_list stmt) (back_edge lp)
                          \<lparr>brk = after, cont = back_edge lp\<rparr> st
                    in (''return func() '' @ em_eff em @ '' {'' @ nl @ range_header kind collection ty over @ declare_loop em lp
                        @ advance lp @ '' = '' @ signature lp (em_eff em) @ '' {'' @ nl
                        @ (if counted then index @ ''++'' @ nl else []) @ again em lp @ nl @ ''}'' @ nl
                        @ run lp @ '' = '' @ signature lp (em_eff em) @ '' {'' @ nl @ range_bound kind collection index after
                        @ line_of (em_src em) stmt @ variables @ body
                        @ ''}'' @ nl @ ''return '' @ run lp @ (if counted then ''(0)'' else ''()'') @ nl @ ''}()'' @ nl, st))
              st)"
  by pat_completeness auto

termination
  by (relation "measure (\<lambda>x. case x of
      Inl (Inl (em, ending, out, stmts, _)) \<Rightarrow> 4 * size_list size stmts
    | Inl (Inr (Inl (em, stmt, rest, _))) \<Rightarrow> 4 * size stmt + 4 * size_list size rest + 2
    | Inl (Inr (Inr (em, stmt, _))) \<Rightarrow> 4 * size stmt + 1
    | Inr (Inl (em, clauses, _)) \<Rightarrow> 4 * size_list size clauses
    | Inr (Inr (Inl (em, stmt, _))) \<Rightarrow> 4 * size stmt + 1
    | Inr (Inr (Inr (em, stmt, _))) \<Rightarrow> 4 * size stmt + 1)")
     (auto simp: lists_smaller list_in_child_smaller dest: without_init_size size_child)

declare emit_rest.simps [simp del] emit_statement.simps [simp del] emit_branch.simps [simp del]
  emit_clauses.simps [simp del] emit_for.simps [simp del] emit_range.simps [simp del]

text \<open>
  The body of a loop over \<open>i\<close> that declares an \<open>i\<close> of its own: \<open>do.Await(a); i := 9\<close>. The back edge names
  \<open>i\<close> in the scope of that declaration, so the next iteration is given the body's variable and not the loop's.
\<close>

definition shadowing_body :: node where
"shadowing_body = Node BlockStmt 1 24 [(AtList, Node ExprStmt 3 14 [(AtX, Node CallExpr 3 14 [(AtFun, Node
     SelectorExpr 3 11 [(AtX, Node (Ident ''do'') 3 5 []), (AtSel, Node (Ident ''Await'') 6 11 [])]), (AtArgs, Node
     (Ident ''a'') 12 13 [])])]), (AtList, Node (AssignStmt '':='') 16 22 [(AtLhs, Node (Ident ''i'') 16 17 []),
     (AtRhs, Node BasicLit 21 22 [])])]"

definition shadowing_emitter :: emitter where
  "shadowing_emitter = \<lparr>em_src = \<lparr>file_base = 1, file_text = ''{ do.Await(a); i := 9 }'', file_name = ''a''\<rparr>,
     em_info = no_types\<lparr>defs := (\<lambda>n. if pos n = 16 then Some (OtherObj 1) else None)\<rparr>,
     em_site = \<lparr>site_call = shadowing_body, site_literal = shadowing_body, site_do = None, site_r = 0, site_e = 0, site_a = 0,
       site_steps = [(Node CallExpr 3 14 [(AtFun, Node SelectorExpr 3 11 [(AtX, Node (Ident ''do'') 3 5 []), (AtSel, Node (Ident ''Await'') 6 11 [])]), (AtArgs, Node (Ident ''a'') 12 13 [])], \<lparr>fails = False, argument = Node (Ident ''a'') 12 13 [], answers = Some 0\<rparr>)]\<rparr>,
     em_naming = \<lparr>own_package = ''m'', imports_of = [], shadowed = (\<lambda>_. False)\<rparr>,
     em_replacements = [], em_effect = ''effect'', em_r = ''R'', em_e = ''E'', em_a = ''A''\<rparr>"

lemma shadowed_variable_reaches_the_back_edge:
  "fst (emit_rest shadowing_emitter (last_of (children AtList shadowing_body)) [] (children AtList shadowing_body)
      (back_edge \<lparr>run = ''iteration1'', advance = ''advance2'', params = [''i int''], loop_args = [''i'']\<rparr>)
      \<lparr>brk = ''return continuation3()'', cont = ''return advance2(i)''\<rparr> no_names)
   = ''return /*line a:1:3*/a.FlatMap(func(awaited1 int) effect.Effect[R, E, A] {'' @ nl
     @ ''_ = awaited1'' @ nl @ ''/*line a:1:16*/i := 9'' @ nl @ ''return advance2(i)'' @ nl @ ''})'' @ nl"
  by code_simp

end
