(* ===== verification/Rewrite_File.thy ===== *)
theory Rewrite_File
  imports Rewrite_Emit
begin

section \<open>Rewriting a file\<close>

text \<open>
  \<^verbatim>\<open>file.go\<close>: each call of \<open>effect.Gen\<close> in a file, innermost first, is replaced or left with a reason, and
  the outermost replacements are spliced into the file with the imports they need.
\<close>

subsection \<open>A body and its call\<close>

text \<open>The whole replacement of a call. A step that was never awaited is a reason to decline.\<close>

definition emit_body :: "emitter \<Rightarrow> emit_state \<Rightarrow> string \<times> emit_state" where
  "emit_body em st =
     (let stmts = body_list (site_literal (em_site em));
          (s, st) = emit_rest em (last_of stmts) [] stmts [] no_jumps st;
          st = (if list_ex (\<lambda>(call, _). call \<notin> set (es_emitted st)) (site_steps (em_site em))
                then decline ''a step is in a position this rewrite does not translate'' st else st)
      in (em_effect em @ ''.Suspend['' @ em_r em @ '', '' @ em_e em @ '', '' @ em_a em @ ''](func() '' @ em_eff em @ '' {'' @ nl
          @ s @ ''})'', st))"

text \<open>
  The file around a call: its package, its imports, and what a name looked up from a call means. A declined
  call leaves no import behind.
\<close>

record file_context =
  fc_src :: source_file
  fc_info :: type_info
  fc_package :: string
  fc_imports :: "(string \<times> string) list"
  fc_scope :: "node \<Rightarrow> (string \<Rightarrow> object option) option"

definition naming_at :: "file_context \<Rightarrow> site \<Rightarrow> naming" where
  "naming_at fc s =
     \<lparr>own_package = fc_package fc, imports_of = fc_imports fc,
      shadowed = shadowing (fc_info fc) (site_literal s) (fc_scope fc (site_call s))\<rparr>"

text \<open>The three channels, in order; \<open>None\<close> when the file cannot name one.\<close>

fun channel_texts :: "naming \<Rightarrow> type_info \<Rightarrow> type_id list \<Rightarrow> name_state \<Rightarrow> string list option \<times> name_state" where
  "channel_texts tn info [] st = (Some [], st)"
| "channel_texts tn info (t # ts) st =
     (case type_text tn info t st of
        (None, st) \<Rightarrow> (None, st)
      | (Some s, st) \<Rightarrow>
          (case channel_texts tn info ts st of (Some ss, st) \<Rightarrow> (Some (s # ss), st) | (None, st) \<Rightarrow> (None, st)))"

definition rewrite_site ::
  "file_context \<Rightarrow> (node \<times> string) list \<Rightarrow> node \<Rightarrow> name_state \<Rightarrow> (string \<times> string) \<times> name_state" where
  "rewrite_site fc replacements call st =
     (case find_site (fc_info fc) call of
        (None, reason) \<Rightarrow> (([], reason), st)
      | (Some s, _) \<Rightarrow>
          if decline_reason s \<noteq> [] then (([], decline_reason s), st)
          else
            let before = additions st; tn = naming_at fc s;
                (effect, st) = package_name tn effect_path ''effect'' st in
            (case channel_texts tn (fc_info fc) [site_r s, site_e s, site_a s] st of
               (Some [r, e, a], st) \<Rightarrow>
                 let em = \<lparr>em_src = fc_src fc, em_info = fc_info fc, em_site = s, em_naming = tn,
                           em_replacements = replacements, em_effect = effect, em_r = r, em_e = e, em_a = a\<rparr>;
                     (body, es) = emit_body em \<lparr>es_names = st, es_emitted = [], es_failure = [], es_detached = []\<rparr>
                 in if es_failure es \<noteq> [] then (([], es_failure es), (es_names es)\<lparr>additions := before\<rparr>)
                    else ((body @ line_at (fc_src fc) (end_of call), []), es_names es)
             | (_, st) \<Rightarrow> (([], ''a channel has a type this file cannot name''), st\<lparr>additions := before\<rparr>)))"

subsection \<open>A file\<close>

record file_result =
  new_source :: "string option"
  rewritten :: nat
  declines :: "(nat \<times> string) list"

text \<open>The calls one after the other: what replaces them and why the others were left.\<close>

fun rewrite_calls ::
  "file_context \<Rightarrow> node list \<Rightarrow> (node \<times> string) list \<Rightarrow> (nat \<times> string) list \<Rightarrow> name_state
   \<Rightarrow> (node \<times> string) list \<times> (nat \<times> string) list \<times> name_state" where
  "rewrite_calls fc [] replacements declined st = (replacements, declined, st)"
| "rewrite_calls fc (call # calls) replacements declined st =
     (let ((replacement, reason), st) = rewrite_site fc replacements call st in
      if reason \<noteq> [] then rewrite_calls fc calls replacements (declined @ [(pos call, reason)]) st
      else rewrite_calls fc calls ((call, replacement) # replacements) declined st)"

text \<open>\<^verbatim>\<open>strconv.Quote\<close> of an import path, which holds nothing to escape.\<close>

definition quote :: "string \<Rightarrow> string" where
  "quote s = [CHR 0x22] @ s @ [CHR 0x22]"

definition import_edits :: "source_file \<Rightarrow> node \<Rightarrow> (string \<times> string) list \<Rightarrow> edit list \<Rightarrow> edit list" where
  "import_edits src file added replaced =
     (case rev (filter (\<lambda>d. shape d = GenDecl ''import'') (children AtList file)) of
        [] \<Rightarrow> []
      | last_import # _ \<Rightarrow>
          let spelled = concat (map (\<lambda>(path, alias). ''; import '' @ alias @ '' '' @ quote path)
                (filter (\<lambda>(path, alias). list_ex (\<lambda>e. contains_text (edit_text e) (alias @ ''.'')) replaced)
                  (sort_key fst added)));
              here = offset src (end_of last_import)
          in if spelled = [] then [] else [\<lparr>edit_start = here, edit_end = here, edit_text = spelled\<rparr>])"

text \<open>Bodies are rewritten innermost first, and only the outermost rewritten calls are edits to the file.\<close>

definition gen_calls :: "file_context \<Rightarrow> node \<Rightarrow> node list" where
  "gen_calls fc file = rev (filter (\<lambda>n. shape n = CallExpr \<and> is_gen (fc_info fc) n) (everything file))"

definition edit_of :: "source_file \<Rightarrow> node \<times> string \<Rightarrow> edit" where
  "edit_of src = (\<lambda>(call, s).
     \<lparr>edit_start = offset src (pos call), edit_end = offset src (end_of call), edit_text = s\<rparr>)"

definition outermost :: "(node \<times> string) list \<Rightarrow> (node \<times> string) list" where
  "outermost replacements = filter (\<lambda>(call, _). \<not> inside_any call (map fst replacements)) replacements"

definition rewrite_file :: "file_context \<Rightarrow> node \<Rightarrow> file_result" where
  "rewrite_file fc file =
     (let (replacements, declined, st) =
            rewrite_calls fc (gen_calls fc file) [] [] \<lparr>all_names = new_names file, additions = []\<rparr>;
          edits = map (edit_of (fc_src fc)) (outermost replacements)
      in if replacements = [] then \<lparr>new_source = None, rewritten = 0, declines = declined\<rparr>
         else \<lparr>new_source = Some (splice (fc_src fc) 0 (length (file_text (fc_src fc)))
                  (edits @ import_edits (fc_src fc) file (additions st) edits)),
               rewritten = length replacements, declines = declined\<rparr>)"

subsection \<open>Only the calls change\<close>

lemma rewrite_calls_keys:
  assumes "rewrite_calls fc calls reps declined st = (reps', declined', st')"
    and "distinct calls" "distinct (map fst reps)" "fst ` set reps \<inter> set calls = {}"
  shows "fst ` set reps' \<subseteq> fst ` set reps \<union> set calls \<and> distinct (map fst reps')"
  using assms
proof (induction calls arbitrary: reps declined st)
  case (Cons call calls)
  obtain s reason st1 where site: "rewrite_site fc reps call st = ((s, reason), st1)" by (metis surj_pair)
  show ?case
  proof (cases "reason = []")
    case True
    then have "rewrite_calls fc calls ((call, s) # reps) declined st1 = (reps', declined', st')"
      using Cons.prems(1) site by simp
    then have "fst ` set reps' \<subseteq> fst ` set ((call, s) # reps) \<union> set calls \<and> distinct (map fst reps')"
      by (rule Cons.IH) (use Cons.prems(2-4) in auto)
    then show ?thesis by auto
  next
    case False
    then have "rewrite_calls fc calls reps (declined @ [(pos call, reason)]) st1 = (reps', declined', st')"
      using Cons.prems(1) site by simp
    then have "fst ` set reps' \<subseteq> fst ` set reps \<union> set calls \<and> distinct (map fst reps')"
      by (rule Cons.IH) (use Cons.prems(2-4) in auto)
    then show ?thesis by auto
  qed
qed simp

text \<open>Two nodes of a file are apart, or one lies inside the other.\<close>

definition apart :: "node \<Rightarrow> node \<Rightarrow> bool" where
  "apart a b \<longleftrightarrow> end_of a \<le> pos b \<or> end_of b \<le> pos a"

definition covers :: "node \<Rightarrow> node \<Rightarrow> bool" where
  "covers a b \<longleftrightarrow> pos a \<le> pos b \<and> end_of b \<le> end_of a"

lemma apart_or_inside:
  assumes "placed n" "a \<in> set (everything n)" "b \<in> set (everything n)"
  shows "apart a b \<or> covers a b \<or> covers b a"
  using assms
proof (induction "size n" arbitrary: n rule: less_induct)
  case less
  have kid: "x = n \<or> (\<exists>c\<in>snd ` set (kids n). x \<in> set (everything c))" if "x \<in> set (everything n)" for x
    using that by (auto simp: visited_eq [of _ n])
  show ?case
  proof (cases "a = n \<or> b = n")
    case True
    then show ?thesis using everything_inside [OF less.prems(1)] less.prems(2,3) by (auto simp: covers_def)
  next
    case False
    then obtain c d where c: "c \<in> snd ` set (kids n)" "a \<in> set (everything c)" and d: "d \<in> snd ` set (kids n)" "b \<in> set (everything d)"
      using kid [OF less.prems(2)] kid [OF less.prems(3)] by blast
    have p: "placed c" "placed d" using c(1) d(1) placed_kid(1) [OF less.prems(1)] by auto
    show ?thesis
    proof (cases "c = d")
      case True
      with c d p show ?thesis using less.hyps [OF size_snd_kid [OF c(1)] p(1)] by blast
    next
      case False
      have "sorted_wrt in_order (map snd (kids n))" using placed_kids [OF less.prems(1)] by (simp add: placed_all_def)
      then have "apart c d" using c(1) d(1) False
        by (auto simp: apart_def sorted_wrt_iff_nth_less in_set_conv_nth) (metis linorder_neqE_nat snd_conv nth_map)
      with everything_inside [OF p(1) c(2)] everything_inside [OF p(2) d(2)] show ?thesis
        by (auto simp: apart_def)
    qed
  qed
qed

text \<open>Edits that are apart and start at different places are disjoint once sorted.\<close>

lemma disjoint_when_sorted:
  assumes "sorted (map edit_start es)" "distinct (map edit_start es)" "a \<le> limit"
    and "\<forall>e\<in>set es. a \<le> edit_start e \<and> edit_start e \<le> edit_end e \<and> edit_end e \<le> limit"
    and "\<forall>x\<in>set es. \<forall>y\<in>set es. x \<noteq> y \<longrightarrow> edit_end x \<le> edit_start y \<or> edit_end y \<le> edit_start x"
  shows "disjoint_edits a limit es"
  using assms
proof (induction es arbitrary: a)
  case (Cons e es)
  have later: "edit_end e \<le> edit_start y" if "y \<in> set es" for y
  proof -
    have "edit_start e < edit_start y" using Cons.prems(1,2) that by (force simp: le_less)
    moreover have "edit_start y \<le> edit_end y" using Cons.prems(4) that by simp
    ultimately show ?thesis using Cons.prems(5) that by fastforce
  qed
  have "disjoint_edits (edit_end e) limit es" using Cons.prems later by (intro Cons.IH) auto
  with Cons.prems(4) show ?case by simp
qed simp

text \<open>The edits of the outermost calls, in any order.\<close>

lemma outermost_apart:
  assumes "placed file" "fst ` set reps \<subseteq> set (everything file)" "distinct (map fst reps)"
    and "x \<in> set (outermost reps)" "y \<in> set (outermost reps)" "x \<noteq> y"
  shows "apart (fst x) (fst y)"
proof -
  have in_reps: "x \<in> set reps" "y \<in> set reps"
    and out: "\<not> inside_any (fst x) (map fst reps)" "\<not> inside_any (fst y) (map fst reps)"
    using assms(4,5) by (auto simp: outermost_def)
  then have "fst x \<noteq> fst y" using assms(3,6) by (meson distinct_map inj_onD)
  then have "\<not> covers (fst x) (fst y)" "\<not> covers (fst y) (fst x)"
    using out in_reps by (auto simp: inside_any_def covers_def list_ex_iff)
  with apart_or_inside [OF assms(1), of "fst x" "fst y"] in_reps assms(2) show ?thesis by blast
qed

definition import_ends :: "source_file \<Rightarrow> node \<Rightarrow> nat set" where
  "import_ends src file = {offset src (end_of d) | d. d \<in> set (children AtList file) \<and> shape d = GenDecl ''import''}"

lemma import_edits_shape:
  "import_edits src file added es = [] \<or> (\<exists>here s. here \<in> import_ends src file
     \<and> import_edits src file added es = [\<lparr>edit_start = here, edit_end = here, edit_text = s\<rparr>])"
proof (cases "rev (filter (\<lambda>d. shape d = GenDecl ''import'') (children AtList file))")
  case Nil
  then show ?thesis by (simp add: import_edits_def)
next
  case (Cons d ds)
  then have "d \<in> set (filter (\<lambda>d. shape d = GenDecl ''import'') (children AtList file))"
    by (metis list.set_intros(1) set_rev)
  then have "offset src (end_of d) \<in> import_ends src file" by (auto simp: import_ends_def)
  with Cons show ?thesis by (auto simp: import_edits_def Let_def)
qed


text \<open>A file with one call, whose body awaits its answer; every channel is an \<open>int\<close>.\<close>

definition sample_call :: node where
"sample_call = Node CallExpr 30 79 [(AtFun, Node SelectorExpr 30 40 [(AtX, Node (Ident ''effect'') 30 36 []), (AtSel,
     Node (Ident ''Gen'') 37 40 [])]), (AtArgs, Node FuncLit 41 78 [(AtType, Node FuncType 41 55 [(AtParams, Node
     FieldList 45 51 [(AtList, Node Field 46 50 [(AtNames, Node (Ident ''do'') 46 48 []), (AtType, Node (Ident ''D'')
     49 50 [])])]), (AtResults, Node FieldList 52 55 [(AtList, Node Field 52 55 [(AtType, Node (Ident ''int'') 52 55
     [])])])]), (AtBody, Node BlockStmt 56 78 [(AtList, Node ReturnStmt 58 76 [(AtResults, Node CallExpr 65 76
     [(AtFun, Node SelectorExpr 65 73 [(AtX, Node (Ident ''do'') 65 67 []), (AtSel, Node (Ident ''Await'') 68 73
     [])]), (AtArgs, Node (Ident ''a'') 74 75 [])])])])])]"

definition sample_file :: node where
"sample_file = Node OtherNode 1 79 [(AtKey, Node (Ident ''m'') 9 10 []), (AtList, Node (GenDecl ''import'') 11 21 []),
     (AtList, Node (GenDecl ''var'') 22 79 [(AtNames, Node (Ident ''p'') 26 27 []), (AtValue, sample_call)])]"

definition sample_context :: file_context where
  "sample_context =
     \<lparr>fc_src = \<lparr>file_base = 1,
         file_text = ''package m'' @ [newline] @ ''import '' @ quote ''e'' @ [newline] @ ''var p = effect.Gen(func(do D) int { return do.Await(a) })'',
         file_name = ''a.go''\<rparr>,
      fc_info = no_types
        \<lparr>uses := (\<lambda>n. if ident_name n = Some ''Gen'' then Some (FuncObj (Some effect_path) ''Gen'')
            else if ident_name n = Some ''do'' then Some (OtherObj 1) else None),
         defs := (\<lambda>n. if ident_name n = Some ''do'' \<and> pos n = 46 then Some (OtherObj 1) else None),
         type_of := (\<lambda>n. if n = sample_call then 9 else 0),
         type_table := [(0, BasicType True False), (9, NamedType (TypeObject (Some effect_path) True) [0, 0, 0])]\<rparr>,
      fc_package = ''m'', fc_imports = [(effect_path, ''effect'')], fc_scope = (\<lambda>_. None)\<rparr>"

definition sample_output :: string where
  "sample_output =
     ''package m'' @ nl @ ''import '' @ quote ''e'' @ nl
     @ ''var p = effect.Suspend[int, int, int](func() effect.Effect[int, int, int] {'' @ nl
     @ ''return /*line a.go:3:37*/a'' @ nl @ ''})/*line a.go:3:58*/''"

lemma sample_rewritten: "new_source (rewrite_file sample_context sample_file) = Some sample_output"
  by code_simp

lemma sample_calls: "gen_calls sample_context sample_file = [sample_call]"
  by code_simp

lemma sample_placed:
  "placed sample_file" "file_base (fc_src sample_context) \<le> pos sample_file"
  "offset (fc_src sample_context) (end_of sample_file) \<le> length (file_text (fc_src sample_context))"
  "children AtList sample_file = [Node (GenDecl ''import'') 11 21 [],
     Node (GenDecl ''var'') 22 79 [(AtNames, Node (Ident ''p'') 26 27 []), (AtValue, sample_call)]]"
  "offset (fc_src sample_context) 21 < offset (fc_src sample_context) (pos sample_call)"
  by code_simp+


end
