(* ===== verification/Effectgo_Command.thy ===== *)
theory Effectgo_Command
  imports Rewrite_File
begin

section \<open>The effectgo command\<close>

text \<open>
  \<^verbatim>\<open>tools/effectgo\<close>: the command that runs the go command with an overlay of rewritten files. What the go
  command, the package loader and the operating system answer is a \<open>toolchain\<close>; files are a map from paths
  to contents, and what is written to the standard error is a list of lines.
\<close>

text \<open>A package as it is loaded, first by name and then with its syntax; a file is under its name.\<close>

record listed_package =
  package_path :: string
  package_imports :: "string list"
  package_files :: "string list"

record loaded_file =
  loaded_name :: string
  loaded_imports :: "string list"
  loaded_syntax :: node
  loaded_context :: file_context

record toolchain =
  module_version :: "string option"
  module_dirs :: "string option"
  list_packages :: "string list \<Rightarrow> listed_package list option"
  load_files :: "string list \<Rightarrow> loaded_file list list option"
  cache_base :: "string option"
  can_write :: "string \<Rightarrow> bool"
  digest :: "string \<Rightarrow> string"
  base_name :: "string \<Rightarrow> string"
  join_path :: "string \<Rightarrow> string \<Rightarrow> string"
  major_minor :: "string \<Rightarrow> string"
  overlay_json :: "(string \<times> string) list \<Rightarrow> string"
  explains :: bool
  position_text :: "string \<Rightarrow> nat \<Rightarrow> string"

record system =
  disk :: "string \<rightharpoonup> string"
  stderr :: "string list"

definition warn :: "string \<Rightarrow> system \<Rightarrow> system" where
  "warn line sys = sys\<lparr>stderr := stderr sys @ [line]\<rparr>"

subsection \<open>The release series\<close>

definition series :: string where
  "series = ''v0.5''"

text \<open>A module with no version of its own, or that cannot be listed, is taken to be understood.\<close>

definition understood :: "toolchain \<Rightarrow> system \<Rightarrow> bool \<times> system" where
  "understood tc sys =
     (case module_version tc of
        None \<Rightarrow> (True, sys)
      | Some out \<Rightarrow>
          (case fields_of out of
             [version] \<Rightarrow>
               if major_minor tc version \<noteq> series
               then (False, warn (''effectgo: this build uses effect-golang '' @ version @ '', and this effectgo rewrites ''
                      @ series @ ''.x; running unchanged'') sys)
               else (True, sys)
           | _ \<Rightarrow> (True, sys)))"

subsection \<open>The cache\<close>

definition cache_dir :: "toolchain \<Rightarrow> string option" where
  "cache_dir tc =
     (case cache_base tc of None \<Rightarrow> None
      | Some base \<Rightarrow> let dir = join_path tc base ''effectgo'' in if can_write tc dir then Some dir else None)"

definition target_of :: "toolchain \<Rightarrow> string \<Rightarrow> string \<Rightarrow> string \<Rightarrow> string" where
  "target_of tc dir name content =
     join_path tc dir (digest tc (name @ [CHR 0x00] @ content) @ ''-'' @ base_name tc name)"

text \<open>The partial file is written beside the target and renamed to it, so a failure leaves no target.\<close>

definition store :: "toolchain \<Rightarrow> string \<Rightarrow> string \<Rightarrow> string \<Rightarrow> system \<Rightarrow> string option \<times> system" where
  "store tc dir name content sys =
     (let target = target_of tc dir name content in
      if disk sys target \<noteq> None then (Some target, sys)
      else if \<not> can_write tc target then (None, sys)
      else (Some target, sys\<lparr>disk := (disk sys)(target \<mapsto> content)\<rparr>))"

subsection \<open>The packages that may call Gen\<close>

definition mentions_gen :: "system \<Rightarrow> string list \<Rightarrow> bool" where
  "mentions_gen sys files \<longleftrightarrow>
     list_ex (\<lambda>f. case disk sys f of None \<Rightarrow> False
        | Some text \<Rightarrow> contains_text text ''Gen('' \<or> contains_text text ''Gen['') files"

fun importers_among :: "system \<Rightarrow> listed_package list \<Rightarrow> string list \<Rightarrow> string list" where
  "importers_among sys [] found = found"
| "importers_among sys (p # ps) found =
     (if effect_path \<notin> set (package_imports p) \<or> package_path p \<in> set found \<or> \<not> mentions_gen sys (package_files p)
      then importers_among sys ps found
      else importers_among sys ps (found @ [package_path p]))"

definition importers_of_gen :: "toolchain \<Rightarrow> string list \<Rightarrow> system \<Rightarrow> string list option" where
  "importers_of_gen tc patterns sys = map_option (\<lambda>ps. importers_among sys ps []) (list_packages tc patterns)"

definition imports_effect :: "loaded_file \<Rightarrow> bool" where
  "imports_effect f \<longleftrightarrow> effect_path \<in> set (loaded_imports f)"

subsection \<open>The overlay\<close>

definition explain :: "toolchain \<Rightarrow> string \<Rightarrow> (nat \<times> string) list \<Rightarrow> system \<Rightarrow> system" where
  "explain tc name ds sys =
     (if \<not> explains tc then sys
      else fold (\<lambda>(p, reason). warn (''effectgo: '' @ position_text tc name p @ '': left as it was: '' @ reason)) ds sys)"

text \<open>What the loop over the files keeps: the files replaced, and how many bodies were rewritten and declined.\<close>

record overlay_state =
  replaced :: "(string \<times> string) list"
  rewrote :: nat
  declined :: nat

text \<open>The source a file is rewritten to, from the text read for it.\<close>

definition rewrite_loaded :: "loaded_file \<Rightarrow> string \<Rightarrow> file_result" where
  "rewrite_loaded f text =
     (let fc = loaded_context f; src = fc_src fc
      in rewrite_file (fc\<lparr>fc_src := src\<lparr>file_text := text\<rparr>\<rparr>) (loaded_syntax f))"

fun overlay_files :: "toolchain \<Rightarrow> string \<Rightarrow> loaded_file list \<Rightarrow> overlay_state \<Rightarrow> system \<Rightarrow> overlay_state option \<times> system" where
  "overlay_files tc cache [] st sys = (Some st, sys)"
| "overlay_files tc cache (f # fs) st sys =
     (if map_of (replaced st) (loaded_name f) \<noteq> None \<or> \<not> imports_effect f then overlay_files tc cache fs st sys
      else case disk sys (loaded_name f) of
        None \<Rightarrow> (None, sys)
      | Some text \<Rightarrow>
          let result = rewrite_loaded f text;
              st = st\<lparr>rewrote := rewrote st + rewritten result, declined := declined st + length (declines result)\<rparr>;
              sys = explain tc (loaded_name f) (declines result) sys in
          case new_source result of
            None \<Rightarrow> overlay_files tc cache fs st sys
          | Some source \<Rightarrow>
              (case store tc cache (loaded_name f) source sys of
                 (None, sys) \<Rightarrow> (None, sys)
               | (Some target, sys) \<Rightarrow>
                   overlay_files tc cache fs (st\<lparr>replaced := (loaded_name f, target) # replaced st\<rparr>) sys))"

definition overlay :: "toolchain \<Rightarrow> string list \<Rightarrow> system \<Rightarrow> string option \<times> system" where
  "overlay tc patterns sys =
     (case (if patterns = [] then Some [] else importers_of_gen tc patterns sys) of
        None \<Rightarrow> (None, sys)
      | Some importers \<Rightarrow>
          (case cache_dir tc of
             None \<Rightarrow> (None, sys)
           | Some cache \<Rightarrow>
               (case (if importers = [] then Some [] else load_files tc importers) of
                  None \<Rightarrow> (None, sys)
                | Some pkgs \<Rightarrow>
                    (case overlay_files tc cache (concat pkgs) \<lparr>replaced = [], rewrote = 0, declined = 0\<rparr> sys of
                       (None, sys) \<Rightarrow> (None, sys)
                     | (Some st, sys) \<Rightarrow>
                         let sys = warn (''effectgo: rewrote '' @ digits_of (rewrote st) @ '' Gen bodies, declined ''
                               @ digits_of (declined st)) sys
                         in store tc cache ''overlay.json'' (overlay_json tc (replaced st)) sys))))"

subsection \<open>The command line\<close>

datatype action = Refused string | Printed string | Ran "string list"

definition overlaid :: "string list" where
  "overlaid = [''build'', ''install'', ''list'', ''run'', ''test'', ''vet'']"

definition workspace_patterns :: "toolchain \<Rightarrow> string list option" where
  "workspace_patterns tc = map_option (\<lambda>out. map (\<lambda>dir. join_path tc dir ''...'') (fields_of out)) (module_dirs tc)"

definition run_command :: "toolchain \<Rightarrow> string list \<Rightarrow> system \<Rightarrow> action \<times> system" where
  "run_command tc args sys =
     (case args of
        [] \<Rightarrow> (Refused ''usage: effectgo <go command> [arguments], or effectgo overlay [packages]'', sys)
      | verb # rest \<Rightarrow>
          if verb = ''overlay'' then
            let (ok, sys) = understood tc sys;
                patterns = (if \<not> ok then [] else if rest = [] then [''./...''] else rest)
            in (case overlay tc patterns sys of
                  (None, sys) \<Rightarrow> (Refused ''overlay'', sys)
                | (Some path, sys) \<Rightarrow> (Printed path, sys))
          else if verb \<notin> set overlaid then (Ran args, sys)
          else let (ok, sys) = understood tc sys in
            if \<not> ok then (Ran args, sys)
            else case workspace_patterns tc of
              None \<Rightarrow> (Refused ''listing the modules being built'', sys)
            | Some patterns \<Rightarrow>
                (case overlay tc patterns sys of
                   (None, sys) \<Rightarrow> (Refused ''overlay'', sys)
                 | (Some path, sys) \<Rightarrow> (Ran (verb # (''-overlay='' @ path) # rest), sys)))"

subsection \<open>An overlay names what was rewritten\<close>

text \<open>
  The cache holds under each target the content it is named after. The name of a target tells apart what is
  stored under it: no path holds a zero byte, and the digest is taken to have no collision.
\<close>

definition path_name :: "string \<Rightarrow> bool" where
  "path_name name \<longleftrightarrow> CHR 0x00 \<notin> set name"

definition content_addressed :: "toolchain \<Rightarrow> string \<Rightarrow> system \<Rightarrow> bool" where
  "content_addressed tc dir sys \<longleftrightarrow>
     (\<forall>name content stored. path_name name \<longrightarrow> disk sys (target_of tc dir name content) = Some stored \<longrightarrow> stored = content)"

definition targets_differ :: "toolchain \<Rightarrow> string \<Rightarrow> bool" where
  "targets_differ tc dir \<longleftrightarrow>
     (\<forall>n c n' c'. path_name n \<longrightarrow> path_name n' \<longrightarrow> target_of tc dir n c = target_of tc dir n' c' \<longrightarrow> n = n' \<and> c = c')"

lemma content_addressedD:
  "content_addressed tc dir sys \<Longrightarrow> path_name n \<Longrightarrow> disk sys (target_of tc dir n c) = Some stored \<Longrightarrow> stored = c"
  unfolding content_addressed_def by blast

lemma content_addressed_disk: "disk sys = disk sys' \<Longrightarrow> content_addressed tc dir sys = content_addressed tc dir sys'"
  by (simp add: content_addressed_def)

text \<open>What was on the disk stays as it was.\<close>

definition only_adds :: "system \<Rightarrow> system \<Rightarrow> bool" where
  "only_adds sys sys' \<longleftrightarrow> (\<forall>p. disk sys p \<noteq> None \<longrightarrow> disk sys' p = disk sys p)"

lemma only_adds_refl [intro]: "disk sys = disk sys' \<Longrightarrow> only_adds sys sys'"
  by (simp add: only_adds_def)

lemma only_adds_trans [trans]: "only_adds s s' \<Longrightarrow> only_adds s' s'' \<Longrightarrow> only_adds s s''"
  by (simp add: only_adds_def)

lemma only_addsD: "only_adds sys sys' \<Longrightarrow> disk sys p = Some c \<Longrightarrow> disk sys' p = Some c"
  by (simp add: only_adds_def)

lemma disk_warn [simp]: "disk (warn line sys) = disk sys"
  by (simp add: warn_def)

lemma disk_explain [simp]: "disk (explain tc name ds sys) = disk sys"
proof -
  have "disk (fold (\<lambda>(p, reason). warn (f p reason)) ds sys) = disk sys" for f
    by (induction ds arbitrary: sys) auto
  then show ?thesis by (simp add: explain_def)
qed

lemma store_cases:
  assumes "store tc dir name content sys = (Some target, sys')"
  obtains "target = target_of tc dir name content" "sys' = sys" "disk sys target \<noteq> None"
  | "target = target_of tc dir name content" "disk sys target = None" "disk sys' = (disk sys)(target \<mapsto> content)"
  using assms by (auto simp: store_def Let_def split: if_splits)

lemma store_only_adds: "store tc dir name content sys = (r, sys') \<Longrightarrow> only_adds sys sys'"
  by (auto simp: store_def Let_def only_adds_def split: if_splits)

lemma store_holds:
  assumes "content_addressed tc dir sys" "path_name name" "store tc dir name content sys = (Some target, sys')"
  shows "disk sys' target = Some content"
  using assms(3)
proof (cases rule: store_cases)
  case 1
  then obtain stored where "disk sys target = Some stored" by auto
  then show ?thesis using 1 content_addressedD [OF assms(1,2)] by auto
qed simp

lemma store_addressed:
  assumes "targets_differ tc dir" "content_addressed tc dir sys" "path_name name"
    and "store tc dir name content sys = (Some target, sys')"
  shows "content_addressed tc dir sys'"
  unfolding content_addressed_def
proof (intro allI impI)
  fix n c stored assume at: "path_name n" "disk sys' (target_of tc dir n c) = Some stored"
  show "stored = c"
    using assms(4)
  proof (cases rule: store_cases)
    case 1
    then show ?thesis using content_addressedD [OF assms(2) at(1)] at(2) by simp
  next
    case 2
    show ?thesis
    proof (cases "target_of tc dir n c = target")
      case True
      then have "c = content" using assms(1,3) at(1) 2(1) unfolding targets_differ_def by blast
      then show ?thesis using True at(2) 2(3) by simp
    next
      case False
      then show ?thesis using content_addressedD [OF assms(2) at(1)] at(2) 2(3) by simp
    qed
  qed
qed

text \<open>Every entry of the overlay names a loaded file and the rewriting of it that its target holds.\<close>

definition entry_ok :: "loaded_file set \<Rightarrow> system \<Rightarrow> string \<times> string \<Rightarrow> bool" where
  "entry_ok fs sys entry \<longleftrightarrow> (\<exists>f\<in>fs. \<exists>body source. loaded_name f = fst entry \<and> imports_effect f
     \<and> disk sys (fst entry) = Some body \<and> new_source (rewrite_loaded f body) = Some source
     \<and> disk sys (snd entry) = Some source)"

lemma entry_ok_kept: "entry_ok fs sys e \<Longrightarrow> only_adds sys sys' \<Longrightarrow> entry_ok fs sys' e"
  unfolding entry_ok_def by (blast dest: only_addsD)

lemma overlay_files_keeps:
  assumes "targets_differ tc cache" "content_addressed tc cache sys" "set fs \<subseteq> all" "\<forall>f\<in>set fs. path_name (loaded_name f)"
    and "overlay_files tc cache fs st sys = (Some st', sys')"
    and "\<forall>e\<in>set (replaced st). entry_ok all sys e" "distinct (map fst (replaced st))"
  shows "content_addressed tc cache sys' \<and> (\<forall>e\<in>set (replaced st'). entry_ok all sys' e)
    \<and> distinct (map fst (replaced st')) \<and> only_adds sys sys'"
  using assms(2-)
proof (induction fs arbitrary: st sys)
  case Nil
  then show ?case by auto
next
  case (Cons f fs)
  have rest: "set fs \<subseteq> all" "\<forall>f\<in>set fs. path_name (loaded_name f)" and f: "f \<in> all" "path_name (loaded_name f)"
    using Cons.prems(2,3) by auto
  show ?case
  proof (cases "map_of (replaced st) (loaded_name f) \<noteq> None \<or> \<not> imports_effect f")
    case True
    then have "overlay_files tc cache fs st sys = (Some st', sys')" using Cons.prems(4) by simp
    then show ?thesis using Cons.IH Cons.prems(1,5,6) rest by blast
  next
    case False
    obtain body where body: "disk sys (loaded_name f) = Some body"
      using Cons.prems(4) False by (cases "disk sys (loaded_name f)") auto
    define result where "result = rewrite_loaded f body"
    define st1 where "st1 = st\<lparr>rewrote := rewrote st + rewritten result, declined := declined st + length (declines result)\<rparr>"
    define sys1 where "sys1 = explain tc (loaded_name f) (declines result) sys"
    have same: "disk sys1 = disk sys" "replaced st1 = replaced st" by (simp_all add: sys1_def st1_def)
    have adds1: "only_adds sys sys1" using same(1) by auto
    have ok1: "content_addressed tc cache sys1" "\<forall>e\<in>set (replaced st1). entry_ok all sys1 e" "distinct (map fst (replaced st1))"
      using Cons.prems(1,5,6) same content_addressed_disk [OF same(1)] adds1 entry_ok_kept by auto
    have step: "(case new_source result of None \<Rightarrow> overlay_files tc cache fs st1 sys1
        | Some source \<Rightarrow> (case store tc cache (loaded_name f) source sys1 of (None, sys2) \<Rightarrow> (None, sys2)
          | (Some target, sys2) \<Rightarrow> overlay_files tc cache fs (st1\<lparr>replaced := (loaded_name f, target) # replaced st1\<rparr>) sys2))
        = (Some st', sys')"
      using Cons.prems(4) False body unfolding result_def st1_def sys1_def by (simp add: Let_def)
    show ?thesis
    proof (cases "new_source result")
      case None
      then show ?thesis using Cons.IH [OF ok1(1) rest _ ok1(2,3)] step adds1 only_adds_trans by auto
    next
      case (Some source)
      obtain target sys2 where stored: "store tc cache (loaded_name f) source sys1 = (Some target, sys2)"
        using step Some by (auto split: prod.splits option.splits)
      let ?st2 = "st1\<lparr>replaced := (loaded_name f, target) # replaced st1\<rparr>"
      have adds2: "only_adds sys1 sys2" by (rule store_only_adds [OF stored])
      have "entry_ok all sys2 (loaded_name f, target)"
        using f(1) False Some store_holds [OF ok1(1) f(2) stored] only_addsD [OF adds2] body same(1)
        by (auto simp: entry_ok_def result_def)
      then have ok2: "\<forall>e\<in>set (replaced ?st2). entry_ok all sys2 e" "distinct (map fst (replaced ?st2))"
        using ok1 entry_ok_kept [OF _ adds2] False same(2) by (auto simp: map_of_eq_None_iff)
      have "overlay_files tc cache fs ?st2 sys2 = (Some st', sys')" using step Some stored by simp
      from Cons.IH [OF store_addressed [OF assms(1) ok1(1) f(2) stored] rest this ok2]
      show ?thesis using adds1 adds2 only_adds_trans by blast
    qed
  qed
qed

text \<open>The files the loader can answer.\<close>

definition loaded_files :: "toolchain \<Rightarrow> loaded_file set" where
  "loaded_files tc = {f. \<exists>patterns pkgs. load_files tc patterns = Some pkgs \<and> f \<in> set (concat pkgs)}"

lemma overlay_result:
  assumes "overlay tc patterns sys = (Some path, sys')" "cache_dir tc = Some cache"
  obtains fs st sys1 where "overlay_files tc cache fs \<lparr>replaced = [], rewrote = 0, declined = 0\<rparr> sys = (Some st, sys1)"
    "set fs \<subseteq> loaded_files tc"
    "store tc cache ''overlay.json'' (overlay_json tc (replaced st))
      (warn (''effectgo: rewrote '' @ digits_of (rewrote st) @ '' Gen bodies, declined '' @ digits_of (declined st)) sys1)
      = (Some path, sys')"
proof -
  obtain pkgs where loaded: "set (concat pkgs) \<subseteq> loaded_files tc"
    and "(case overlay_files tc cache (concat pkgs) \<lparr>replaced = [], rewrote = 0, declined = 0\<rparr> sys of
      (None, sys) \<Rightarrow> (None, sys)
    | (Some st, sys) \<Rightarrow> store tc cache ''overlay.json'' (overlay_json tc (replaced st))
        (warn (''effectgo: rewrote '' @ digits_of (rewrote st) @ '' Gen bodies, declined '' @ digits_of (declined st)) sys))
    = (Some path, sys')"
  proof -
    obtain importers where "(if patterns = [] then Some [] else importers_of_gen tc patterns sys) = Some importers"
      using assms(1) unfolding overlay_def by (auto split: option.splits)
    moreover from this obtain pkgs where "(if importers = [] then Some [] else load_files tc importers) = Some pkgs"
      using assms unfolding overlay_def by (auto split: option.splits)
    ultimately show thesis
      using assms unfolding overlay_def Let_def
      by (intro that [of pkgs]) (auto simp: loaded_files_def split: if_splits)
  qed
  then show thesis
    by (auto intro: that [OF _ loaded] split: prod.splits option.splits)
qed

text \<open>
  C27: The overlay leaves the source tree as it is. When \<^verbatim>\<open>overlay\<close> answers a path, every file that was on
  the disk still holds what it held, the path holds the overlay's description, and every file the overlay
  replaces is a loaded one that imports the runtime, named once, whose replacement is on the disk and is what
  the rewriter makes of the text that file holds; the cache is still addressed by content.
\<close>

theorem overlay_leaves_sources_alone:
  assumes "cache_dir tc = Some cache" "targets_differ tc cache" "content_addressed tc cache sys"
    and "\<forall>f\<in>loaded_files tc. path_name (loaded_name f)"
    and "overlay tc patterns sys = (Some path, sys')"
  shows "only_adds sys sys' \<and> content_addressed tc cache sys'
    \<and> (\<exists>entries. disk sys' path = Some (overlay_json tc entries) \<and> distinct (map fst entries)
        \<and> (\<forall>e\<in>set entries. entry_ok (loaded_files tc) sys' e))"
proof -
  obtain fs st sys1 where loop: "overlay_files tc cache fs \<lparr>replaced = [], rewrote = 0, declined = 0\<rparr> sys = (Some st, sys1)"
    and fs: "set fs \<subseteq> loaded_files tc"
    and stored: "store tc cache ''overlay.json'' (overlay_json tc (replaced st))
      (warn (''effectgo: rewrote '' @ digits_of (rewrote st) @ '' Gen bodies, declined '' @ digits_of (declined st)) sys1)
      = (Some path, sys')"
    by (rule overlay_result [OF assms(5,1)])
  let ?sys2 = "warn (''effectgo: rewrote '' @ digits_of (rewrote st) @ '' Gen bodies, declined '' @ digits_of (declined st)) sys1"
  have kept: "content_addressed tc cache sys1" "\<forall>e\<in>set (replaced st). entry_ok (loaded_files tc) sys1 e"
    "distinct (map fst (replaced st))" "only_adds sys sys1"
    using overlay_files_keeps [OF assms(2,3) fs _ loop] assms(4) fs by auto
  have addressed: "content_addressed tc cache ?sys2" "only_adds sys1 ?sys2"
    using kept(1) content_addressed_disk [of sys1 ?sys2] by (auto intro: only_adds_refl)
  have name: "path_name ''overlay.json''" by (simp add: path_name_def)
  have adds: "only_adds sys1 sys'" using addressed(2) store_only_adds [OF stored] only_adds_trans by blast
  show ?thesis
    using kept entry_ok_kept [OF _ adds] only_adds_trans [OF kept(4) adds]
      store_addressed [OF assms(2) addressed(1) name stored] store_holds [OF addressed(1) name stored] by blast
qed

text \<open>The packages loaded with types are the ones that import the runtime and mention \<open>Gen\<close>, each once.\<close>

lemma importers_among_spec:
  "set (importers_among sys ps found) = set found \<union> package_path ` {p \<in> set ps. effect_path \<in> set (package_imports p)
     \<and> mentions_gen sys (package_files p)}"
  "distinct found \<Longrightarrow> distinct (importers_among sys ps found)"
  by (induction sys ps found rule: importers_among.induct) auto

text \<open>A build against another release series runs as it was asked to, and writes nothing but its notice.\<close>

lemma understood_keeps_disk: "understood tc sys = (ok, sys') \<Longrightarrow> disk sys' = disk sys"
  by (auto simp: understood_def split: option.splits list.splits if_splits)

lemma other_series_runs_unchanged:
  assumes "module_version tc = Some (version)" "fields_of version = [v]" "major_minor tc v \<noteq> series" "verb \<noteq> ''overlay''"
  shows "\<exists>sys'. run_command tc (verb # rest) sys = (Ran (verb # rest), sys') \<and> disk sys' = disk sys"
proof -
  obtain sys' where "understood tc sys = (False, sys')" using assms(1-3) by (simp add: understood_def)
  then show ?thesis using understood_keeps_disk [of tc sys] assms(4) by (auto simp: run_command_def)
qed

text \<open>The overlay flag stands after the verb and before the arguments the command was given.\<close>

lemma overlaid_command:
  assumes "verb \<in> set overlaid" "run_command tc (verb # rest) sys = (Ran args, sys')"
  shows "args = verb # rest \<or> (\<exists>path. args = verb # (''-overlay='' @ path) # rest)"
  using assms by (auto simp: run_command_def overlaid_def split: if_splits option.splits prod.splits)

text \<open>A build of one package, whose file is the sample of the rewriter.\<close>

definition sample_loaded :: loaded_file where
  "sample_loaded = \<lparr>loaded_name = ''m.go'', loaded_imports = [effect_path], loaded_syntax = sample_file,
     loaded_context = sample_context\<rparr>"

definition sample_toolchain :: toolchain where
  "sample_toolchain =
     \<lparr>module_version = None, module_dirs = Some ''.'',
      list_packages = (\<lambda>_. Some [\<lparr>package_path = ''m'', package_imports = [effect_path], package_files = [''m.go'']\<rparr>]),
      load_files = (\<lambda>_. Some [[sample_loaded]]), cache_base = Some ''cache'', can_write = (\<lambda>_. True),
      digest = (\<lambda>s. s), base_name = (\<lambda>_. ''go''), join_path = (\<lambda>a b. a @ ''/'' @ b), major_minor = (\<lambda>v. v),
      overlay_json = (\<lambda>es. concat (map (\<lambda>(a, b). a @ '':'' @ b) es)), explains = False,
      position_text = (\<lambda>_ _. [])\<rparr>"

definition sample_system :: system where
  "sample_system = \<lparr>disk = [''m.go'' \<mapsto> file_text (fc_src sample_context)], stderr = []\<rparr>"

lemma append_at_zero:
  assumes "path_name n" "path_name n'" "n @ CHR 0x00 # c = n' @ CHR 0x00 # c'"
  shows "n = n' \<and> c = c'"
proof -
  have "takeWhile (\<lambda>x. x \<noteq> CHR 0x00) (m @ CHR 0x00 # d) = m" if "path_name m" for m d
    using that by (subst takeWhile_append2) (auto simp: path_name_def)
  then have "n = n'" using assms by metis
  then show ?thesis using assms(3) by simp
qed

lemma sample_addressed:
  "cache_dir sample_toolchain = Some ''cache/effectgo''" "targets_differ sample_toolchain ''cache/effectgo''"
  "content_addressed sample_toolchain ''cache/effectgo'' sample_system"
  "\<forall>f\<in>loaded_files sample_toolchain. path_name (loaded_name f)"
proof -
  show "cache_dir sample_toolchain = Some ''cache/effectgo''" by (simp add: cache_dir_def sample_toolchain_def)
  have target: "target_of sample_toolchain ''cache/effectgo'' n c = ''cache/effectgo/'' @ (n @ CHR 0x00 # c) @ ''-go''" for n c
    by (simp add: target_of_def sample_toolchain_def)
  show "targets_differ sample_toolchain ''cache/effectgo''"
    unfolding targets_differ_def target by (auto dest: append_at_zero)
  show "content_addressed sample_toolchain ''cache/effectgo'' sample_system"
    unfolding content_addressed_def target by (simp add: sample_system_def)
  show "\<forall>f\<in>loaded_files sample_toolchain. path_name (loaded_name f)"
    by (simp add: loaded_files_def sample_toolchain_def sample_loaded_def path_name_def)
qed

lemma sample_runs: "fst (overlay sample_toolchain [''./...''] sample_system) \<noteq> None"
proof -
  have gen: "mentions_gen sample_system [''m.go'']"
    by code_simp
  have same: "rewrite_loaded sample_loaded (file_text (fc_src sample_context)) = rewrite_file sample_context sample_file"
    by (simp add: rewrite_loaded_def sample_loaded_def Let_def)
  show ?thesis
    using gen same sample_rewritten
    by (simp add: overlay_def importers_of_gen_def sample_toolchain_def cache_dir_def Let_def imports_effect_def
        sample_loaded_def store_def explain_def sample_system_def warn_def)
qed

theorem overlay_leaves_sources_alone_witness:
  "\<exists>path sys'. overlay sample_toolchain [''./...''] sample_system = (Some path, sys')
    \<and> only_adds sample_system sys' \<and> content_addressed sample_toolchain ''cache/effectgo'' sys'
    \<and> (\<exists>entries. disk sys' path = Some (overlay_json sample_toolchain entries) \<and> distinct (map fst entries)
        \<and> (\<forall>e\<in>set entries. entry_ok (loaded_files sample_toolchain) sys' e))"
proof -
  obtain path sys' where ran: "overlay sample_toolchain [''./...''] sample_system = (Some path, sys')"
    using sample_runs by (metis eq_fst_iff option.exhaust)
  show ?thesis using ran overlay_leaves_sources_alone [OF sample_addressed ran] by blast
qed

end
