(* ===== verification/Outcome.thy ===== *)
theory Outcome
  imports Prelude
begin

section \<open>How a terminated effect is modelled\<close>

text \<open>
  \<^verbatim>\<open>effect/internal/outcome\<close> and its typed view \<^verbatim>\<open>effect/cause.go\<close>,
  \<^verbatim>\<open>effect/cause_fold.go\<close>, \<^verbatim>\<open>effect/exit.go\<close>: the cause tree, its
  composition, the two iterative traversals (\<open>FoldCause\<close> with its work list and result stack,
  \<open>VisitCause\<close> with its early exit), everything defined through them, and exits. The type
  parameter \<open>'v\<close> is the erased \<open>any\<close> of the representation: failures, success values and
  panic values all have it. A cause built by the package's constructors has both branches, so the
  nil branches that \<open>Child\<close>, \<open>leftOf\<close> and \<open>rightOf\<close> tolerate do not arise.
\<close>

subsection \<open>Causes\<close>

datatype cause_kind = CauseEmpty | CauseFailure | CauseDefect | CauseInterrupt | CauseThen | CauseBoth

fun kind_string :: "cause_kind \<Rightarrow> string" where
  "kind_string CauseEmpty = ''Empty''"
| "kind_string CauseFailure = ''Fail''"
| "kind_string CauseDefect = ''Die''"
| "kind_string CauseInterrupt = ''Interrupt''"
| "kind_string CauseThen = ''Then''"
| "kind_string CauseBoth = ''Both''"

record 'v defect =
  defect_value :: 'v
  defect_stack :: string

record origin =
  source :: string
  operation :: string

definition no_origin :: origin where
  "no_origin = \<lparr>source = [], operation = []\<rparr>"

definition origin_is_known :: "origin \<Rightarrow> bool" where
  "origin_is_known o' \<longleftrightarrow> source o' \<noteq> [] \<or> operation o' \<noteq> []"

definition origin_string :: "origin \<Rightarrow> string" where
  "origin_string o' =
     (if source o' \<noteq> [] \<and> operation o' \<noteq> [] then source o' @ '' in '' @ operation o'
      else if source o' \<noteq> [] then source o'
      else operation o')"

definition fill_from :: "origin \<Rightarrow> origin \<Rightarrow> origin" where
  "fill_from o' other =
     \<lparr>source = (if source o' = [] then source other else source o'),
      operation = (if operation o' = [] then operation other else operation o')\<rparr>"

datatype 'v cause =
    Empty
  | Fail 'v origin
  | Die "'v defect" origin
  | Interrupt nilable_err origin
  | Then "'v cause" "'v cause"
  | Both "'v cause" "'v cause"

fun kind :: "'v cause \<Rightarrow> cause_kind" where
  "kind Empty = CauseEmpty"
| "kind (Fail _ _) = CauseFailure"
| "kind (Die _ _) = CauseDefect"
| "kind (Interrupt _ _) = CauseInterrupt"
| "kind (Then _ _) = CauseThen"
| "kind (Both _ _) = CauseBoth"

fun cause_origin :: "'v cause \<Rightarrow> origin" where
  "cause_origin (Fail _ o') = o'"
| "cause_origin (Die _ o') = o'"
| "cause_origin (Interrupt _ o') = o'"
| "cause_origin _ = no_origin"

fun with_origin :: "'v cause \<Rightarrow> origin \<Rightarrow> 'v cause" where
  "with_origin c origin =
     (if \<not> origin_is_known origin then c
      else case c of
        Empty \<Rightarrow> c
      | Then l r \<Rightarrow> Then (with_origin l origin) (with_origin r origin)
      | Both l r \<Rightarrow> Both (with_origin l origin) (with_origin r origin)
      | Fail v o' \<Rightarrow> Fail v (fill_from o' origin)
      | Die d o' \<Rightarrow> Die d (fill_from o' origin)
      | Interrupt e o' \<Rightarrow> Interrupt e (fill_from o' origin))"

declare with_origin.simps [simp del]

definition fail_cause :: "'v \<Rightarrow> 'v cause" where
  "fail_cause v = Fail v no_origin"

definition die_cause :: "'v defect \<Rightarrow> 'v cause" where
  "die_cause d = Die d no_origin"

definition interrupt_cause :: "nilable_err \<Rightarrow> 'v cause" where
  "interrupt_cause reason = Interrupt reason no_origin"

definition is_empty :: "'v cause \<Rightarrow> bool" where
  "is_empty c \<longleftrightarrow> kind c = CauseEmpty"

text \<open>\<open>compose\<close> is the code's one function behind \<open>Then\<close> and \<open>Both\<close>; \<open>node\<close> is the node of its kind.\<close>

definition compose :: "('v cause \<Rightarrow> 'v cause \<Rightarrow> 'v cause) \<Rightarrow> 'v cause \<Rightarrow> 'v cause \<Rightarrow> 'v cause" where
  "compose node c that =
     (if is_empty c then that else if is_empty that then c else node c that)"

definition then_cause :: "'v cause \<Rightarrow> 'v cause \<Rightarrow> 'v cause" where
  "then_cause c that = compose Then c that"

definition both_cause :: "'v cause \<Rightarrow> 'v cause \<Rightarrow> 'v cause" where
  "both_cause c that = compose Both c that"

definition capture_defect :: "'v \<Rightarrow> string \<Rightarrow> 'v defect" where
  "capture_defect v stack = \<lparr>defect_value = v, defect_stack = stack\<rparr>"

declare fail_cause_def [outcome_defs] die_cause_def [outcome_defs] interrupt_cause_def [outcome_defs]
declare compose_def [outcome_defs] then_cause_def [outcome_defs] both_cause_def [outcome_defs]

subsection \<open>Leaf accessors\<close>

fun failure_of :: "'v cause \<Rightarrow> 'v option" where
  "failure_of (Fail v _) = Some v"
| "failure_of _ = None"

fun defect_of :: "'v cause \<Rightarrow> 'v defect option" where
  "defect_of (Die d _) = Some d"
| "defect_of _ = None"

fun interruption_of :: "'v cause \<Rightarrow> nilable_err option" where
  "interruption_of (Interrupt e _) = Some e"
| "interruption_of _ = None"

fun is_composite_kind :: "cause_kind \<Rightarrow> bool" where
  "is_composite_kind k \<longleftrightarrow> k = CauseThen \<or> k = CauseBoth"

text \<open>The leaves of a cause from left to right, and all its nodes in the order a visit meets them.\<close>

fun leaves :: "'v cause \<Rightarrow> 'v cause list" where
  "leaves Empty = []"
| "leaves (Then l r) = leaves l @ leaves r"
| "leaves (Both l r) = leaves l @ leaves r"
| "leaves c = [c]"

fun nodes :: "'v cause \<Rightarrow> 'v cause list" where
  "nodes (Then l r) = Then l r # nodes l @ nodes r"
| "nodes (Both l r) = Both l r # nodes l @ nodes r"
| "nodes c = [c]"

text \<open>
  A cause is \<^emph>\<open>proper\<close> when no composite has an empty branch: what composition maintains,
  because an empty operand collapses.
\<close>

fun proper :: "'v cause \<Rightarrow> bool" where
  "proper (Then l r) \<longleftrightarrow> l \<noteq> Empty \<and> r \<noteq> Empty \<and> proper l \<and> proper r"
| "proper (Both l r) \<longleftrightarrow> l \<noteq> Empty \<and> r \<noteq> Empty \<and> proper l \<and> proper r"
| "proper _ \<longleftrightarrow> True"

lemma is_empty_iff [simp]: "is_empty c \<longleftrightarrow> c = Empty"
  by (cases c) (simp_all add: is_empty_def)

lemma then_empty [simp]: "then_cause Empty c = c" "then_cause c Empty = c"
  by (simp_all add: outcome_defs)

lemma both_empty [simp]: "both_cause Empty c = c" "both_cause c Empty = c"
  by (simp_all add: outcome_defs)

lemma then_eq_Empty_iff [simp]: "then_cause c d = Empty \<longleftrightarrow> c = Empty \<and> d = Empty"
  by (simp add: outcome_defs)

lemma both_eq_Empty_iff [simp]: "both_cause c d = Empty \<longleftrightarrow> c = Empty \<and> d = Empty"
  by (simp add: outcome_defs)

lemma leaves_then [simp]: "leaves (then_cause c d) = leaves c @ leaves d"
  by (simp add: outcome_defs)

lemma leaves_both [simp]: "leaves (both_cause c d) = leaves c @ leaves d"
  by (simp add: outcome_defs)

lemma proper_then [simp]: "proper c \<Longrightarrow> proper d \<Longrightarrow> proper (then_cause c d)"
  by (simp add: outcome_defs)

lemma proper_both [simp]: "proper c \<Longrightarrow> proper d \<Longrightarrow> proper (both_cause c d)"
  by (simp add: outcome_defs)

lemma proper_leaves_Nil: "proper c \<Longrightarrow> leaves c = [] \<longleftrightarrow> c = Empty"
  by (induction c rule: leaves.induct) auto

lemma leaves_in_nodes: "set (leaves c) \<subseteq> set (nodes c)"
  by (induction c rule: leaves.induct) auto

lemma set_nodes_leaf:
  "n \<in> set (nodes c) \<Longrightarrow> \<not> is_composite_kind (kind n) \<Longrightarrow> n \<noteq> Empty \<Longrightarrow> n \<in> set (leaves c)"
  by (induction c rule: nodes.induct) auto

text \<open>Sequential and parallel composition both meet the contract of a failure algebra.\<close>

interpretation then_alg: failure_algebra Empty then_cause leaves proper
  by unfold_locales (simp_all add: proper_leaves_Nil)

interpretation both_alg: failure_algebra Empty both_cause leaves proper
  by unfold_locales (simp_all add: proper_leaves_Nil)

subsection \<open>Folding a cause with a work list\<close>

text \<open>
  \<open>FoldCause\<close> keeps its pending frames and its results on two slices it uses as stacks. The
  head of each list here is the end of the slice. \<open>None\<close> is the index panic that reading
  \<open>results[len(results)-2]\<close> of too short a slice would be.
\<close>

record ('v, 'a) cause_folder =
  on_empty :: 'a
  on_failure :: "'v \<Rightarrow> 'a"
  on_defect :: "'v defect \<Rightarrow> 'a"
  on_interruption :: "nilable_err \<Rightarrow> 'a"
  on_then :: "'a \<Rightarrow> 'a \<Rightarrow> 'a"
  on_both :: "'a \<Rightarrow> 'a \<Rightarrow> 'a"

datatype fold_stage = EvaluateNode | CombineResults

fun fold_leaf :: "('v, 'a) cause_folder \<Rightarrow> 'v cause \<Rightarrow> 'a" where
  "fold_leaf folder (Fail v _) = on_failure folder v"
| "fold_leaf folder (Die d _) = on_defect folder d"
| "fold_leaf folder (Interrupt e _) = on_interruption folder e"
| "fold_leaf folder _ = on_empty folder"

definition combine_folds :: "('v, 'a) cause_folder \<Rightarrow> cause_kind \<Rightarrow> 'a \<Rightarrow> 'a \<Rightarrow> 'a" where
  "combine_folds folder k l r =
     (if k = CauseThen then on_then folder l r else on_both folder l r)"

fun frame_weight :: "'v cause \<times> fold_stage \<Rightarrow> nat" where
  "frame_weight (c, EvaluateNode) = 4 * size c + 2"
| "frame_weight (c, CombineResults) = 1"

function fold_loop ::
  "('v, 'a) cause_folder \<Rightarrow> ('v cause \<times> fold_stage) list \<Rightarrow> 'a list \<Rightarrow> 'a list option" where
  "fold_loop folder [] results = Some results"
| "fold_loop folder ((c, CombineResults) # frames) results =
     (case results of
        r # l # rest \<Rightarrow> fold_loop folder frames (combine_folds folder (kind c) l r # rest)
      | _ \<Rightarrow> None)"
| "fold_loop folder ((c, EvaluateNode) # frames) results =
     (case c of
        Then l r \<Rightarrow> fold_loop folder
          ((l, EvaluateNode) # (r, EvaluateNode) # (c, CombineResults) # frames) results
      | Both l r \<Rightarrow> fold_loop folder
          ((l, EvaluateNode) # (r, EvaluateNode) # (c, CombineResults) # frames) results
      | _ \<Rightarrow> fold_loop folder frames (fold_leaf folder c # results))"
  by pat_completeness auto
termination
  by (relation "measure (\<lambda>(_, frames, _). sum_list (map frame_weight frames))") auto

definition fold_cause :: "'v cause \<Rightarrow> ('v, 'a) cause_folder \<Rightarrow> 'a option" where
  "fold_cause root folder =
     (case fold_loop folder [(root, EvaluateNode)] [] of
        None \<Rightarrow> None
      | Some results \<Rightarrow> if results = [] then None else Some (last results))"

text \<open>The elimination the work list computes, by structural recursion.\<close>

fun eliminate :: "('v, 'a) cause_folder \<Rightarrow> 'v cause \<Rightarrow> 'a" where
  "eliminate folder (Then l r) = on_then folder (eliminate folder l) (eliminate folder r)"
| "eliminate folder (Both l r) = on_both folder (eliminate folder l) (eliminate folder r)"
| "eliminate folder c = fold_leaf folder c"

lemma fold_loop_evaluate:
  "fold_loop folder ((c, EvaluateNode) # frames) results =
   fold_loop folder frames (eliminate folder c # results)"
  by (induction c arbitrary: frames results) (simp_all add: combine_folds_def)

lemma fold_cause_eliminate [simp]: "fold_cause c folder = Some (eliminate folder c)"
  by (simp add: fold_cause_def fold_loop_evaluate del: fold_loop.simps(3))

text \<open>
  C21: the iterative elimination of a cause never runs its result stack dry, and answers what
  structural elimination of the tree answers, for every cause and every folder.
\<close>

theorem fold_cause_is_elimination:
  "fold_cause c folder \<noteq> None \<and> fold_cause c folder = Some (eliminate folder c)"
  by simp

subsection \<open>Visiting nodes with early exit\<close>

text \<open>
  \<open>VisitCause\<close> is a loop over a stack; the visitor's captured variables are the state
  \<open>'s\<close>, and its bool says whether to go on.
\<close>

fun children :: "'v cause \<Rightarrow> 'v cause list" where
  "children (Then l r) = [l, r]"
| "children (Both l r) = [l, r]"
| "children _ = []"

lemma children_size: "d \<in> set (children c) \<Longrightarrow> size d < size c"
  by (cases c) auto

function visit_loop :: "('v cause \<Rightarrow> 's \<Rightarrow> bool \<times> 's) \<Rightarrow> 'v cause list \<Rightarrow> 's \<Rightarrow> 's" where
  "visit_loop visit [] s = s"
| "visit_loop visit (n # stack) s =
     (case visit n s of
        (False, s') \<Rightarrow> s'
      | (True, s') \<Rightarrow> visit_loop visit (children n @ stack) s')"
  by pat_completeness auto
termination
proof (relation "measure (\<lambda>(_, stack, _). sum_list (map (\<lambda>c. 2 * size c + 1) stack))")
  fix visit :: "'v cause \<Rightarrow> 's \<Rightarrow> bool \<times> 's" and n stack s x s' and b :: bool
  show "((visit, children n @ stack, s'), visit, n # stack, s)
        \<in> measure (\<lambda>(_, stack, _). sum_list (map (\<lambda>c. 2 * size c + 1) stack))"
    by (cases n) auto
qed simp

definition visit_cause :: "('v cause \<Rightarrow> 's \<Rightarrow> bool \<times> 's) \<Rightarrow> 'v cause \<Rightarrow> 's \<Rightarrow> 's" where
  "visit_cause visit root s = visit_loop visit [root] s"

fun visit_list :: "('v cause \<Rightarrow> 's \<Rightarrow> bool \<times> 's) \<Rightarrow> 'v cause list \<Rightarrow> 's \<Rightarrow> 's" where
  "visit_list visit [] s = s"
| "visit_list visit (n # ns) s =
     (case visit n s of (False, s') \<Rightarrow> s' | (True, s') \<Rightarrow> visit_list visit ns s')"

lemma nodes_children: "nodes c = c # concat (map nodes (children c))"
  by (cases c) simp_all

lemma visit_loop_list: "visit_loop visit stack s = visit_list visit (concat (map nodes stack)) s"
proof (induction visit stack s rule: visit_loop.induct)
  case (1 visit s)
  then show ?case by simp
next
  case (2 visit n stack s)
  have "concat (map nodes (n # stack)) = n # concat (map nodes (children n @ stack))"
    by (simp add: nodes_children [of n])
  with 2 show ?case by (auto split: prod.splits bool.splits simp del: concat.simps list.map)
qed

lemma visit_cause_list: "visit_cause visit c s = visit_list visit (nodes c) s"
  by (simp add: visit_cause_def visit_loop_list)


subsection \<open>What is defined through a visit\<close>

definition collect_from_cause :: "('v cause \<Rightarrow> 'a option) \<Rightarrow> 'v cause \<Rightarrow> 'a list" where
  "collect_from_cause select root =
     visit_cause (\<lambda>n values. (True, case select n of Some v \<Rightarrow> values @ [v] | None \<Rightarrow> values)) root []"

definition failures :: "'v cause \<Rightarrow> 'v list" where
  "failures c = collect_from_cause failure_of c"

definition defects :: "'v cause \<Rightarrow> 'v defect list" where
  "defects c = collect_from_cause defect_of c"

definition interruptions :: "'v cause \<Rightarrow> nilable_err list" where
  "interruptions c = collect_from_cause interruption_of c"

definition has_only_leaves :: "'v cause \<Rightarrow> cause_kind \<Rightarrow> bool" where
  "has_only_leaves c k =
     (if is_empty c then False
      else visit_cause
        (\<lambda>n matching.
           let matching' = (if \<not> is_composite_kind (kind n) then matching \<and> kind n = k else matching)
           in (matching', matching'))
        c True)"

definition has_interrupts_only :: "'v cause \<Rightarrow> bool" where
  "has_interrupts_only c = has_only_leaves c CauseInterrupt"

definition is_failure_only :: "'v cause \<Rightarrow> bool" where
  "is_failure_only c = has_only_leaves c CauseFailure"

definition contains_kind :: "'v cause \<Rightarrow> cause_kind \<Rightarrow> bool" where
  "contains_kind c k = visit_cause (\<lambda>n found. let found' = (kind n = k) in (\<not> found', found')) c False"

definition contains_defect :: "'v cause \<Rightarrow> bool" where
  "contains_defect c = contains_kind c CauseDefect"

datatype event_status = StatusNone | StatusSuccess | StatusFailure | StatusDefect | StatusInterrupted

definition cause_status :: "'v cause \<Rightarrow> event_status" where
  "cause_status c =
     visit_cause
       (\<lambda>n status. case kind n of
            CauseDefect \<Rightarrow> (False, StatusDefect)
          | CauseInterrupt \<Rightarrow> (True, StatusInterrupted)
          | _ \<Rightarrow> (True, status))
       c StatusFailure"

definition is_induced :: "'v cause \<Rightarrow> nilable_err \<Rightarrow> bool" where
  "is_induced c reason =
     (case reason of
        None \<Rightarrow> False
      | Some r \<Rightarrow>
          if is_empty c then False
          else visit_cause
            (\<lambda>n induced.
               let induced' =
                 (case n of
                    Then _ _ \<Rightarrow> induced
                  | Both _ _ \<Rightarrow> induced
                  | Interrupt e _ \<Rightarrow> induced \<and> (case e of None \<Rightarrow> False | Some e' \<Rightarrow> errors_is e' r)
                  | _ \<Rightarrow> False)
               in (induced', induced'))
            c True)"

text \<open>A visitor that only continues while its bool state holds computes a conjunction.\<close>

lemma visit_list_all:
  assumes "\<And>n b. visit n b = (b \<and> P n, b \<and> P n)"
  shows "visit_list visit ns b = (b \<and> list_all P ns)"
  using assms by (induction ns arbitrary: b) (auto split: prod.splits bool.splits)

lemma visit_list_accumulate:
  assumes "\<And>n s. visit n s = (True, g s n)"
  shows "visit_list visit ns s = foldl g s ns"
  using assms by (induction ns arbitrary: s) simp_all

lemma visit_list_ex:
  "visit_list (\<lambda>n found. let found' = P n in (\<not> found', found')) ns b =
     (list_ex P ns \<or> (ns = [] \<and> b))"
  by (induction ns arbitrary: b) (auto simp: Let_def split: bool.splits)

lemma foldl_collect:
  "foldl (\<lambda>values n. case select n of Some v \<Rightarrow> values @ [v] | None \<Rightarrow> values) acc ns =
     acc @ List.map_filter select ns"
  by (induction ns arbitrary: acc) (auto simp: List.map_filter_simps split: option.splits)

lemma map_filter_nodes_leaves:
  assumes "select Empty = None" "\<And>l r. select (Then l r) = None" "\<And>l r. select (Both l r) = None"
  shows "List.map_filter select (nodes c) = List.map_filter select (leaves c)"
proof (induction c)
  case (Then l r)
  then show ?case by (simp add: assms List.map_filter_def)
next
  case (Both l r)
  then show ?case by (simp add: assms List.map_filter_def)
qed (simp_all add: assms List.map_filter_def)

lemma collect_from_cause_leaves:
  assumes "select Empty = None" "\<And>l r. select (Then l r) = None" "\<And>l r. select (Both l r) = None"
  shows "collect_from_cause select c = List.map_filter select (leaves c)"
  unfolding collect_from_cause_def visit_cause_list
  by (subst visit_list_accumulate
        [where g = "\<lambda>values n. case select n of Some v \<Rightarrow> values @ [v] | None \<Rightarrow> values"])
     (simp_all add: foldl_collect map_filter_nodes_leaves [OF assms])

lemma collectors [simp]:
  "failures c = List.map_filter failure_of (leaves c)"
  "defects c = List.map_filter defect_of (leaves c)"
  "interruptions c = List.map_filter interruption_of (leaves c)"
  by (simp_all add: failures_def defects_def interruptions_def collect_from_cause_leaves)

lemma leaves_not_composite: "l \<in> set (leaves c) \<Longrightarrow> \<not> is_composite_kind (kind l)"
  by (induction c rule: leaves.induct) auto

lemma collectors_fun:
  "failures = (\<lambda>c. List.map_filter failure_of (leaves c))"
  "defects = (\<lambda>c. List.map_filter defect_of (leaves c))"
  by (rule ext, simp)+

lemma list_all_nodes_leaves:
  assumes "proper c" "c \<noteq> Empty" "\<And>l r. P (Then l r)" "\<And>l r. P (Both l r)"
  shows "list_all P (nodes c) = list_all P (leaves c)"
  using assms by (induction c) auto

lemma has_only_leaves_iff:
  assumes "proper c" "\<not> is_composite_kind k"
  shows "has_only_leaves c k \<longleftrightarrow> c \<noteq> Empty \<and> (\<forall>l\<in>set (leaves c). kind l = k)"
proof (cases "c = Empty")
  case True
  then show ?thesis by (simp add: has_only_leaves_def)
next
  case False
  let ?P = "\<lambda>n. is_composite_kind (kind n) \<or> kind n = k"
  have "has_only_leaves c k = list_all ?P (nodes c)"
    using False unfolding has_only_leaves_def visit_cause_list
    by (subst visit_list_all [where P = ?P]) (auto simp: Let_def)
  also have "\<dots> = list_all ?P (leaves c)"
    using assms False by (intro list_all_nodes_leaves) auto
  also have "\<dots> \<longleftrightarrow> (\<forall>l\<in>set (leaves c). kind l = k)"
    using leaves_not_composite by (auto simp: list_all_iff)
  finally show ?thesis using False by simp
qed

lemma contains_kind_iff: "contains_kind c k \<longleftrightarrow> (\<exists>n\<in>set (nodes c). kind n = k)"
proof -
  have "nodes c \<noteq> []" by (cases c) simp_all
  then show ?thesis
    unfolding contains_kind_def visit_cause_list
    by (simp add: visit_list_ex list_ex_iff)
qed

lemma kind_eq_iffs:
  "kind n = CauseDefect \<longleftrightarrow> (\<exists>d o'. n = Die d o')"
  "kind n = CauseInterrupt \<longleftrightarrow> (\<exists>e o'. n = Interrupt e o')"
  "kind n = CauseFailure \<longleftrightarrow> (\<exists>v o'. n = Fail v o')"
  by (cases n; simp)+

lemma nodes_kind_leaves:
  "k \<noteq> CauseEmpty \<Longrightarrow> \<not> is_composite_kind k \<Longrightarrow>
   (\<exists>n\<in>set (nodes c). kind n = k) \<longleftrightarrow> (\<exists>n\<in>set (leaves c). kind n = k)"
  by (induction c) auto

lemma visit_status:
  "visit_list
     (\<lambda>n status. case kind n of
          CauseDefect \<Rightarrow> (False, StatusDefect)
        | CauseInterrupt \<Rightarrow> (True, StatusInterrupted)
        | _ \<Rightarrow> (True, status)) ns s =
   (if \<exists>n\<in>set ns. kind n = CauseDefect then StatusDefect
    else if \<exists>n\<in>set ns. kind n = CauseInterrupt then StatusInterrupted
    else s)"
  by (induction ns arbitrary: s) (auto split: cause_kind.splits)

text \<open>
  The status a cause is reported with is the most severe kind among its leaves, whatever their
  order or nesting: a defect outranks an interruption, which outranks a typed failure.
\<close>

theorem cause_status_most_severe:
  "cause_status c =
     (if defects c \<noteq> [] then StatusDefect
      else if interruptions c \<noteq> [] then StatusInterrupted
      else StatusFailure)"
proof -
  have some: "List.map_filter f xs \<noteq> [] \<longleftrightarrow> (\<exists>x\<in>set xs. f x \<noteq> None)"
    for f :: "'v cause \<Rightarrow> 'b option" and xs
    by (auto simp: List.map_filter_def filter_empty_conv)
  have "(\<exists>n\<in>set (leaves c). kind n = CauseDefect) \<longleftrightarrow> defects c \<noteq> []"
    unfolding collectors some by (rule bex_cong) (auto simp: kind_eq_iffs elim: defect_of.elims)
  moreover have "(\<exists>n\<in>set (leaves c). kind n = CauseInterrupt) \<longleftrightarrow> interruptions c \<noteq> []"
    unfolding collectors some by (rule bex_cong) (auto simp: kind_eq_iffs elim: interruption_of.elims)
  ultimately show ?thesis
    unfolding cause_status_def visit_cause_list visit_status
    by (simp only: nodes_kind_leaves cause_kind.distinct is_composite_kind.simps simp_thms)
qed


subsection \<open>Rewriting failures\<close>

definition compose_like :: "'v cause \<Rightarrow> 'v cause \<Rightarrow> 'v cause \<Rightarrow> 'v cause" where
  "compose_like root l r = (if kind root = CauseBoth then both_cause l r else then_cause l r)"

fun map_cause_failure :: "('v \<Rightarrow> 'v) \<Rightarrow> 'v cause \<Rightarrow> 'v cause" where
  "map_cause_failure transform Empty = Empty"
| "map_cause_failure transform (Fail v o') = Fail (transform v) o'"
| "map_cause_failure transform (Die d o') = die_cause d"
| "map_cause_failure transform (Interrupt e o') = Interrupt e o'"
| "map_cause_failure transform (Then l r) =
     compose_like (Then l r) (map_cause_failure transform l) (map_cause_failure transform r)"
| "map_cause_failure transform (Both l r) =
     compose_like (Both l r) (map_cause_failure transform l) (map_cause_failure transform r)"

definition as_defects_folder :: "('v, 'v cause) cause_folder" where
  "as_defects_folder =
     \<lparr>on_empty = Empty,
      on_failure = (\<lambda>failure. die_cause \<lparr>defect_value = failure, defect_stack = []\<rparr>),
      on_defect = die_cause,
      on_interruption = interrupt_cause,
      on_then = then_cause,
      on_both = both_cause\<rparr>"

definition failures_as_defects :: "'v cause \<Rightarrow> 'v cause" where
  "failures_as_defects root = the (fold_cause root as_defects_folder)"

lemma compose_like_simps [simp]:
  "compose_like (Then l r) = then_cause"
  "compose_like (Both l r) = both_cause"
  by (rule ext, rule ext, simp add: compose_like_def)+

text \<open>What a rewrite does to one leaf.\<close>

fun map_leaf :: "('v \<Rightarrow> 'v) \<Rightarrow> 'v cause \<Rightarrow> 'v cause" where
  "map_leaf f (Fail v o') = Fail (f v) o'"
| "map_leaf f (Die d o') = Die d no_origin"
| "map_leaf f c = c"

lemma leaves_map_cause_failure:
  "leaves (map_cause_failure f c) = map (map_leaf f) (leaves c)"
  by (induction c) (simp_all add: die_cause_def)

lemma proper_map_cause_failure: "proper (map_cause_failure f c)"
  by (induction c) (simp_all add: die_cause_def)

lemma map_cause_failure_Empty_iff:
  "proper c \<Longrightarrow> map_cause_failure f c = Empty \<longleftrightarrow> c = Empty"
  by (induction c) (simp_all add: die_cause_def)

lemma failures_map: "failures (map_cause_failure f c) = map f (failures c)"
proof -
  have "List.map_filter failure_of (map (map_leaf f) ls) = map f (List.map_filter failure_of ls)"
    if "ls = leaves c" for ls
    by (induction ls) (auto simp: List.map_filter_simps split: option.splits elim: failure_of.elims)
  then show ?thesis by (simp add: leaves_map_cause_failure)
qed

text \<open>
  Translating a cause's typed failures keeps its structure and says the same of everything
  that is not a typed failure: the leaves are the same leaves in the same order, every failure is
  the translated one at the origin it was raised at, every interruption is itself, every defect
  keeps its value and stack.
\<close>

theorem map_cause_failure_keeps_leaves:
  assumes "proper c"
  shows "leaves (map_cause_failure f c) = map (map_leaf f) (leaves c)
    \<and> failures (map_cause_failure f c) = map f (failures c)
    \<and> interruptions (map_cause_failure f c) = interruptions c
    \<and> defects (map_cause_failure f c) = defects c
    \<and> map kind (nodes (map_cause_failure f c)) = map kind (nodes c)"
proof -
  have "List.map_filter interruption_of (map (map_leaf f) ls) = List.map_filter interruption_of ls"
    and "List.map_filter defect_of (map (map_leaf f) ls) = List.map_filter defect_of ls" for ls
    by (induction ls) (auto simp: List.map_filter_simps split: option.splits
          elim: defect_of.elims interruption_of.elims elim!: map_leaf.elims)
  moreover have "map kind (nodes (map_cause_failure f c)) = map kind (nodes c)"
    using assms
    by (induction c) (simp_all add: outcome_defs map_cause_failure_Empty_iff)
  ultimately show ?thesis
    using failures_map by (auto simp: leaves_map_cause_failure)
qed

theorem map_cause_failure_keeps_leaves_witness:
  "leaves (map_cause_failure (\<lambda>v. v + 1) (Then (Fail (1 :: int) no_origin) (Interrupt None no_origin)))
   = [Fail 2 no_origin, Interrupt None no_origin]"
  using map_cause_failure_keeps_leaves
    [of "Then (Fail (1 :: int) no_origin) (Interrupt None no_origin)" "\<lambda>v. v + 1"]
  by simp

lemma failures_as_defects_eliminate: "failures_as_defects c = eliminate as_defects_folder c"
  by (simp add: failures_as_defects_def)

text \<open>
  Turning failures into defects leaves no typed failure behind, keeps every interruption, and
  adds one defect per failure in its place: an infallible workflow still reports a real failure.
\<close>

theorem failures_as_defects_no_failures:
  "failures (failures_as_defects c) = []
   \<and> interruptions (failures_as_defects c) = interruptions c
   \<and> map defect_value (defects (failures_as_defects c)) =
       List.map_filter (\<lambda>l. case l of Fail v _ \<Rightarrow> Some v | Die d _ \<Rightarrow> Some (defect_value d) | _ \<Rightarrow> None)
         (leaves c)"
  unfolding failures_as_defects_eliminate
  by (induction c)
     (simp_all add: as_defects_folder_def die_cause_def interrupt_cause_def List.map_filter_def)

subsection \<open>Origins\<close>

lemma with_origin_simps [simp]:
  "with_origin Empty o' = Empty"
  "with_origin (Then l r) o' = Then (with_origin l o') (with_origin r o')"
  "with_origin (Both l r) o' = Both (with_origin l o') (with_origin r o')"
  by (simp_all add: with_origin.simps)

lemma with_origin_unknown: "\<not> origin_is_known o' \<Longrightarrow> with_origin c o' = c"
  by (simp add: with_origin.simps)

lemma fill_from_unknown: "\<not> origin_is_known o' \<Longrightarrow> fill_from a o' = a"
  by (cases a) (simp add: origin_is_known_def fill_from_def)

lemma with_origin_leaf [simp]:
  "with_origin (Fail v a) o' = Fail v (fill_from a o')"
  "with_origin (Die d a) o' = Die d (fill_from a o')"
  "with_origin (Interrupt e a) o' = Interrupt e (fill_from a o')"
  by (cases "origin_is_known o'"; simp add: with_origin.simps fill_from_unknown)+

declare with_origin.simps [simp del]

lemma fill_from_fill_from: "fill_from (fill_from a b) c = fill_from a (fill_from b c)"
  by (simp add: fill_from_def)

lemma kind_with_origin [simp]: "kind (with_origin c o') = kind c"
  by (cases c) simp_all

lemma with_origin_eq_Empty [simp]: "with_origin c o' = Empty \<longleftrightarrow> c = Empty"
  by (cases c) simp_all

lemma proper_with_origin [simp]: "proper (with_origin c o') = proper c"
  by (induction c) simp_all

lemma leaves_with_origin: "leaves (with_origin c o') = map (\<lambda>l. with_origin l o') (leaves c)"
  by (induction c) simp_all

text \<open>
  An origin is recorded where it is missing and never overwritten, field by field: recording
  one and then another is recording the first completed by the second, so a later boundary can
  add the span but cannot move the line; nothing but origins changes.
\<close>

theorem with_origin_first_wins:
  "with_origin (with_origin c first) second = with_origin c (fill_from first second)
   \<and> (source first \<noteq> [] \<and> operation first \<noteq> [] \<longrightarrow>
        with_origin (with_origin c first) second = with_origin c first)
   \<and> failures (with_origin c first) = failures c
   \<and> defects (with_origin c first) = defects c
   \<and> interruptions (with_origin c first) = interruptions c"
proof -
  have merge: "with_origin (with_origin c first) second = with_origin c (fill_from first second)"
    by (induction c) (simp_all add: fill_from_fill_from)
  have "fill_from first second = first" if "source first \<noteq> []" "operation first \<noteq> []"
    using that by (cases first) (simp add: fill_from_def)
  moreover have "failures (with_origin c first) = failures c"
    and "defects (with_origin c first) = defects c"
    and "interruptions (with_origin c first) = interruptions c"
    by (induction c) (simp_all add: List.map_filter_def)
  ultimately show ?thesis using merge by simp
qed

theorem with_origin_first_wins_witness:
  "with_origin (with_origin (Fail (1 :: int) no_origin) \<lparr>source = ''a.go:3'', operation = ''read''\<rparr>)
     \<lparr>source = ''b.go:9'', operation = ''write''\<rparr>
   = Fail 1 \<lparr>source = ''a.go:3'', operation = ''read''\<rparr>"
  using with_origin_first_wins [of "Fail (1 :: int) no_origin"
      "\<lparr>source = ''a.go:3'', operation = ''read''\<rparr>" "\<lparr>source = ''b.go:9'', operation = ''write''\<rparr>"]
  by (simp add: fill_from_def no_origin_def)

text \<open>
  A defect is a leaf like any other to \<open>WithOrigin\<close>, so a defect that passes through a failing
  instruction ends up with an origin although the documentation of \<open>Cause.Origin\<close> says it has
  none; translating failures then drops it again.
\<close>

lemma defect_origin_recorded_then_dropped:
  assumes "origin_is_known o'"
  shows "cause_origin (with_origin (die_cause d) o') = o'
    \<and> cause_origin (map_cause_failure f (with_origin (die_cause d) o')) = no_origin"
  using assms by (cases o') (simp add: die_cause_def fill_from_def no_origin_def)

subsection \<open>Exits\<close>

text \<open>
  An exit is a success with its value or a failure with its cause. The zero value is
  \<open>Failed Empty\<close>; \<open>Exit.Cause\<close> of a success is the zero cause.
\<close>

datatype 'v exit = Failed "'v cause" | Succeeded 'v

fun is_success :: "'v exit \<Rightarrow> bool" where
  "is_success (Succeeded _) = True"
| "is_success (Failed _) = False"

fun exit_value :: "'v exit \<Rightarrow> 'v option" where
  "exit_value (Succeeded v) = Some v"
| "exit_value (Failed _) = None"

fun exit_cause :: "'v exit \<Rightarrow> 'v cause" where
  "exit_cause (Failed c) = c"
| "exit_cause (Succeeded _) = Empty"

definition exit_fold :: "'v exit \<Rightarrow> ('v cause \<Rightarrow> 't) \<Rightarrow> ('v \<Rightarrow> 't) \<Rightarrow> 't" where
  "exit_fold x failure success =
     (case exit_value x of Some v \<Rightarrow> success v | None \<Rightarrow> failure (exit_cause x))"

definition exit_map :: "'v exit \<Rightarrow> ('v \<Rightarrow> 'v) \<Rightarrow> 'v exit" where
  "exit_map x f = (case exit_value x of Some v \<Rightarrow> Succeeded (f v) | None \<Rightarrow> Failed (exit_cause x))"

definition exit_map_error :: "'v exit \<Rightarrow> ('v \<Rightarrow> 'v) \<Rightarrow> 'v exit" where
  "exit_map_error x f =
     (case exit_value x of
        Some v \<Rightarrow> Succeeded v
      | None \<Rightarrow> Failed (map_cause_failure f (exit_cause x)))"

definition exit_status :: "'v exit \<Rightarrow> event_status" where
  "exit_status x = (if is_success x then StatusSuccess else cause_status (exit_cause x))"

definition cleanup_status :: "'v cause \<Rightarrow> event_status" where
  "cleanup_status cleanup = (if is_empty cleanup then StatusSuccess else cause_status cleanup)"

lemma exit_simps [simp]:
  "exit_fold (Succeeded v) f g = g v" "exit_fold (Failed c) f g = f c"
  "exit_map (Succeeded v) h = Succeeded (h v)" "exit_map (Failed c) h = Failed c"
  "exit_map_error (Succeeded v) h = Succeeded v"
  "exit_map_error (Failed c) h = Failed (map_cause_failure h c)"
  "exit_status (Succeeded v) = StatusSuccess" "exit_status (Failed c) = cause_status c"
  by (simp_all add: exit_fold_def exit_map_def exit_map_error_def exit_status_def)

subsection \<open>Combining the causes of work that ran in parallel\<close>

datatype side = NeitherSide | LeftSide | RightSide

record 'v pair_outcome =
  left :: "'v exit"
  right :: "'v exit"
  first :: side

definition combine_parallel_causes :: "'v pair_outcome \<Rightarrow> nilable_err \<Rightarrow> 'v cause" where
  "combine_parallel_causes outcome cancel_reason =
     (let l = exit_cause (left outcome); r = exit_cause (right outcome)
      in if is_induced r cancel_reason then l
         else if is_induced l cancel_reason then r
         else both_cause l r)"

definition combine_branch_causes :: "'v exit list \<Rightarrow> nilable_err \<Rightarrow> 'v cause" where
  "combine_branch_causes exits cancel_reason =
     foldl (\<lambda>result exit.
              let c = exit_cause exit
              in if is_induced c cancel_reason then result else both_cause result c)
       Empty exits"

lemma is_induced_iff:
  assumes "proper c"
  shows "is_induced c reason \<longleftrightarrow>
    (\<exists>r. reason = Some r \<and> c \<noteq> Empty \<and>
         (\<forall>l\<in>set (leaves c). \<exists>e o'. l = Interrupt (Some e) o' \<and> errors_is e r))"
proof (cases reason)
  case None
  then show ?thesis by (simp add: is_induced_def)
next
  case (Some r)
  let ?P = "\<lambda>n. case n of
      Then _ _ \<Rightarrow> True | Both _ _ \<Rightarrow> True
    | Interrupt e _ \<Rightarrow> (case e of None \<Rightarrow> False | Some e' \<Rightarrow> errors_is e' r) | _ \<Rightarrow> False"
  have leaf: "?P l \<longleftrightarrow> (\<exists>e o'. l = Interrupt (Some e) o' \<and> errors_is e r)"
    if "l \<in> set (leaves c)" for l
  proof -
    from that have "\<not> is_composite_kind (kind l)" by (rule leaves_not_composite)
    then show ?thesis by (cases l) (auto split: option.splits)
  qed
  show ?thesis
  proof (cases "c = Empty")
    case True
    with Some show ?thesis by (simp add: is_induced_def)
  next
    case False
    have "is_induced c reason = list_all ?P (nodes c)"
      using Some False unfolding is_induced_def visit_cause_list
      by (simp, subst visit_list_all [where P = ?P])
         (auto simp: Let_def split: cause.splits option.splits)
    also have "\<dots> = list_all ?P (leaves c)"
      using assms False by (intro list_all_nodes_leaves) auto
    finally show ?thesis
      using Some False leaf by (auto simp: list_all_iff)
  qed
qed

lemma induced_has_interruptions_only:
  assumes "proper c" "is_induced c reason"
  shows "failures c = [] \<and> defects c = []"
  using assms by (auto simp: is_induced_iff List.map_filter_def filter_empty_conv)

text \<open>
  C22: composing two branches loses no failure and no defect of either side and keeps them in
  positional order; the only thing ever dropped is a branch whose every leaf is an interruption
  that this composition itself requested.
\<close>

theorem combine_parallel_causes_keeps_failures:
  fixes outcome :: "'v pair_outcome"
  defines "l \<equiv> exit_cause (left outcome)" and "r \<equiv> exit_cause (right outcome)"
  assumes "proper l" "proper r"
  shows "failures (combine_parallel_causes outcome reason) = failures l @ failures r
    \<and> defects (combine_parallel_causes outcome reason) = defects l @ defects r
    \<and> (\<not> is_induced l reason \<and> \<not> is_induced r reason \<longrightarrow>
         leaves (combine_parallel_causes outcome reason) = leaves l @ leaves r)
    \<and> proper (combine_parallel_causes outcome reason)"
  using assms induced_has_interruptions_only [of l reason] induced_has_interruptions_only [of r reason]
  by (auto simp: combine_parallel_causes_def Let_def List.map_filter_def)

theorem combine_parallel_causes_keeps_failures_witness:
  "failures (combine_parallel_causes
     \<lparr>left = Failed (fail_cause (1 :: int)), right = Failed (fail_cause 2), first = LeftSide\<rparr> None) = [1, 2]"
  using combine_parallel_causes_keeps_failures
    [of "\<lparr>left = Failed (fail_cause (1 :: int)), right = Failed (fail_cause 2), first = LeftSide\<rparr>" None]
  by (simp add: fail_cause_def List.map_filter_def)

lemma combine_branch_causes_foldl:
  "foldl (\<lambda>result exit.
            let c = exit_cause exit in if is_induced c reason then result else both_cause result c) acc exits =
   foldl both_cause acc (filter (\<lambda>c. \<not> is_induced c reason) (map exit_cause exits))"
  by (induction exits arbitrary: acc) (simp_all add: Let_def)

lemma combine_branch_causes_eq:
  "combine_branch_causes exits reason =
     foldl both_cause Empty (filter (\<lambda>c. \<not> is_induced c reason) (map exit_cause exits))"
  by (simp add: combine_branch_causes_def combine_branch_causes_foldl)

lemma concat_map_filter_drop:
  "(\<And>x. x \<in> set xs \<Longrightarrow> \<not> P x \<Longrightarrow> f x = []) \<Longrightarrow> concat (map f (filter P xs)) = concat (map f xs)"
  by (induction xs) auto

lemma map_filter_concat:
  "List.map_filter f (concat xss) = concat (map (List.map_filter f) xss)"
  by (induction xss) (simp_all add: List.map_filter_def)

lemma proper_combine_branch_causes:
  assumes "\<And>x. x \<in> set exits \<Longrightarrow> proper (exit_cause x)"
  shows "proper (combine_branch_causes exits reason)"
  unfolding combine_branch_causes_eq by (rule both_alg.valid_foldl) (auto simp: assms)

lemma leaves_combine_branch_causes:
  "leaves (combine_branch_causes exits reason) =
     concat (map leaves (filter (\<lambda>c. \<not> is_induced c reason) (map exit_cause exits)))"
  unfolding combine_branch_causes_eq by (simp add: both_alg.leaves_foldl)

lemma branch_causes_keep_failures:
  assumes "\<forall>x\<in>set exits. proper (exit_cause x)"
  shows "failures (combine_branch_causes exits reason) = concat (map (\<lambda>x. failures (exit_cause x)) exits)
    \<and> defects (combine_branch_causes exits reason) = concat (map (\<lambda>x. defects (exit_cause x)) exits)"
proof -
  let ?kept = "filter (\<lambda>c. \<not> is_induced c reason) (map exit_cause exits)"
  note lv = leaves_combine_branch_causes [of exits reason]
  have "concat (map (\<lambda>c. failures c) ?kept) = concat (map (\<lambda>c. failures c) (map exit_cause exits))"
    and "concat (map (\<lambda>c. defects c) ?kept) = concat (map (\<lambda>c. defects c) (map exit_cause exits))"
    using assms induced_has_interruptions_only
    by (intro concat_map_filter_drop; fastforce)+
  moreover have "failures (combine_branch_causes exits reason) = concat (map (\<lambda>c. failures c) ?kept)"
    and "defects (combine_branch_causes exits reason) = concat (map (\<lambda>c. defects c) ?kept)"
    by (simp_all add: lv map_filter_concat comp_def collectors_fun del: filter_map)
  ultimately show ?thesis by (simp add: comp_def del: collectors)
qed

text \<open>
  A collection composition reports, in input order, exactly the leaves of the branches that
  failed on their own account; no failure and no defect of any branch is lost.
\<close>

theorem combine_branch_causes_in_order:
  assumes "\<forall>x\<in>set exits. proper (exit_cause x)"
  shows "leaves (combine_branch_causes exits reason) =
           concat (map leaves (filter (\<lambda>c. \<not> is_induced c reason) (map exit_cause exits)))
    \<and> failures (combine_branch_causes exits reason) = concat (map (\<lambda>x. failures (exit_cause x)) exits)
    \<and> defects (combine_branch_causes exits reason) = concat (map (\<lambda>x. defects (exit_cause x)) exits)"
  using leaves_combine_branch_causes branch_causes_keep_failures [OF assms] by blast

theorem combine_branch_causes_in_order_witness:
  "failures (combine_branch_causes
     [Failed (fail_cause (1 :: int)), Succeeded 7, Failed (fail_cause 2)] None) = [1, 2]"
  using combine_branch_causes_in_order
    [of "[Failed (fail_cause (1 :: int)), Succeeded 7, Failed (fail_cause 2)]" None]
  by (simp add: fail_cause_def List.map_filter_def is_induced_def)

text \<open>
  The dropping is total: a collection all of whose branches carry only interruptions with the
  composition's own reason is left with the empty cause. A nested composition that an outer one
  cancels with the same sentinel is in that position.
\<close>

lemma combine_branch_causes_all_induced:
  assumes "\<And>x. x \<in> set exits \<Longrightarrow> exit_cause x = Empty \<or> is_induced (exit_cause x) reason"
  shows "combine_branch_causes exits reason = Empty"
  unfolding combine_branch_causes_eq
  by (rule both_alg.foldl_all_empty) (use assms in auto)

end
