(* ===== verification/Work_Queue.thy ===== *)
theory Work_Queue
  imports Prelude
begin

section \<open>The bounded queue\<close>

text \<open>
  \<^verbatim>\<open>effect/internal/lifetime/queue.go\<close>, \<^verbatim>\<open>queue_policy.go\<close> and
  \<^verbatim>\<open>queue_waiter.go\<close>. Each section the code runs under the queue's mutex is one function
  of the state; a goroutine that parks is a waiter with a channel of capacity one, and what it does
  when it wakes is a function again. \<open>Queue_Steps\<close> interleaves them.
\<close>

subsection \<open>Channels of capacity one\<close>

text \<open>
  A waiter's channel: what is buffered, and whether it was closed. \<open>Faulty\<close> is the state after
  a send that would block for ever (the buffer is full and nobody else receives), a send on a closed
  channel or a second close, which panic. That no channel is ever faulty is part of the invariant.
\<close>

datatype 'a chan = Open "'a list" | Shut "'a list" | Faulty

datatype 'a received = Blocked | Received 'a | ChannelClosed

fun chan_send :: "'a chan \<Rightarrow> 'a \<Rightarrow> 'a chan" where
  "chan_send (Open []) v = Open [v]"
| "chan_send _ v = Faulty"

fun chan_close :: "'a chan \<Rightarrow> 'a chan" where
  "chan_close (Open b) = Shut b"
| "chan_close _ = Faulty"

fun chan_recv :: "'a chan \<Rightarrow> 'a received \<times> 'a chan" where
  "chan_recv (Open []) = (Blocked, Open [])"
| "chan_recv (Open (v # b)) = (Received v, Open b)"
| "chan_recv (Shut []) = (ChannelClosed, Shut [])"
| "chan_recv (Shut (v # b)) = (Received v, Shut b)"
| "chan_recv Faulty = (Blocked, Faulty)"

subsection \<open>State\<close>

datatype full_queue_policy = BackPressure | DropNewest | DropOldest

text \<open>
  \<open>capacity\<close> 0 is unbounded and then \<open>policy\<close> is nil. A waiter is a pointer in the code and a
  number here; the channels of all waiters ever allocated are \<open>ready\<close> and \<open>admission\<close>.
\<close>

record 'a queue =
  items :: "'a list"
  capacity :: int
  policy :: "full_queue_policy option"
  takers :: "nat list"
  offerers :: "(nat \<times> 'a) list"
  closed :: bool
  ready :: "nat \<Rightarrow> 'a chan"
  admission :: "nat \<Rightarrow> bool chan"
  fresh :: nat

definition new_queue :: "int \<Rightarrow> full_queue_policy \<Rightarrow> 'a queue" where
  "new_queue cap pol =
     \<lparr>items = [], capacity = (if cap < 1 then 1 else cap), policy = Some pol, takers = [], offerers = [],
      closed = False, ready = (\<lambda>_. Open []), admission = (\<lambda>_. Open []), fresh = 0\<rparr>"

definition new_unbounded_queue :: "'a queue" where
  "new_unbounded_queue =
     \<lparr>items = [], capacity = 0, policy = None, takers = [], offerers = [],
      closed = False, ready = (\<lambda>_. Open []), admission = (\<lambda>_. Open []), fresh = 0\<rparr>"

definition queue_size :: "'a queue \<Rightarrow> nat" where
  "queue_size q = length (items q)"

definition is_shutdown :: "'a queue \<Rightarrow> bool" where
  "is_shutdown q = closed q"

subsection \<open>Offering\<close>

text \<open>
  An offer either returns its two bools (accepted, interrupted) at once or parks on a waiter;
  calling \<open>admit\<close> on a nil policy would panic.
\<close>

datatype offer_result = OfferReturned bool bool | OfferParked nat | OfferPanicked

definition hand_off :: "'a \<Rightarrow> 'a queue \<Rightarrow> bool \<times> 'a queue" where
  "hand_off v q =
     (case takers q of
        [] \<Rightarrow> (False, q)
      | t # ts \<Rightarrow> (True, q\<lparr>takers := ts, ready := (ready q)(t := chan_send (ready q t) v)\<rparr>))"

definition enqueue :: "'a \<Rightarrow> 'a queue \<Rightarrow> bool \<times> 'a queue" where
  "enqueue v q =
     (if capacity q \<noteq> 0 \<and> int (length (items q)) \<ge> capacity q then (False, q)
      else (True, q\<lparr>items := items q @ [v]\<rparr>))"

fun admit :: "full_queue_policy \<Rightarrow> 'a queue \<Rightarrow> 'a \<Rightarrow> bool \<times> nat option \<times> 'a queue" where
  "admit BackPressure q v =
     (False, Some (fresh q),
      q\<lparr>offerers := offerers q @ [(fresh q, v)],
        admission := (admission q)(fresh q := Open []),
        fresh := Suc (fresh q)\<rparr>)"
| "admit DropNewest q v = (False, None, q)"
| "admit DropOldest q v = (True, None, q\<lparr>items := tl (items q) @ [v]\<rparr>)"

definition offer :: "'a \<Rightarrow> 'a queue \<Rightarrow> offer_result \<times> 'a queue" where
  "offer v q =
     (if closed q then (OfferReturned False False, q)
      else case hand_off v q of
        (True, q') \<Rightarrow> (OfferReturned True False, q')
      | (False, _) \<Rightarrow>
          (case enqueue v q of
             (True, q') \<Rightarrow> (OfferReturned True False, q')
           | (False, _) \<Rightarrow>
               (case policy q of
                  None \<Rightarrow> (OfferPanicked, q)
                | Some p \<Rightarrow>
                    (case admit p q v of
                       (accepted, None, q') \<Rightarrow> (OfferReturned accepted False, q')
                     | (_, Some waiter, q') \<Rightarrow> (OfferParked waiter, q')))))"

subsection \<open>Taking\<close>

text \<open>\<open>Took v\<close> is (value, true, false), \<open>TookNothing\<close> is (zero, false, false).\<close>

datatype 'a take_result = Took 'a | TookNothing | TakeParked nat

definition admit_one_offerer :: "'a queue \<Rightarrow> 'a queue" where
  "admit_one_offerer q =
     (case offerers q of
        [] \<Rightarrow> q
      | (w, v) # ws \<Rightarrow>
          q\<lparr>offerers := ws, items := items q @ [v],
            admission := (admission q)(w := chan_send (admission q w) True)\<rparr>)"

definition dequeue :: "'a queue \<Rightarrow> 'a option \<times> 'a queue" where
  "dequeue q =
     (case items q of
        [] \<Rightarrow> (None, q)
      | v # vs \<Rightarrow> (Some v, admit_one_offerer (q\<lparr>items := vs\<rparr>)))"

definition take_value :: "'a queue \<Rightarrow> 'a take_result \<times> 'a queue" where
  "take_value q =
     (case dequeue q of
        (Some v, q') \<Rightarrow> (Took v, q')
      | (None, _) \<Rightarrow>
          if closed q then (TookNothing, q)
          else (TakeParked (fresh q),
                q\<lparr>takers := takers q @ [fresh q], ready := (ready q)(fresh q := Open []),
                  fresh := Suc (fresh q)\<rparr>))"

function drain_up_to :: "int \<Rightarrow> 'a list \<Rightarrow> 'a queue \<Rightarrow> 'a list \<times> 'a queue" where
  "drain_up_to limit batch q =
     (if int (length batch) < limit
      then case dequeue q of
             (None, _) \<Rightarrow> (batch, q)
           | (Some v, q') \<Rightarrow> drain_up_to limit (batch @ [v]) q'
      else (batch, q))"
  by pat_completeness auto
termination
  by (relation "measure (\<lambda>(limit, batch, _). nat (limit - int (length batch)))") auto

declare drain_up_to.simps [simp del]

definition take_available :: "int \<Rightarrow> 'a queue \<Rightarrow> 'a list \<times> 'a queue" where
  "take_available limit q = (if limit < 1 then ([], q) else drain_up_to limit [] q)"

text \<open>
  \<open>TakeUpTo\<close> is a \<open>Take\<close>, which may park, and then a second section under the lock that
  fills the batch; \<open>Inr\<close> is the waiter it parked on.
\<close>

definition fill_batch :: "int \<Rightarrow> 'a \<Rightarrow> 'a queue \<Rightarrow> 'a list \<times> 'a queue" where
  "fill_batch limit v q = drain_up_to limit [v] q"

definition take_up_to :: "int \<Rightarrow> 'a queue \<Rightarrow> ('a list + nat) \<times> 'a queue" where
  "take_up_to limit q =
     (if limit < 1 then (Inl [], q)
      else case take_value q of
        (Took v, q') \<Rightarrow> (case fill_batch limit v q' of (batch, q'') \<Rightarrow> (Inl batch, q''))
      | (TookNothing, q') \<Rightarrow> (Inl [], q')
      | (TakeParked w, q') \<Rightarrow> (Inr w, q'))"

subsection \<open>Shutting down\<close>

text \<open>
  \<open>Shutdown\<close> marks the queue and takes over the waiters under the lock, and closes their channels
  after it has released it.
\<close>

definition begin_shutdown :: "'a queue \<Rightarrow> (nat list \<times> nat list) \<times> 'a queue" where
  "begin_shutdown q =
     (if closed q then (([], []), q)
      else ((takers q, map fst (offerers q)), q\<lparr>closed := True, takers := [], offerers := []\<rparr>))"

definition close_taker :: "nat \<Rightarrow> 'a queue \<Rightarrow> 'a queue" where
  "close_taker w q = q\<lparr>ready := (ready q)(w := chan_close (ready q w))\<rparr>"

definition close_offerer :: "nat \<Rightarrow> 'a queue \<Rightarrow> 'a queue" where
  "close_offerer w q = q\<lparr>admission := (admission q)(w := chan_close (admission q w))\<rparr>"

definition shutdown :: "'a queue \<Rightarrow> 'a queue" where
  "shutdown q =
     (case begin_shutdown q of
        ((ts, os), q') \<Rightarrow> fold close_offerer os (fold close_taker ts q'))"

subsection \<open>What a parked goroutine does when it wakes\<close>

definition abandon_taker :: "nat \<Rightarrow> 'a queue \<Rightarrow> bool \<times> 'a queue" where
  "abandon_taker w q =
     (if w \<in> set (takers q) then (True, q\<lparr>takers := remove1 w (takers q)\<rparr>) else (False, q))"

fun drop_waiter :: "nat \<Rightarrow> (nat \<times> 'a) list \<Rightarrow> (nat \<times> 'a) list" where
  "drop_waiter w [] = []"
| "drop_waiter w ((w', v) # ws) = (if w' = w then ws else (w', v) # drop_waiter w ws)"

definition abandon_offerer :: "nat \<Rightarrow> 'a queue \<Rightarrow> bool \<times> 'a queue" where
  "abandon_offerer w q =
     (if w \<in> fst ` set (offerers q)
      then (True, q\<lparr>offerers := drop_waiter w (offerers q)\<rparr>)
      else (False, q))"

text \<open>
  The two arms of \<open>awaitRoom\<close>'s select: the admission channel, and a cancelled context, after
  which a waiter that is no longer parked receives what it was sent. \<open>None\<close> means the receive
  blocks. The result is the pair (accepted, interrupted).
\<close>

definition room_received :: "nat \<Rightarrow> 'a queue \<Rightarrow> ((bool \<times> bool) \<times> 'a queue) option" where
  "room_received w q =
     (case chan_recv (admission q w) of
        (Blocked, _) \<Rightarrow> None
      | (Received b, c) \<Rightarrow> Some ((b, False), q\<lparr>admission := (admission q)(w := c)\<rparr>)
      | (ChannelClosed, c) \<Rightarrow> Some ((False, False), q\<lparr>admission := (admission q)(w := c)\<rparr>))"

definition room_cancelled :: "nat \<Rightarrow> 'a queue \<Rightarrow> ((bool \<times> bool) \<times> 'a queue) option" where
  "room_cancelled w q =
     (case abandon_offerer w q of
        (True, q') \<Rightarrow> Some ((False, True), q')
      | (False, _) \<Rightarrow> room_received w q)"

text \<open>The same for \<open>awaitValue\<close>: value (if any), open, interrupted.\<close>

definition value_received :: "nat \<Rightarrow> 'a queue \<Rightarrow> (('a option \<times> bool) \<times> 'a queue) option" where
  "value_received w q =
     (case chan_recv (ready q w) of
        (Blocked, _) \<Rightarrow> None
      | (Received v, c) \<Rightarrow> Some ((Some v, False), q\<lparr>ready := (ready q)(w := c)\<rparr>)
      | (ChannelClosed, c) \<Rightarrow> Some ((None, False), q\<lparr>ready := (ready q)(w := c)\<rparr>))"

definition value_cancelled :: "nat \<Rightarrow> 'a queue \<Rightarrow> (('a option \<times> bool) \<times> 'a queue) option" where
  "value_cancelled w q =
     (case abandon_taker w q of
        (True, q') \<Rightarrow> Some ((None, True), q')
      | (False, _) \<Rightarrow> value_received w q)"

subsection \<open>The invariant\<close>

text \<open>
  \<open>shaped\<close> is what the code keeps true of the queue itself: nobody takes from a queue that holds
  values, offerers wait only at a full queue under backpressure, a bounded queue never exceeds its
  capacity, a shut-down queue has no waiters. \<open>waiting\<close> is what it keeps true of the waiters:
  they are distinct allocations, a parked one has an open and empty channel, and no channel is
  ever faulty.
\<close>

definition shaped :: "'a queue \<Rightarrow> bool" where
  "shaped q \<longleftrightarrow>
     (closed q \<longrightarrow> takers q = [] \<and> offerers q = [])
   \<and> (takers q \<noteq> [] \<longrightarrow> items q = [])
   \<and> (offerers q \<noteq> [] \<longrightarrow> policy q = Some BackPressure \<and> capacity q \<noteq> 0 \<and> int (length (items q)) = capacity q)
   \<and> 0 \<le> capacity q
   \<and> (capacity q \<noteq> 0 \<longrightarrow> int (length (items q)) \<le> capacity q)
   \<and> (policy q = None \<longrightarrow> capacity q = 0)"

definition waiting :: "'a queue \<Rightarrow> bool" where
  "waiting q \<longleftrightarrow>
     distinct (takers q @ map fst (offerers q))
   \<and> (\<forall>w\<in>set (takers q @ map fst (offerers q)). w < fresh q)
   \<and> (\<forall>w\<in>set (takers q). ready q w = Open [])
   \<and> (\<forall>w\<in>set (map fst (offerers q)). admission q w = Open [])
   \<and> (\<forall>w. ready q w \<noteq> Faulty \<and> admission q w \<noteq> Faulty)"

definition queue_inv :: "'a queue \<Rightarrow> bool" where
  "queue_inv q \<longleftrightarrow> shaped q \<and> waiting q"

text \<open>The values a queue will still give out, oldest first: what is queued, then what is parked.\<close>

definition contents :: "'a queue \<Rightarrow> 'a list" where
  "contents q = items q @ map snd (offerers q)"

lemma queue_inv_new: "queue_inv (new_queue cap pol)"
  by (simp add: queue_inv_def shaped_def waiting_def new_queue_def)

lemma queue_inv_new_unbounded: "queue_inv new_unbounded_queue"
  by (simp add: queue_inv_def shaped_def waiting_def new_unbounded_queue_def)

lemma drop_waiter_filter:
  "distinct (map fst ws) \<Longrightarrow> drop_waiter w ws = filter (\<lambda>x. fst x \<noteq> w) ws"
proof (induction ws)
  case Nil
  then show ?case by simp
next
  case (Cons x ws)
  then show ?case
    by (cases x) (auto intro!: filter_True [symmetric] dest: pair_in_fst)
qed

lemma map_fst_drop_waiter:
  "distinct (map fst ws) \<Longrightarrow> map fst (drop_waiter w ws) = filter (\<lambda>y. y \<noteq> w) (map fst ws)"
  by (simp add: drop_waiter_filter filter_map comp_def)

lemma queue_inv_hand_off:
  "queue_inv q \<Longrightarrow> hand_off v q = (b, q') \<Longrightarrow> queue_inv q'"
  by (auto simp: hand_off_def queue_inv_def shaped_def waiting_def split: list.splits if_splits)

lemma queue_inv_enqueue:
  "queue_inv q \<Longrightarrow> takers q = [] \<Longrightarrow> \<not> closed q \<Longrightarrow> enqueue v q = (b, q') \<Longrightarrow> queue_inv q'"
  by (auto simp: enqueue_def queue_inv_def shaped_def waiting_def split: if_splits)

lemma queue_inv_admit:
  "queue_inv q \<Longrightarrow> takers q = [] \<Longrightarrow> \<not> closed q \<Longrightarrow> policy q = Some p \<Longrightarrow>
   capacity q \<noteq> 0 \<Longrightarrow> int (length (items q)) \<ge> capacity q \<Longrightarrow> queue_inv (snd (snd (admit p q v)))"
  by (cases p) (auto simp: queue_inv_def shaped_def waiting_def)

lemma waiting_admit_one:
  assumes "waiting q"
  shows "waiting (admit_one_offerer q)"
proof (cases "offerers q")
  case Nil
  with assms show ?thesis by (simp add: admit_one_offerer_def)
next
  case (Cons x ws)
  define ids where "ids = map fst ws"
  obtain w v where x: "x = (w, v)" by (cases x)
  from assms show ?thesis
    unfolding waiting_def
    by (auto simp: admit_one_offerer_def Cons x ids_def [symmetric] simp del: set_map)
qed

lemma queue_inv_dequeue: "queue_inv q \<Longrightarrow> dequeue q = (r, q') \<Longrightarrow> queue_inv q'"
  unfolding queue_inv_def
proof (elim conjE, intro conjI)
  assume "shaped q" "waiting q" and eq: "dequeue q = (r, q')"
  then show "shaped q'"
    by (auto simp: dequeue_def shaped_def admit_one_offerer_def split: list.splits)
  have "waiting (q\<lparr>items := vs\<rparr>)" for vs
    using \<open>waiting q\<close> by (simp add: waiting_def)
  with eq \<open>waiting q\<close> show "waiting q'"
    by (auto simp: dequeue_def waiting_admit_one split: list.splits)
qed

lemma dequeue_None: "dequeue q = (None, q') \<longleftrightarrow> items q = [] \<and> q' = q"
  by (auto simp: dequeue_def split: list.splits)

lemma queue_inv_take_value:
  assumes "queue_inv q" "take_value q = (r, q')"
  shows "queue_inv q'"
proof (cases "dequeue q")
  case (Pair x q1)
  show ?thesis
  proof (cases x)
    case None
    with Pair have "items q = []" by (simp add: dequeue_None)
    then have "shaped q'" "waiting q'"
      using assms Pair None
      by (auto simp: take_value_def queue_inv_def shaped_def waiting_def less_Suc_eq split: if_splits)
    then show ?thesis by (simp add: queue_inv_def)
  next
    case (Some v)
    with assms Pair show ?thesis
      by (auto simp: take_value_def intro: queue_inv_dequeue)
  qed
qed

lemma queue_inv_drain: "queue_inv q \<Longrightarrow> queue_inv (snd (drain_up_to limit batch q))"
proof (induction limit batch q rule: drain_up_to.induct)
  case (1 limit batch q)
  then show ?case
    using queue_inv_dequeue [of q]
    by (subst drain_up_to.simps) (auto split: option.splits prod.splits)
qed

lemma queue_inv_begin_shutdown: "queue_inv q \<Longrightarrow> queue_inv (snd (begin_shutdown q))"
  by (auto simp: begin_shutdown_def queue_inv_def shaped_def waiting_def)

lemma queue_inv_abandon_taker: "queue_inv q \<Longrightarrow> queue_inv (snd (abandon_taker w q))"
  by (auto simp: abandon_taker_def queue_inv_def shaped_def waiting_def dest: notin_set_remove1)

lemma queue_inv_abandon_offerer:
  assumes "queue_inv q"
  shows "queue_inv (snd (abandon_offerer w q))"
proof -
  have d: "distinct (map fst (offerers q))"
    using assms by (simp add: queue_inv_def waiting_def)
  have "shaped (snd (abandon_offerer w q))"
    using assms by (auto simp: abandon_offerer_def queue_inv_def shaped_def)
  moreover have "waiting (snd (abandon_offerer w q))"
    using assms d
    by (auto simp: abandon_offerer_def queue_inv_def waiting_def drop_waiter_filter
        filter_map comp_def distinct_map_filter)
  ultimately show ?thesis by (simp add: queue_inv_def)
qed

subsection \<open>What each operation does to the contents\<close>

definition full :: "'a queue \<Rightarrow> bool" where
  "full q \<longleftrightarrow> capacity q \<noteq> 0 \<and> int (length (items q)) \<ge> capacity q"

lemma not_full_no_offerers: "shaped q \<Longrightarrow> \<not> full q \<Longrightarrow> offerers q = []"
  by (auto simp: shaped_def full_def)

lemma full_has_items: "shaped q \<Longrightarrow> full q \<Longrightarrow> items q \<noteq> []"
  by (auto simp: shaped_def full_def)

lemma full_has_policy: "shaped q \<Longrightarrow> full q \<Longrightarrow> \<exists>p. policy q = Some p"
  by (auto simp: shaped_def full_def)

lemma offer_closed: "closed q \<Longrightarrow> offer v q = (OfferReturned False False, q)"
  by (simp add: offer_def)

lemma offer_to_taker:
  "\<not> closed q \<Longrightarrow> takers q = t # ts \<Longrightarrow>
   offer v q = (OfferReturned True False, q\<lparr>takers := ts, ready := (ready q)(t := chan_send (ready q t) v)\<rparr>)"
  by (simp add: offer_def hand_off_def)

lemma offer_with_room:
  "\<not> closed q \<Longrightarrow> takers q = [] \<Longrightarrow> \<not> full q \<Longrightarrow>
   offer v q = (OfferReturned True False, q\<lparr>items := items q @ [v]\<rparr>)"
  by (auto simp: offer_def hand_off_def enqueue_def full_def)

lemma offer_full:
  "\<not> closed q \<Longrightarrow> takers q = [] \<Longrightarrow> full q \<Longrightarrow> policy q = Some p \<Longrightarrow>
   offer v q =
     (case admit p q v of
        (accepted, None, q') \<Rightarrow> (OfferReturned accepted False, q')
      | (_, Some w, q') \<Rightarrow> (OfferParked w, q'))"
  by (auto simp: offer_def hand_off_def enqueue_def full_def)

lemmas offer_cases = offer_closed offer_to_taker offer_with_room offer_full

lemma queue_inv_offer:
  assumes "queue_inv q"
  shows "queue_inv (snd (offer v q))"
proof (cases "closed q")
  case True
  with assms show ?thesis by (simp add: offer_closed)
next
  case open': False
  show ?thesis
  proof (cases "takers q")
    case (Cons t ts)
    with assms open' show ?thesis
      using queue_inv_hand_off [of q v] by (simp add: offer_to_taker hand_off_def)
  next
    case Nil
    show ?thesis
    proof (cases "full q")
      case False
      with assms Nil open' show ?thesis
        using queue_inv_enqueue [of q v] by (auto simp: offer_with_room enqueue_def full_def)
    next
      case True
      then obtain p where p: "policy q = Some p"
        using assms full_has_policy by (auto simp: queue_inv_def)
      have "queue_inv (snd (snd (admit p q v)))"
        using assms Nil open' True p by (intro queue_inv_admit) (auto simp: full_def)
      moreover have "snd (offer v q) = snd (snd (admit p q v))"
        using Nil open' True p by (cases p) (simp_all add: offer_full)
      ultimately show ?thesis by simp
    qed
  qed
qed

lemma offer_no_panic: "queue_inv q \<Longrightarrow> fst (offer v q) \<noteq> OfferPanicked"
  using full_has_policy [of q]
  by (cases "closed q"; cases "takers q"; cases "full q")
     (auto simp: queue_inv_def offer_cases split: option.splits prod.splits)

lemma dequeue_contents:
  assumes "shaped q" "contents q = v # vs"
  shows "\<exists>q'. dequeue q = (Some v, q') \<and> contents q' = vs"
proof -
  have "items q \<noteq> []"
    using assms by (auto simp: shaped_def contents_def)
  then obtain w ws where it: "items q = w # ws"
    by (cases "items q") auto
  with assms show ?thesis
    by (cases "offerers q") (auto simp: dequeue_def admit_one_offerer_def contents_def)
qed

lemma contents_Nil: "shaped q \<Longrightarrow> contents q = [] \<longleftrightarrow> items q = []"
  by (auto simp: shaped_def contents_def)

lemma drain_contents:
  "queue_inv q \<Longrightarrow>
   fst (drain_up_to limit batch q) = batch @ take (nat (limit - int (length batch))) (contents q)
   \<and> contents (snd (drain_up_to limit batch q)) = drop (nat (limit - int (length batch))) (contents q)"
proof (induction limit batch q rule: drain_up_to.induct)
  case (1 limit batch q)
  have sh: "shaped q" using "1.prems" by (simp add: queue_inv_def)
  show ?case
  proof (cases "int (length batch) < limit")
    case False
    then show ?thesis by (simp add: drain_up_to.simps)
  next
    case True
    show ?thesis
    proof (cases "contents q")
      case Nil
      with sh have "dequeue q = (None, q)" by (simp add: dequeue_None contents_Nil)
      with True Nil show ?thesis by (simp add: drain_up_to.simps)
    next
      case (Cons v vs)
      obtain q' where q': "dequeue q = (Some v, q')" "contents q' = vs"
        using dequeue_contents [OF sh Cons] by blast
      have "queue_inv q'" using "1.prems" q'(1) by (rule queue_inv_dequeue)
      with "1.IH" True q' have ih:
        "fst (drain_up_to limit (batch @ [v]) q') =
           (batch @ [v]) @ take (nat (limit - int (length (batch @ [v])))) vs"
        "contents (snd (drain_up_to limit (batch @ [v]) q')) =
           drop (nat (limit - int (length (batch @ [v])))) vs"
        by auto
      have "nat (limit - int (length batch)) = Suc (nat (limit - int (length (batch @ [v]))))"
        using True by simp
      with ih True q'(1) Cons show ?thesis
        by (subst (1 2) drain_up_to.simps) simp
    qed
  qed
qed

text \<open>
  Under backpressure the queue is first in, first out over everything it holds and everything
  that waits to get in: an offer goes to the longest-waiting taker, or to the end of the contents
  (returning when there was room, parking when there was none); it is never refused while open.
\<close>

theorem offer_backpressure_fifo:
  assumes "queue_inv q" "\<not> closed q" "policy q = Some BackPressure \<or> capacity q = 0"
  shows "queue_inv (snd (offer v q))
    \<and> (case takers q of
         t # ts \<Rightarrow> fst (offer v q) = OfferReturned True False
           \<and> takers (snd (offer v q)) = ts
           \<and> chan_recv (ready (snd (offer v q)) t) = (Received v, Open [])
           \<and> contents (snd (offer v q)) = [] \<and> contents q = []
       | [] \<Rightarrow> contents (snd (offer v q)) = contents q @ [v]
           \<and> fst (offer v q) = (if full q then OfferParked (fresh q) else OfferReturned True False))"
proof -
  have sh: "shaped q" and wt: "waiting q" using assms(1) by (auto simp: queue_inv_def)
  show ?thesis
  proof (cases "takers q")
    case (Cons t ts)
    then have "items q = []" "contents q = []" using sh by (auto simp: shaped_def contents_def)
    moreover have "ready q t = Open []" using wt Cons by (simp add: waiting_def)
    ultimately show ?thesis
      using assms Cons queue_inv_offer [of q v] by (simp add: offer_to_taker contents_def)
  next
    case Nil
    then show ?thesis
      using assms sh queue_inv_offer [of q v] not_full_no_offerers [of q]
      by (cases "full q") (auto simp: offer_with_room offer_full contents_def full_def)
  qed
qed

theorem offer_backpressure_fifo_witness:
  "fst (offer (7 :: nat) (new_queue 1 BackPressure)) = OfferReturned True False
   \<and> contents (snd (offer (7 :: nat) (new_queue 1 BackPressure))) = [7]"
  using offer_backpressure_fifo [OF queue_inv_new, of 1 BackPressure "7 :: nat"]
  by (simp add: new_queue_def full_def contents_def)

text \<open>
  The dropping policies never park an offer. At a full queue the newest-dropping one refuses
  the value and changes nothing, the oldest-dropping one accepts it and gives up exactly its oldest
  value; with room, or with a taker waiting, both accept.
\<close>

theorem offer_dropping_policies:
  assumes "queue_inv q" "\<not> closed q" "policy q = Some p" "p \<noteq> BackPressure"
  shows "offer v q =
    (if takers q \<noteq> [] then (OfferReturned True False, snd (hand_off v q))
     else if \<not> full q then (OfferReturned True False, q\<lparr>items := items q @ [v]\<rparr>)
     else if p = DropNewest then (OfferReturned False False, q)
     else (OfferReturned True False, q\<lparr>items := tl (items q) @ [v]\<rparr>))
   \<and> (full q \<and> takers q = [] \<longrightarrow>
        contents (snd (offer v q)) = (if p = DropNewest then contents q else tl (contents q) @ [v])
        \<and> length (contents (snd (offer v q))) = length (contents q))"
proof -
  have sh: "shaped q" using assms(1) by (simp add: queue_inv_def)
  have no: "offerers q = []" using sh assms(3,4) by (auto simp: shaped_def)
  have p: "p = DropNewest \<or> p = DropOldest" using assms(4) by (cases p) auto
  show ?thesis
  proof (cases "takers q")
    case (Cons t ts)
    with assms show ?thesis by (simp add: offer_to_taker hand_off_def)
  next
    case Nil
    with assms p no full_has_items [OF sh] show ?thesis
      by (cases "full q") (auto simp: offer_with_room offer_full contents_def)
  qed
qed

theorem offer_dropping_policies_witness:
  "items (snd (offer (3 :: nat) (snd (offer 2 (snd (offer 1 (new_queue 2 DropOldest))))))) = [2, 3]"
proof -
  let ?q = "snd (offer 2 (snd (offer (1 :: nat) (new_queue 2 DropOldest))))"
  have inv: "queue_inv ?q" by (intro queue_inv_offer queue_inv_new)
  have q: "?q = (new_queue 2 DropOldest)\<lparr>items := [1, 2]\<rparr>"
    by (simp add: offer_def hand_off_def enqueue_def new_queue_def)
  show ?thesis
    using offer_dropping_policies [OF inv, of DropOldest 3]
    unfolding q by (simp add: new_queue_def full_def)
qed

lemma take_value_cases:
  assumes "queue_inv q"
  shows "case contents q of
      v # vs \<Rightarrow> fst (take_value q) = Took v \<and> contents (snd (take_value q)) = vs
    | [] \<Rightarrow> fst (take_value q) = (if closed q then TookNothing else TakeParked (fresh q))
        \<and> contents (snd (take_value q)) = []"
proof -
  have sh: "shaped q" using assms by (simp add: queue_inv_def)
  show ?thesis
  proof (cases "contents q")
    case Nil
    with sh have "items q = []" by (simp add: contents_Nil)
    then have "dequeue q = (None, q)" by (simp add: dequeue_None)
    with Nil show ?thesis by (auto simp: take_value_def contents_def)
  next
    case (Cons v vs)
    then show ?thesis
      using dequeue_contents [OF sh Cons] by (auto simp: take_value_def)
  qed
qed

text \<open>
  A take gives out the oldest value of the contents if there is any, even of a shut-down
  queue; it reports the end only when the queue is shut down and drained, and parks only when it is
  open and empty. Taking in batches is taking that many times.
\<close>

theorem take_value_oldest_first:
  assumes "queue_inv q"
  shows "(case contents q of
            v # vs \<Rightarrow> fst (take_value q) = Took v \<and> contents (snd (take_value q)) = vs
          | [] \<Rightarrow> fst (take_value q) = (if closed q then TookNothing else TakeParked (fresh q))
              \<and> contents (snd (take_value q)) = [])
    \<and> queue_inv (snd (take_value q))
    \<and> take_available limit q =
        (take (nat limit) (contents q), snd (take_available limit q))
    \<and> contents (snd (take_available limit q)) = drop (nat limit) (contents q)"
proof (intro conjI take_value_cases assms)
  show "queue_inv (snd (take_value q))"
    using assms by (cases "take_value q") (auto dest: queue_inv_take_value)
  show "take_available limit q = (take (nat limit) (contents q), snd (take_available limit q))"
    "contents (snd (take_available limit q)) = drop (nat limit) (contents q)"
    using drain_contents [OF assms, of limit "[]"]
    by (auto simp: take_available_def prod_eq_iff)
qed

theorem take_value_oldest_first_witness:
  "fst (take_value (snd (offer (7 :: nat) (new_queue 1 BackPressure)))) = Took 7"
  using take_value_oldest_first [OF queue_inv_offer [OF queue_inv_new], of "7 :: nat" 1 BackPressure 1]
  by (simp add: new_queue_def offer_def hand_off_def enqueue_def contents_def)

end
