(* ===== verification/Queue_Steps.thy ===== *)
theory Queue_Steps
  imports Work_Queue
begin

section \<open>The queue under concurrency\<close>

text \<open>
  Any number of goroutines offer, take, drain, cancel and shut down. What one of them does under
  the lock is atomic, so an execution is a sequence of steps, one per section under the lock, per
  channel operation of a woken waiter, and per channel a shutting-down goroutine closes after it
  released the lock. Each offered value carries a ticket, the number of offers before it, so order
  and conservation can be stated; \<open>gone\<close> lists the values that left at the front in the order
  they left, \<open>refused\<close> the tickets that were declined, withdrawn by a cancelled offerer or given
  back by a shutdown.
\<close>

record 'v qsys =
  queue :: "(nat \<times> 'v) queue"
  ticket :: nat
  gone :: "(nat \<times> 'v) list"
  refused :: "nat list"
  parked_takers :: "nat set"
  parked_offerers :: "nat set"
  closing_takers :: "nat list"
  closing_offerers :: "nat list"

definition init_sys :: "(nat \<times> 'v) queue \<Rightarrow> 'v qsys" where
  "init_sys q =
     \<lparr>queue = q, ticket = 0, gone = [], refused = [], parked_takers = {}, parked_offerers = {},
      closing_takers = [], closing_offerers = []\<rparr>"

text \<open>What an offer makes leave: itself when a taker waits, the oldest value when that is dropped.\<close>

definition departs :: "'a \<Rightarrow> 'a queue \<Rightarrow> 'a list" where
  "departs t q =
     (if closed q then []
      else if takers q \<noteq> [] then [t]
      else if full q \<and> policy q = Some DropOldest then [hd (items q)]
      else [])"

fun parked_on :: "offer_result \<Rightarrow> nat set" where
  "parked_on (OfferParked w) = {w}"
| "parked_on _ = {}"

fun taker_parked_on :: "'a take_result \<Rightarrow> nat set" where
  "taker_parked_on (TakeParked w) = {w}"
| "taker_parked_on _ = {}"

fun taken :: "'a take_result \<Rightarrow> 'a list" where
  "taken (Took v) = [v]"
| "taken _ = []"

inductive queue_step :: "'v qsys \<Rightarrow> 'v qsys \<Rightarrow> bool" where
  offers:
    "offer (ticket s, v) (queue s) = (r, q') \<Longrightarrow>
     queue_step s
       (s\<lparr>queue := q', ticket := Suc (ticket s),
          gone := gone s @ departs (ticket s, v) (queue s),
          refused := refused s @ (if r = OfferReturned False False then [ticket s] else []),
          parked_offerers := parked_offerers s \<union> parked_on r\<rparr>)"
| takes:
    "take_value (queue s) = (r, q') \<Longrightarrow>
     queue_step s
       (s\<lparr>queue := q', gone := gone s @ taken r, parked_takers := parked_takers s \<union> taker_parked_on r\<rparr>)"
| drains:
    "drain_up_to limit batch (queue s) = (batch', q') \<Longrightarrow>
     queue_step s (s\<lparr>queue := q', gone := gone s @ drop (length batch) batch'\<rparr>)"
| shuts_down:
    "begin_shutdown (queue s) = ((ts, os), q') \<Longrightarrow>
     queue_step s
       (s\<lparr>queue := q', closing_takers := closing_takers s @ ts, closing_offerers := closing_offerers s @ os,
          refused := refused s @ (if closed (queue s) then [] else map (fst \<circ> snd) (offerers (queue s)))\<rparr>)"
| closes_taker:
    "closing_takers s = w # ws \<Longrightarrow>
     queue_step s (s\<lparr>queue := close_taker w (queue s), closing_takers := ws\<rparr>)"
| closes_offerer:
    "closing_offerers s = w # ws \<Longrightarrow> closing_takers s = [] \<Longrightarrow>
     queue_step s (s\<lparr>queue := close_offerer w (queue s), closing_offerers := ws\<rparr>)"
| receives_room:
    "w \<in> parked_offerers s \<Longrightarrow> room_received w (queue s) = Some (r, q') \<Longrightarrow>
     queue_step s (s\<lparr>queue := q', parked_offerers := parked_offerers s - {w}\<rparr>)"
| abandons_room:
    "w \<in> parked_offerers s \<Longrightarrow> abandon_offerer w (queue s) = (True, q') \<Longrightarrow>
     queue_step s
       (s\<lparr>queue := q', parked_offerers := parked_offerers s - {w},
          refused := refused s @ map (fst \<circ> snd) (filter (\<lambda>x. fst x = w) (offerers (queue s)))\<rparr>)"
| receives_value:
    "w \<in> parked_takers s \<Longrightarrow> value_received w (queue s) = Some (r, q') \<Longrightarrow>
     queue_step s (s\<lparr>queue := q', parked_takers := parked_takers s - {w}\<rparr>)"
| abandons_value:
    "w \<in> parked_takers s \<Longrightarrow> abandon_taker w (queue s) = (True, q') \<Longrightarrow>
     queue_step s (s\<lparr>queue := q', parked_takers := parked_takers s - {w}\<rparr>)"

inductive_cases queue_stepE: "queue_step s t"

inductive reachable :: "'v qsys \<Rightarrow> bool" where
  bounded: "reachable (init_sys (new_queue cap pol))"
| unbounded: "reachable (init_sys new_unbounded_queue)"
| step: "reachable s \<Longrightarrow> queue_step s t \<Longrightarrow> reachable t"

subsection \<open>Order and conservation\<close>

text \<open>Everything that has left and everything still to come, in one line.\<close>

definition line :: "'v qsys \<Rightarrow> nat list" where
  "line s = map fst (gone s @ contents (queue s))"

definition ordered :: "'v qsys \<Rightarrow> bool" where
  "ordered s \<longleftrightarrow>
     sorted_wrt (<) (line s) \<and> mset [0..<ticket s] = mset (line s) + mset (refused s)"

lemma departs_contents:
  assumes "queue_inv q" "offer t q = (r, q')"
  shows "departs t q @ contents q' = contents q @ (if r = OfferReturned False False then [] else [t])"
proof -
  have sh: "shaped q" using assms(1) by (simp add: queue_inv_def)
  show ?thesis
  proof (cases "closed q")
    case True
    with assms show ?thesis by (simp add: offer_closed departs_def)
  next
    case open': False
    show ?thesis
    proof (cases "takers q")
      case (Cons t ts)
      with assms open' sh show ?thesis
        by (auto simp: offer_to_taker departs_def contents_def shaped_def)
    next
      case Nil
      then show ?thesis
      proof (cases "full q")
        case False
        with Nil assms open' not_full_no_offerers [OF sh] show ?thesis
          by (auto simp: offer_with_room departs_def contents_def)
      next
        case True
        then obtain p x xs where "policy q = Some p" "items q = x # xs"
          using full_has_policy [OF sh] full_has_items [OF sh] by (auto simp: neq_Nil_conv)
        moreover have "p \<noteq> BackPressure \<Longrightarrow> offerers q = []"
          using sh calculation by (auto simp: shaped_def)
        ultimately show ?thesis
          using True Nil assms open'
          by (cases p) (auto simp: offer_full departs_def contents_def)
      qed
    qed
  qed
qed

lemma taken_contents:
  assumes "queue_inv q" "take_value q = (r, q')"
  shows "taken r @ contents q' = contents q"
  using take_value_cases [OF assms(1)] assms(2)
  by (cases "contents q") (auto split: if_splits)

lemma drained_contents:
  assumes "queue_inv q" "drain_up_to limit batch q = (batch', q')"
  shows "drop (length batch) batch' @ contents q' = contents q"
  using drain_contents [OF assms(1), of limit batch] assms(2) by simp

lemma dropped_waiter_contents:
  assumes "waiting q"
  shows "mset (map snd (offerers q)) =
    mset (map snd (drop_waiter w (offerers q))) + mset (map snd (filter (\<lambda>x. fst x = w) (offerers q)))"
proof -
  have "drop_waiter w (offerers q) = filter (\<lambda>x. \<not> fst x = w) (offerers q)"
    using assms by (simp add: waiting_def drop_waiter_filter)
  moreover have "mset xs = mset (filter (\<lambda>x. \<not> fst x = w) xs) + mset (filter (\<lambda>x. fst x = w) xs)"
    for xs :: "(nat \<times> 'a) list"
    by (induction xs) auto
  ultimately show ?thesis
    by (metis image_mset_union mset_map)
qed

lemma ordered_same_line:
  "ordered s \<Longrightarrow> line t = line s \<Longrightarrow> ticket t = ticket s \<Longrightarrow> refused t = refused s \<Longrightarrow> ordered t"
  by (simp add: ordered_def)

lemma ordered_bound: "ordered s \<Longrightarrow> x \<in> set (line s) \<Longrightarrow> x < ticket s"
proof -
  assume "ordered s" and x: "x \<in> set (line s)"
  then have "set_mset (mset [0..<ticket s]) = set (line s) \<union> set (refused s)"
    unfolding ordered_def by (metis set_mset_mset set_mset_union)
  with x show ?thesis by auto
qed

lemma ordered_extend:
  assumes "ordered s" "line t = line s @ (if b then [] else [ticket s])"
    "ticket t = Suc (ticket s)" "refused t = refused s @ (if b then [ticket s] else [])"
  shows "ordered t"
proof -
  have "sorted_wrt (<) (line s @ [ticket s])"
    using assms(1) ordered_bound [of s] by (simp add: ordered_def sorted_wrt_append)
  then show ?thesis
    using assms by (cases b) (simp_all add: ordered_def)
qed

lemma sorted_wrt_drop:
  fixes xs :: "nat list"
  shows "sorted_wrt (<) (xs @ map f ws) \<Longrightarrow> sorted_wrt (<) (xs @ map f (filter P ws))"
  by (auto simp: sorted_wrt_append sorted_wrt_map intro: sorted_wrt_filter)

lemma ordered_truncate:
  "ordered s \<Longrightarrow> line s = line t @ rs \<Longrightarrow> ticket t = ticket s \<Longrightarrow> refused t = refused s @ rs \<Longrightarrow> ordered t"
  by (simp add: ordered_def sorted_wrt_append)

lemma ordered_step:
  assumes "queue_step s t" "queue_inv (queue s)" "ordered s"
  shows "ordered t"
  using assms
proof (induction rule: queue_step.induct)
  case (offers s v r q')
  let ?t = "(ticket s, v)"
  have "departs ?t (queue s) @ contents q' =
      contents (queue s) @ (if r = OfferReturned False False then [] else [?t])"
    by (rule departs_contents [OF offers(2) offers(1)])
  from arg_cong [OF this, of "\<lambda>xs. map fst (gone s @ xs)"] show ?case
    by (intro ordered_extend [OF offers(3), where b = "r = OfferReturned False False"])
       (simp_all add: line_def)
next
  case (takes s r q')
  from arg_cong [OF taken_contents [OF takes(2) takes(1)], of "\<lambda>xs. map fst (gone s @ xs)"]
  show ?case by (intro ordered_same_line [OF takes(3)]) (simp_all add: line_def)
next
  case (drains limit batch s batch' q')
  from arg_cong [OF drained_contents [OF drains(2) drains(1)], of "\<lambda>xs. map fst (gone s @ xs)"]
  show ?case by (intro ordered_same_line [OF drains(3)]) (simp_all add: line_def)
next
  case (shuts_down s ts os q')
  then show ?case
    by (intro ordered_truncate [OF shuts_down(3), where
            rs = "if closed (queue s) then [] else map (fst \<circ> snd) (offerers (queue s))"])
       (auto simp: begin_shutdown_def line_def contents_def split: if_splits)
next
  case (closes_taker s w ws)
  show ?case
    by (rule ordered_same_line [OF closes_taker(3)]) (auto simp: line_def contents_def close_taker_def)
next
  case (closes_offerer s w ws)
  show ?case
    by (rule ordered_same_line [OF closes_offerer(4)]) (auto simp: line_def contents_def close_offerer_def)
next
  case (receives_room w s r q')
  show ?case
    by (rule ordered_same_line [OF receives_room(4)])
       (use receives_room(2) in \<open>auto simp: line_def contents_def room_received_def split: received.splits prod.splits\<close>)
next
  case (abandons_room w s q')
  then have wt: "waiting (queue s)" and q': "q' = queue s\<lparr>offerers := drop_waiter w (offerers (queue s))\<rparr>"
    by (auto simp: queue_inv_def abandon_offerer_def split: if_splits)
  have "drop_waiter w (offerers (queue s)) = filter (\<lambda>x. fst x \<noteq> w) (offerers (queue s))"
    using wt by (simp add: waiting_def drop_waiter_filter)
  then have "sorted_wrt (<) (map fst (gone s @ contents q'))"
    using abandons_room(4) sorted_wrt_drop
      [of "map fst (gone s @ items (queue s))" "fst \<circ> snd" "offerers (queue s)" "\<lambda>x. fst x \<noteq> w"]
    unfolding ordered_def line_def q' by (simp add: contents_def)
  moreover have "mset [0..<ticket s] =
      mset (map fst (gone s @ contents q')) +
      mset (refused s @ map (fst \<circ> snd) (filter (\<lambda>x. fst x = w) (offerers (queue s))))"
    using abandons_room(4) arg_cong [OF dropped_waiter_contents [OF wt, of w], of "image_mset fst"]
    unfolding ordered_def line_def q'
    by (simp add: contents_def image_mset.compositionality)
  ultimately show ?case by (simp add: ordered_def line_def)
next
  case (receives_value w s r q')
  show ?case
    by (rule ordered_same_line [OF receives_value(4)])
       (use receives_value(2) in \<open>auto simp: line_def contents_def value_received_def split: received.splits prod.splits\<close>)
next
  case (abandons_value w s q')
  show ?case
    by (rule ordered_same_line [OF abandons_value(4)])
       (use abandons_value(2) in \<open>auto simp: line_def contents_def abandon_taker_def split: if_splits\<close>)
qed

subsection \<open>The waiters\<close>

text \<open>
  One side of the queue: \<open>W\<close> the waiters in the queue, \<open>P\<close> the goroutines parked on a
  waiter, \<open>C\<close> the waiters a shutdown took over and will close. A parked goroutine is in the queue,
  about to be closed, or has something to receive, and what a shutdown will close is still open.
\<close>

definition side :: "nat list \<Rightarrow> nat set \<Rightarrow> nat list \<Rightarrow> (nat \<Rightarrow> 'b chan) \<Rightarrow> nat \<Rightarrow> bool \<Rightarrow> bool" where
  "side W P C ch fr cl \<longleftrightarrow>
     distinct C \<and> set W \<union> set C \<subseteq> P \<and> (\<forall>w\<in>P. w < fr) \<and> (\<forall>w\<in>set C. ch w = Open [])
   \<and> (\<forall>w\<in>P. w \<in> set W \<or> w \<in> set C \<or> fst (chan_recv (ch w)) \<noteq> Blocked)
   \<and> (C \<noteq> [] \<longrightarrow> cl)"

lemma side_fresh: "side W P C ch fr cl \<Longrightarrow> fr \<le> fr' \<Longrightarrow> side W P C ch fr' cl"
  by (fastforce simp: side_def)

lemma side_send:
  "side (w # W) P C ch fr False \<Longrightarrow> ch w = Open [] \<Longrightarrow> side W P C (ch(w := chan_send (ch w) v)) fr False"
  by (auto simp: side_def)

lemma side_park:
  "side W P C ch fr False \<Longrightarrow> side (W @ [fr]) (insert fr P) C (ch(fr := Open [])) (Suc fr) False"
  by (auto simp: side_def less_Suc_eq)

lemma side_shut:
  "side W P C ch fr False \<Longrightarrow> distinct W \<Longrightarrow> \<forall>w\<in>set W. ch w = Open [] \<Longrightarrow> side [] P (C @ W) ch fr True"
  by (auto simp: side_def)

lemma side_close:
  "side W P (w # C) ch fr cl \<Longrightarrow> side W P C (ch(w := chan_close (ch w))) fr cl"
  by (auto simp: side_def)

lemma side_leave:
  "side W P C ch fr cl \<Longrightarrow> w \<notin> set W \<Longrightarrow> w \<notin> set C \<Longrightarrow> side W (P - {w}) C (ch(w := c)) fr cl"
  by (auto simp: side_def)

lemma side_abandon:
  "side W P C ch fr cl \<Longrightarrow> w \<in> set W \<Longrightarrow> cl \<longrightarrow> W = [] \<Longrightarrow> set W' = set W - {w} \<Longrightarrow>
   side W' (P - {w}) C ch fr cl"
  by (cases C) (auto simp: side_def)

lemmas side_rules = side_send side_park side_shut side_close side_leave side_abandon

definition sides :: "'a queue \<Rightarrow> nat set \<Rightarrow> nat list \<Rightarrow> nat set \<Rightarrow> nat list \<Rightarrow> bool" where
  "sides q Pt Ct Po Co \<longleftrightarrow>
     side (takers q) Pt Ct (ready q) (fresh q) (closed q)
   \<and> side (map fst (offerers q)) Po Co (admission q) (fresh q) (closed q)"

definition sys_inv :: "'v qsys \<Rightarrow> bool" where
  "sys_inv s \<longleftrightarrow>
     queue_inv (queue s)
   \<and> sides (queue s) (parked_takers s) (closing_takers s) (parked_offerers s) (closing_offerers s)"

lemma sides_dequeue:
  assumes "queue_inv q" "sides q Pt Ct Po Co" "dequeue q = (r, q')"
  shows "sides q' Pt Ct Po Co"
proof (cases "items q = [] \<or> offerers q = []")
  case True
  with assms show ?thesis
    by (auto simp: dequeue_def admit_one_offerer_def sides_def split: list.splits)
next
  case False
  then obtain v vs w u ws where q: "items q = v # vs" "offerers q = (w, u) # ws"
    by (auto simp: neq_Nil_conv)
  then have "\<not> closed q" "admission q w = Open []"
    using assms(1) by (auto simp: queue_inv_def shaped_def waiting_def)
  then show ?thesis
    using assms q side_send [of w "map fst ws" Po Co "admission q" "fresh q" True]
    by (auto simp: dequeue_def admit_one_offerer_def sides_def)
qed

lemma sides_drain:
  "queue_inv q \<Longrightarrow> sides q Pt Ct Po Co \<Longrightarrow> sides (snd (drain_up_to limit batch q)) Pt Ct Po Co"
proof (induction limit batch q rule: drain_up_to.induct)
  case (1 limit batch q)
  then show ?case
    using queue_inv_dequeue [of q] sides_dequeue [of q Pt Ct Po Co]
    by (subst drain_up_to.simps) (auto split: option.splits prod.splits)
qed

lemma sides_take_value:
  assumes "queue_inv q" "sides q Pt Ct Po Co" "take_value q = (r, q')"
  shows "sides q' (Pt \<union> taker_parked_on r) Ct Po Co"
proof (cases "dequeue q")
  case (Pair x q1)
  show ?thesis
  proof (cases x)
    case (Some v)
    with Pair assms show ?thesis by (auto simp: take_value_def intro: sides_dequeue)
  next
    case None
    with Pair assms show ?thesis
      by (auto simp: take_value_def sides_def side_park intro: side_fresh split: if_splits)
  qed
qed

lemma sides_offer:
  assumes "queue_inv q" "sides q Pt Ct Po Co" "offer v q = (r, q')"
  shows "sides q' Pt Ct (Po \<union> parked_on r) Co"
proof (cases "closed q")
  case True
  with assms show ?thesis by (auto simp: offer_closed)
next
  case open': False
  show ?thesis
  proof (cases "takers q")
    case (Cons t ts)
    then have "ready q t = Open []"
      using assms(1) by (auto simp: queue_inv_def waiting_def)
    with Cons assms open' show ?thesis
      using side_send [of t ts Pt Ct "ready q" "fresh q" v]
      by (auto simp: offer_to_taker sides_def)
  next
    case Nil
    show ?thesis
    proof (cases "full q")
      case False
      with Nil assms open' show ?thesis by (auto simp: offer_with_room sides_def)
    next
      case True
      then obtain p where "policy q = Some p"
        using assms(1) full_has_policy by (auto simp: queue_inv_def)
      with Nil True assms open' show ?thesis
        by (cases p) (auto simp: offer_full sides_def side_park intro: side_fresh)
    qed
  qed
qed


lemma sides_close_taker:
  assumes "queue_inv q" "sides q Pt (w # Ct) Po Co"
  shows "queue_inv (close_taker w q) \<and> sides (close_taker w q) Pt Ct Po Co"
proof -
  have "ready q w = Open []" "\<forall>x\<in>set (takers q). x \<noteq> w"
    using assms by (auto simp: sides_def side_def queue_inv_def shaped_def)
  then show ?thesis
    using assms side_close [of "takers q" Pt w Ct "ready q" "fresh q" "closed q"]
    by (simp add: queue_inv_def shaped_def waiting_def sides_def close_taker_def)
qed

lemma sides_close_offerer:
  assumes "queue_inv q" "sides q Pt Ct Po (w # Co)"
  shows "queue_inv (close_offerer w q) \<and> sides (close_offerer w q) Pt Ct Po Co"
proof -
  have "admission q w = Open []" "\<forall>x\<in>set (offerers q). fst x \<noteq> w"
    using assms by (auto simp: sides_def side_def queue_inv_def shaped_def)
  then show ?thesis
    using assms side_close [of "map fst (offerers q)" Po w Co "admission q" "fresh q" "closed q"]
    by (simp add: queue_inv_def shaped_def waiting_def sides_def close_offerer_def)
qed

lemma sides_room_received:
  assumes "queue_inv q" "sides q Pt Ct Po Co" "room_received w q = Some (r, q')"
  shows "queue_inv q' \<and> sides q' Pt Ct (Po - {w}) Co"
proof -
  obtain c where rc: "fst (chan_recv (admission q w)) \<noteq> Blocked" "chan_recv (admission q w) = (fst (chan_recv (admission q w)), c)"
    and q': "q' = q\<lparr>admission := (admission q)(w := c)\<rparr>"
    using assms(3) by (auto simp: room_received_def split: prod.splits received.splits)
  then have n: "w \<notin> fst ` set (offerers q)" "w \<notin> set Co" "c \<noteq> Faulty"
    using assms by (cases "admission q w" rule: chan_recv.cases; force simp: queue_inv_def waiting_def sides_def side_def)+
  then show ?thesis
    using assms side_leave [of "map fst (offerers q)" Po Co "admission q" "fresh q" "closed q" w c]
    unfolding q' by (auto simp: queue_inv_def shaped_def waiting_def sides_def)
qed

lemma sides_value_received:
  assumes "queue_inv q" "sides q Pt Ct Po Co" "value_received w q = Some (r, q')"
  shows "queue_inv q' \<and> sides q' (Pt - {w}) Ct Po Co"
proof -
  obtain c where rc: "fst (chan_recv (ready q w)) \<noteq> Blocked" "chan_recv (ready q w) = (fst (chan_recv (ready q w)), c)"
    and q': "q' = q\<lparr>ready := (ready q)(w := c)\<rparr>"
    using assms(3) by (auto simp: value_received_def split: prod.splits received.splits)
  then have n: "w \<notin> set (takers q)" "w \<notin> set Ct" "c \<noteq> Faulty"
    using assms by (cases "ready q w" rule: chan_recv.cases; force simp: queue_inv_def waiting_def sides_def side_def)+
  then show ?thesis
    using assms side_leave [of "takers q" Pt Ct "ready q" "fresh q" "closed q" w c]
    unfolding q' by (auto simp: queue_inv_def shaped_def waiting_def sides_def)
qed

lemma sides_abandon_taker:
  assumes "queue_inv q" "sides q Pt Ct Po Co" "abandon_taker w q = (True, q')"
  shows "sides q' (Pt - {w}) Ct Po Co"
proof -
  have w: "w \<in> set (takers q)" "q' = q\<lparr>takers := remove1 w (takers q)\<rparr>"
    using assms(3) by (auto simp: abandon_taker_def split: if_splits)
  have "distinct (takers q)" "closed q \<longrightarrow> takers q = []"
    using assms(1) by (auto simp: queue_inv_def waiting_def shaped_def)
  then have "set (remove1 w (takers q)) = set (takers q) - {w}" by simp
  from side_abandon [OF _ w(1) \<open>closed q \<longrightarrow> takers q = []\<close> this] assms(2) show ?thesis
    by (auto simp: sides_def w(2))
qed

lemma sides_abandon_offerer:
  assumes "queue_inv q" "sides q Pt Ct Po Co" "abandon_offerer w q = (True, q')"
  shows "sides q' Pt Ct (Po - {w}) Co"
proof -
  have w: "w \<in> set (map fst (offerers q))" "q' = q\<lparr>offerers := drop_waiter w (offerers q)\<rparr>"
    using assms(3) by (auto simp: abandon_offerer_def split: if_splits)
  have d: "distinct (map fst (offerers q))" "closed q \<longrightarrow> map fst (offerers q) = []"
    using assms(1) by (auto simp: queue_inv_def waiting_def shaped_def)
  then have "set (map fst (drop_waiter w (offerers q))) = set (map fst (offerers q)) - {w}"
    by (auto simp: map_fst_drop_waiter simp del: set_map)
  from side_abandon [OF _ w(1) d(2) this] assms(2) show ?thesis
    by (auto simp: sides_def w(2))
qed

lemma sides_begin_shutdown:
  assumes "queue_inv q" "sides q Pt Ct Po Co" "\<not> closed q"
  shows "sides (snd (begin_shutdown q)) Pt (Ct @ takers q) Po (Co @ map fst (offerers q))"
proof -
  have "\<forall>w\<in>set (map fst (offerers q)). admission q w = Open []" "\<forall>w\<in>set (takers q). ready q w = Open []"
    "distinct (map fst (offerers q))" "distinct (takers q)"
    using assms(1) by (simp_all add: queue_inv_def waiting_def)
  then show ?thesis
    using assms(2,3) by (simp add: sides_def begin_shutdown_def side_shut)
qed

lemma sys_inv_init: "queue_inv q \<Longrightarrow> takers q = [] \<Longrightarrow> offerers q = [] \<Longrightarrow> sys_inv (init_sys q)"
  by (simp add: sys_inv_def init_sys_def sides_def side_def)

lemma sys_inv_step:
  assumes "queue_step s t" "sys_inv s"
  shows "sys_inv t"
  using assms
proof (induction rule: queue_step.induct)
  case (offers s v r q')
  then show ?case
    using queue_inv_offer [of "queue s" "(ticket s, v)"] sides_offer [of "queue s"]
    by (auto simp: sys_inv_def)
next
  case (takes s r q')
  then show ?case
    using queue_inv_take_value sides_take_value by (fastforce simp: sys_inv_def)
next
  case (drains limit batch s batch' q')
  then show ?case
    using queue_inv_drain [of "queue s" limit batch] sides_drain [of "queue s" _ _ _ _ limit batch]
    by (auto simp: sys_inv_def)
next
  case (shuts_down s ts os q')
  then show ?case
    using queue_inv_begin_shutdown [of "queue s"] sides_begin_shutdown [of "queue s"]
    by (cases "closed (queue s)") (auto simp: sys_inv_def begin_shutdown_def)
next
  case (closes_taker s w ws)
  then show ?case using sides_close_taker [of "queue s"] by (auto simp: sys_inv_def)
next
  case (closes_offerer s w ws)
  then show ?case using sides_close_offerer [of "queue s"] by (auto simp: sys_inv_def)
next
  case (receives_room w s r q')
  then show ?case using sides_room_received [of "queue s" _ _ _ _ w r] by (auto simp: sys_inv_def)
next
  case (abandons_room w s q')
  then show ?case
    using queue_inv_abandon_offerer [of "queue s" w] sides_abandon_offerer [of "queue s"]
    by (auto simp: sys_inv_def)
next
  case (receives_value w s r q')
  then show ?case using sides_value_received [of "queue s" _ _ _ _ w r] by (auto simp: sys_inv_def)
next
  case (abandons_value w s q')
  then show ?case
    using queue_inv_abandon_taker [of "queue s" w] sides_abandon_taker [of "queue s"]
    by (auto simp: sys_inv_def)
qed

lemma reachable_inv: "reachable s \<Longrightarrow> sys_inv s \<and> ordered s"
proof (induction rule: reachable.induct)
  case (bounded cap pol)
  show ?case
    by (intro conjI sys_inv_init queue_inv_new)
       (simp_all add: new_queue_def init_sys_def ordered_def line_def contents_def)
next
  case unbounded
  show ?case
    by (intro conjI sys_inv_init queue_inv_new_unbounded)
       (simp_all add: new_unbounded_queue_def init_sys_def ordered_def line_def contents_def)
next
  case (step s t)
  then have "queue_inv (queue s)" by (simp add: sys_inv_def)
  with step show ?case using sys_inv_step ordered_step by blast
qed

text \<open>A queue of capacity one after two offers: the first value is queued, the second offerer parked.\<close>

definition two_offers :: "char qsys" where
  "two_offers =
     (init_sys ((new_queue 1 BackPressure)
        \<lparr>items := [(0, CHR ''a'')], offerers := [(0, (1, CHR ''b''))], fresh := 1\<rparr>))
     \<lparr>ticket := Suc 1, parked_offerers := {0}\<rparr>"

lemma two_offers_reachable: "reachable two_offers"
proof -
  let ?s0 = "init_sys (new_queue 1 BackPressure) :: char qsys"
  let ?q1 = "(new_queue 1 BackPressure)\<lparr>items := [(0, CHR ''a'')]\<rparr> :: (nat \<times> char) queue"
  let ?s1 = "?s0\<lparr>queue := ?q1, ticket := 1\<rparr>"
  have "queue_step ?s0 ?s1"
    using queue_step.offers [of ?s0 "CHR ''a''" "OfferReturned True False" ?q1]
    by (simp add: offer_with_room full_def departs_def new_queue_def init_sys_def)
  then have "reachable ?s1"
    by (rule reachable.step [OF reachable.bounded])
  moreover have "queue_step ?s1 two_offers"
    using queue_step.offers [of ?s1 "CHR ''b''" "OfferParked 0"]
    by (simp add: offer_full full_def departs_def new_queue_def init_sys_def two_offers_def fun_upd_def)
  ultimately show ?thesis by (rule reachable.step)
qed

text \<open>
  C5: whatever the interleaving of offers, takes, batches, cancellations and shutdowns, the
  values leave in the order they were offered, and every value offered is accounted for exactly
  once: it has left at the front, is still in the queue or parked at it, or was refused.
\<close>

theorem queue_keeps_offer_order:
  assumes "reachable s"
  shows "sorted_wrt (<) (map fst (gone s @ items (queue s) @ map snd (offerers (queue s))))
    \<and> mset [0..<ticket s] =
        mset (map fst (gone s @ items (queue s) @ map snd (offerers (queue s)))) + mset (refused s)"
  using reachable_inv [OF assms] by (simp add: ordered_def line_def contents_def)

theorem queue_keeps_offer_order_witness:
  "sorted_wrt (<) [0, 1 :: nat] \<and> map fst (items (queue two_offers) @ map snd (offerers (queue two_offers))) = [0, 1]"
  using queue_keeps_offer_order [OF two_offers_reachable]
  by (simp add: two_offers_def init_sys_def new_queue_def)

text \<open>
  C12: no wake-up is lost and no channel operation goes wrong. A goroutine parked on a queue can
  always either withdraw (it is still in the queue), or receive without blocking, or a shutdown in
  progress is going to close its channel; no send ever blocks or hits a closed channel, and no
  channel is closed twice.
\<close>

theorem queue_wakes_every_waiter:
  assumes "reachable s"
  shows "queue_inv (queue s)
    \<and> (\<forall>w\<in>parked_takers s.
         w \<in> set (closing_takers s) \<or> value_cancelled w (queue s) \<noteq> None)
    \<and> (\<forall>w\<in>parked_offerers s.
         w \<in> set (closing_offerers s) \<or> room_cancelled w (queue s) \<noteq> None)
    \<and> (\<forall>w. ready (queue s) w \<noteq> Faulty \<and> admission (queue s) w \<noteq> Faulty)"
proof (intro conjI)
  show inv: "queue_inv (queue s)"
    using reachable_inv [OF assms] by (simp add: sys_inv_def)
  then show "\<forall>w. ready (queue s) w \<noteq> Faulty \<and> admission (queue s) w \<noteq> Faulty"
    by (simp add: queue_inv_def waiting_def)
  show "\<forall>w\<in>parked_takers s. w \<in> set (closing_takers s) \<or> value_cancelled w (queue s) \<noteq> None"
    using reachable_inv [OF assms]
    by (fastforce simp: sys_inv_def sides_def side_def value_cancelled_def abandon_taker_def
        value_received_def split: prod.splits received.splits)
  show "\<forall>w\<in>parked_offerers s. w \<in> set (closing_offerers s) \<or> room_cancelled w (queue s) \<noteq> None"
    using reachable_inv [OF assms]
    by (fastforce simp: sys_inv_def sides_def side_def room_cancelled_def abandon_offerer_def
        room_received_def split: prod.splits received.splits)
qed

theorem queue_wakes_every_waiter_witness:
  "0 \<in> parked_offerers two_offers \<and> room_received 0 (queue two_offers) = None
   \<and> room_cancelled 0 (queue two_offers) \<noteq> None"
  using queue_wakes_every_waiter [OF two_offers_reachable]
  by (simp add: two_offers_def init_sys_def new_queue_def room_received_def)

end
