(* ===== verification/Broadcast_Hub.thy ===== *)
theory Broadcast_Hub
  imports Work_Queue
begin

section \<open>The hub\<close>

text \<open>
  \<^verbatim>\<open>effect/internal/lifetime/hub.go\<close>. A hub is a map from tokens to inboxes, each a queue
  of its own. An inbox is a pointer shared by the hub, its subscriber and publishers that took a
  snapshot of the map, so the queues live in a store addressed by token, which outlives the
  subscription. A publisher that parks at an inbox is a result carrying the inboxes still to do.
\<close>

subsection \<open>What the hub needs of an inbox\<close>

text \<open>
  The contract: offering and shutting down keep the inbox sound, a shut-down inbox declines every
  offer without changing, and shutting down is final.
\<close>

locale inbox_contract =
  fixes offer_to :: "'a \<Rightarrow> 'q \<Rightarrow> offer_result \<times> 'q"
    and close_inbox :: "'q \<Rightarrow> 'q"
    and sound :: "'q \<Rightarrow> bool"
    and ended :: "'q \<Rightarrow> bool"
  assumes offer_sound: "sound q \<Longrightarrow> sound (snd (offer_to v q))"
    and offer_no_panic: "sound q \<Longrightarrow> fst (offer_to v q) \<noteq> OfferPanicked"
    and offer_ended: "ended q \<Longrightarrow> offer_to v q = (OfferReturned False False, q)"
    and offer_keeps_open: "ended (snd (offer_to v q)) = ended q"
    and offer_not_interrupted: "fst (offer_to v q) = OfferReturned b i \<Longrightarrow> \<not> i"
    and close_sound: "sound q \<Longrightarrow> sound (close_inbox q)"
    and close_ends: "ended (close_inbox q)"
begin

definition close_at :: "'k \<Rightarrow> ('k \<Rightarrow> 'q) \<Rightarrow> 'k \<Rightarrow> 'q" where
  "close_at t st = st(t := close_inbox (st t))"

lemma close_each:
  "distinct ts \<Longrightarrow> fold close_at ts st k = (if k \<in> set ts then close_inbox (st k) else st k)"
  by (induction ts arbitrary: st) (auto simp: close_at_def)

lemma close_each_sound: "\<forall>k. sound (st k) \<Longrightarrow> \<forall>k. sound (fold close_at ts st k)"
  by (induction ts arbitrary: st) (auto simp: close_at_def close_sound)

lemma close_each_ends: "k \<in> set ts \<or> ended (st k) \<Longrightarrow> ended (fold close_at ts st k)"
proof (induction ts arbitrary: st)
  case Nil
  then show ?case by simp
next
  case (Cons t ts)
  have "k \<in> set ts \<or> ended (close_at t st k)"
    using Cons.prems by (auto simp: close_at_def close_ends)
  then show ?case using Cons.IH by simp
qed

end

subsection \<open>A queue is an inbox\<close>

lemma fold_close_taker:
  "distinct ts \<Longrightarrow> \<forall>t\<in>set ts. ready q t = Open [] \<Longrightarrow> set ts \<inter> set (takers q) = {} \<Longrightarrow> queue_inv q \<Longrightarrow>
   queue_inv (fold close_taker ts q) \<and> closed (fold close_taker ts q) = closed q
   \<and> items (fold close_taker ts q) = items q
   \<and> offerers (fold close_taker ts q) = offerers q \<and> admission (fold close_taker ts q) = admission q"
proof (induction ts arbitrary: q)
  case Nil
  then show ?case by simp
next
  case (Cons t ts)
  have "queue_inv (close_taker t q)"
    using Cons.prems by (auto simp: queue_inv_def shaped_def waiting_def close_taker_def)
  moreover have "set ts \<inter> set (takers (close_taker t q)) = {}"
    "\<forall>x\<in>set ts. ready (close_taker t q) x = Open []"
    using Cons.prems by (auto simp: close_taker_def)
  ultimately show ?case
    using Cons.prems Cons.IH [of "close_taker t q"] by (simp add: close_taker_def)
qed

lemma fold_close_offerer:
  "distinct ws \<Longrightarrow> \<forall>w\<in>set ws. admission q w = Open [] \<Longrightarrow> offerers q = [] \<Longrightarrow> queue_inv q \<Longrightarrow>
   queue_inv (fold close_offerer ws q) \<and> closed (fold close_offerer ws q) = closed q
   \<and> items (fold close_offerer ws q) = items q"
proof (induction ws arbitrary: q)
  case Nil
  then show ?case by simp
next
  case (Cons w ws)
  have "queue_inv (close_offerer w q)"
    using Cons.prems by (auto simp: queue_inv_def shaped_def waiting_def close_offerer_def)
  moreover have "\<forall>x\<in>set ws. admission (close_offerer w q) x = Open []" "offerers (close_offerer w q) = []"
    using Cons.prems by (auto simp: close_offerer_def)
  ultimately show ?case
    using Cons.prems Cons.IH [of "close_offerer w q"] by (simp add: close_offerer_def)
qed

lemma shutdown_inv:
  assumes "queue_inv q"
  shows "queue_inv (shutdown q) \<and> closed (shutdown q) \<and> items (shutdown q) = items q"
proof (cases "closed q")
  case True
  then show ?thesis using assms by (simp add: shutdown_def begin_shutdown_def)
next
  case False
  let ?q = "q\<lparr>closed := True, takers := [], offerers := []\<rparr>"
  have inv: "queue_inv ?q"
    using queue_inv_begin_shutdown [OF assms] False by (simp add: begin_shutdown_def)
  have w: "distinct (takers q)" "distinct (map fst (offerers q))"
    "\<forall>t\<in>set (takers q). ready q t = Open []" "\<forall>w\<in>set (map fst (offerers q)). admission q w = Open []"
    using assms by (simp_all add: queue_inv_def waiting_def)
  have t: "queue_inv (fold close_taker (takers q) ?q)" "closed (fold close_taker (takers q) ?q)"
    "items (fold close_taker (takers q) ?q) = items q"
    "offerers (fold close_taker (takers q) ?q) = []"
    "admission (fold close_taker (takers q) ?q) = admission q"
    using fold_close_taker [of "takers q" ?q] w(1,3) inv by auto
  have "\<forall>w\<in>set (map fst (offerers q)). admission (fold close_taker (takers q) ?q) w = Open []"
    unfolding t(5) by (rule w(4))
  from fold_close_offerer [OF w(2) this t(4) t(1)] t show ?thesis
    using False by (simp add: shutdown_def begin_shutdown_def)
qed

lemma closed_fold_close:
  "closed (fold close_offerer os (fold close_taker ts q)) = closed q"
proof -
  have "closed (fold close_taker ts q) = closed q" for q :: "'a queue"
    by (induction ts arbitrary: q) (simp_all add: close_taker_def)
  moreover have "closed (fold close_offerer os q) = closed q" for q :: "'a queue"
    by (induction os arbitrary: q) (simp_all add: close_offerer_def)
  ultimately show ?thesis by simp
qed

lemma closed_offer: "closed (snd (offer v q)) = closed q"
  by (cases "policy q"; cases "the (policy q)"; cases "takers q")
     (auto simp: offer_def hand_off_def enqueue_def)

lemma offer_returned_interrupted: "fst (offer v q) = OfferReturned b i \<Longrightarrow> \<not> i"
  by (cases "policy q"; cases "the (policy q)"; cases "takers q")
     (auto simp: offer_def hand_off_def enqueue_def split: if_splits)

interpretation inbox: inbox_contract offer shutdown queue_inv closed
proof unfold_locales
  show "queue_inv (snd (offer v q))" if "queue_inv q" for v and q :: "'a queue"
    by (rule queue_inv_offer [OF that])
  show "fst (offer v q) \<noteq> OfferPanicked" if "queue_inv q" for v and q :: "'a queue"
    by (rule offer_no_panic [OF that])
  show "offer v q = (OfferReturned False False, q)" if "closed q" for v and q :: "'a queue"
    by (rule offer_closed [OF that])
  show "closed (snd (offer v q)) = closed q" for v and q :: "'a queue"
    by (rule closed_offer)
  show "\<not> i" if "fst (offer v q) = OfferReturned b i" for v b i and q :: "'a queue"
    by (rule offer_returned_interrupted [OF that])
  show "queue_inv (shutdown q)" if "queue_inv q" for q :: "'a queue"
    using shutdown_inv [OF that] by simp
  show "closed (shutdown q)" for q :: "'a queue"
    by (auto simp: shutdown_def begin_shutdown_def closed_fold_close)
qed

subsection \<open>The hub's operations\<close>

record 'a hub =
  store :: "nat \<Rightarrow> 'a queue"
  inboxes :: "nat set"
  next_id :: nat
  inbox_capacity :: int
  inbox_policy :: full_queue_policy
  hub_closed :: bool

definition new_hub :: "int \<Rightarrow> full_queue_policy \<Rightarrow> 'a hub" where
  "new_hub cap pol =
     \<lparr>store = (\<lambda>_. new_queue cap pol), inboxes = {}, next_id = 0, inbox_capacity = cap,
      inbox_policy = pol, hub_closed = False\<rparr>"

text \<open>\<open>None\<close> is a refused subscription; the inbox of a token is \<open>store h token\<close>.\<close>

definition subscribe :: "'a hub \<Rightarrow> nat option \<times> 'a hub" where
  "subscribe h =
     (if hub_closed h then (None, h)
      else let token = Suc (next_id h) in
        (Some token,
         h\<lparr>next_id := token,
           store := (store h)(token := new_queue (inbox_capacity h) (inbox_policy h)),
           inboxes := insert token (inboxes h)\<rparr>))"

definition unsubscribe :: "nat \<Rightarrow> 'a hub \<Rightarrow> 'a hub" where
  "unsubscribe token h =
     (let subscribed = token \<in> inboxes h; h' = h\<lparr>inboxes := inboxes h - {token}\<rparr>
      in if subscribed then h'\<lparr>store := (store h')(token := shutdown (store h' token))\<rparr> else h')"

definition current_inboxes :: "'a hub \<Rightarrow> nat list option" where
  "current_inboxes h = (if hub_closed h then None else Some (sorted_list_of_set (inboxes h)))"

text \<open>
  \<open>Published accepted interrupted\<close> are the two results; a publisher parked on waiter \<open>w\<close> of
  inbox \<open>t\<close> goes on with the inboxes \<open>rest\<close> when it is woken.
\<close>

datatype publish_result = Published bool bool | PublishParked nat nat "nat list" | PublishPanicked

fun publish_to :: "nat list \<Rightarrow> 'a \<Rightarrow> 'a hub \<Rightarrow> publish_result \<times> 'a hub" where
  "publish_to [] v h = (Published True False, h)"
| "publish_to (t # ts) v h =
     (case offer v (store h t) of
        (OfferReturned _ interrupted, q) \<Rightarrow>
          if interrupted then (Published False True, h\<lparr>store := (store h)(t := q)\<rparr>)
          else publish_to ts v (h\<lparr>store := (store h)(t := q)\<rparr>)
      | (OfferParked w, q) \<Rightarrow> (PublishParked t w ts, h\<lparr>store := (store h)(t := q)\<rparr>)
      | (OfferPanicked, q) \<Rightarrow> (PublishPanicked, h\<lparr>store := (store h)(t := q)\<rparr>))"

definition publish :: "'a \<Rightarrow> 'a hub \<Rightarrow> publish_result \<times> 'a hub" where
  "publish v h =
     (case current_inboxes h of
        None \<Rightarrow> (Published False False, h)
      | Some ts \<Rightarrow> publish_to ts v h)"

text \<open>A parked publisher wakes with the (accepted, interrupted) its offer returned.\<close>

definition resume_publish :: "bool \<times> bool \<Rightarrow> nat list \<Rightarrow> 'a \<Rightarrow> 'a hub \<Rightarrow> publish_result \<times> 'a hub" where
  "resume_publish woken rest v h =
     (if snd woken then (Published False True, h) else publish_to rest v h)"

text \<open>
  \<open>Shutdown\<close> ranges over the map, whose order is unspecified: \<open>order\<close> is any enumeration.
\<close>

definition hub_shutdown_in :: "nat list \<Rightarrow> 'a hub \<Rightarrow> 'a hub" where
  "hub_shutdown_in order h =
     (if hub_closed h then h
      else h\<lparr>hub_closed := True, inboxes := {}, store := fold inbox.close_at order (store h)\<rparr>)"

definition hub_shutdown :: "'a hub \<Rightarrow> 'a hub" where
  "hub_shutdown h = hub_shutdown_in (sorted_list_of_set (inboxes h)) h"

definition subscribers :: "'a hub \<Rightarrow> nat" where
  "subscribers h = card (inboxes h)"

subsection \<open>Correctness\<close>

text \<open>
  Every inbox ever made is sound; the subscribed ones are exactly those still open, and none
  stays subscribed to a shut-down hub.
\<close>

definition hub_inv :: "'a hub \<Rightarrow> bool" where
  "hub_inv h \<longleftrightarrow>
     (\<forall>t. queue_inv (store h t))
   \<and> inboxes h = {t \<in> {1..next_id h}. \<not> closed (store h t)}
   \<and> (hub_closed h \<longrightarrow> inboxes h = {})"

lemma hub_inv_new: "hub_inv (new_hub cap pol)"
  by (simp add: hub_inv_def new_hub_def queue_inv_new)

lemma hub_inv_subscribe:
  assumes "hub_inv h"
  shows "hub_inv (snd (subscribe h))"
proof (cases "hub_closed h")
  case True
  with assms show ?thesis by (simp add: subscribe_def)
next
  case False
  have "\<not> closed (new_queue c p)" for c p by (simp add: new_queue_def)
  then have "insert (Suc (next_id h)) (inboxes h) =
      {t \<in> {1..Suc (next_id h)}. \<not> closed (((store h)(Suc (next_id h) := new_queue c p)) t)}" for c p
    using assms by (force simp: hub_inv_def)
  then show ?thesis
    using assms False by (simp add: hub_inv_def subscribe_def Let_def queue_inv_new)
qed

lemma hub_inv_unsubscribe:
  assumes "hub_inv h"
  shows "hub_inv (unsubscribe t h)"
proof (cases "t \<in> inboxes h")
  case True
  have "inboxes h - {t} = {k \<in> {1..next_id h}. \<not> closed (((store h)(t := shutdown (store h t))) k)}"
    using assms inbox.close_ends by (force simp: hub_inv_def)
  moreover have "hub_closed h \<Longrightarrow> False" using True assms by (auto simp: hub_inv_def)
  moreover have "queue_inv (((store h)(t := shutdown (store h t))) k)" for k
    using assms by (simp add: hub_inv_def inbox.close_sound)
  ultimately show ?thesis
    using True by (auto simp: hub_inv_def unsubscribe_def Let_def simp del: fun_upd_apply)
next
  case False
  with assms show ?thesis by (auto simp: hub_inv_def unsubscribe_def Let_def)
qed

lemma hub_inv_shutdown:
  assumes "hub_inv h" "set order = inboxes h"
  shows "hub_inv (hub_shutdown_in order h)"
proof (cases "hub_closed h")
  case True
  with assms show ?thesis by (simp add: hub_shutdown_in_def)
next
  case False
  have "closed (fold inbox.close_at order (store h) t)" if "t \<in> {1..next_id h}" for t
    using that assms by (intro inbox.close_each_ends) (auto simp: hub_inv_def)
  then show ?thesis
    using assms False inbox.close_each_sound [of "store h" order]
    by (simp add: hub_inv_def hub_shutdown_in_def)
qed

lemma hub_inv_offer:
  assumes "hub_inv h"
  shows "hub_inv (h\<lparr>store := (store h)(t := snd (offer v (store h t)))\<rparr>)"
proof -
  have "closed (((store h)(t := snd (offer v (store h t)))) k) = closed (store h k)" for k
    by (simp add: inbox.offer_keeps_open)
  then have "{k \<in> {1..next_id h}. \<not> closed (((store h)(t := snd (offer v (store h t)))) k)} = inboxes h"
    using assms by (simp add: hub_inv_def)
  moreover have "queue_inv (((store h)(t := snd (offer v (store h t)))) k)" for k
    using assms by (simp add: hub_inv_def inbox.offer_sound)
  ultimately show ?thesis
    using assms by (auto simp: hub_inv_def simp del: fun_upd_apply)
qed

lemma publish_to_cons:
  assumes "queue_inv (store h t)"
  shows "publish_to (t # ts) v h =
    (case fst (offer v (store h t)) of
       OfferParked w \<Rightarrow> (PublishParked t w ts, h\<lparr>store := (store h)(t := snd (offer v (store h t)))\<rparr>)
     | _ \<Rightarrow> publish_to ts v (h\<lparr>store := (store h)(t := snd (offer v (store h t)))\<rparr>))"
proof (cases "offer v (store h t)")
  case (Pair r q)
  then show ?thesis
    using inbox.offer_no_panic [OF assms, of v] offer_returned_interrupted [of v "store h t"]
    by (cases r) auto
qed

lemma hub_inv_publish_to: "hub_inv h \<Longrightarrow> hub_inv (snd (publish_to ts v h))"
proof (induction ts arbitrary: h)
  case Nil
  then show ?case by simp
next
  case (Cons t ts)
  then have "queue_inv (store h t)" by (simp add: hub_inv_def)
  then show ?case
    using Cons hub_inv_offer [OF Cons.prems, of t v]
    by (simp add: publish_to_cons del: publish_to.simps split: offer_result.splits)
qed

lemma publish_to_effect:
  assumes "hub_inv h" "distinct ts"
  shows "\<exists>done rest. ts = done @ rest
    \<and> snd (publish_to ts v h) =
        h\<lparr>store := (\<lambda>t. if t \<in> set done then snd (offer v (store h t)) else store h t)\<rparr>
    \<and> (case fst (publish_to ts v h) of
         Published a i \<Rightarrow> rest = [] \<and> a \<and> \<not> i \<and> (\<forall>t\<in>set done. \<forall>w. fst (offer v (store h t)) \<noteq> OfferParked w)
       | PublishParked t w rest' \<Rightarrow>
           rest' = rest \<and> done \<noteq> [] \<and> t = last done \<and> fst (offer v (store h t)) = OfferParked w
       | PublishPanicked \<Rightarrow> False)"
  using assms
proof (induction ts arbitrary: h)
  case Nil
  show ?case by (intro exI [of _ "[]"]) simp
next
  case (Cons t ts)
  let ?h = "h\<lparr>store := (store h)(t := snd (offer v (store h t)))\<rparr>"
  have q: "queue_inv (store h t)" using Cons.prems by (simp add: hub_inv_def)
  show ?case
  proof (cases "\<exists>w. fst (offer v (store h t)) = OfferParked w")
    case True
    then obtain w where "fst (offer v (store h t)) = OfferParked w" by blast
    then show ?thesis
      by (intro exI [of _ "[t]"] exI [of _ ts])
         (auto simp: publish_to_cons [OF q] fun_eq_iff simp del: publish_to.simps)
  next
    case False
    then have eq: "publish_to (t # ts) v h = publish_to ts v ?h"
      by (simp add: publish_to_cons [OF q] del: publish_to.simps split: offer_result.splits)
    have "hub_inv ?h" "distinct ts" using Cons.prems hub_inv_offer by auto
    from Cons.IH [OF this] obtain don rest where ih: "ts = don @ rest"
      "snd (publish_to ts v ?h) =
         ?h\<lparr>store := (\<lambda>k. if k \<in> set don then snd (offer v (store ?h k)) else store ?h k)\<rparr>"
      "case fst (publish_to ts v ?h) of
         Published a i \<Rightarrow> rest = [] \<and> a \<and> \<not> i \<and> (\<forall>k\<in>set don. \<forall>w. fst (offer v (store ?h k)) \<noteq> OfferParked w)
       | PublishParked k w rest' \<Rightarrow>
           rest' = rest \<and> don \<noteq> [] \<and> k = last don \<and> fst (offer v (store ?h k)) = OfferParked w
       | PublishPanicked \<Rightarrow> False"
      by blast
    have t: "t \<notin> set don" using Cons.prems ih(1) by auto
    then have same: "k \<in> set don \<Longrightarrow> store ?h k = store h k" for k by auto
    have "snd (publish_to (t # ts) v h) =
        h\<lparr>store := (\<lambda>k. if k \<in> set (t # don) then snd (offer v (store h k)) else store h k)\<rparr>"
      using t by (auto simp: eq ih(2) fun_eq_iff simp del: publish_to.simps)
    moreover have "case fst (publish_to (t # ts) v h) of
         Published a i \<Rightarrow> rest = [] \<and> a \<and> \<not> i \<and> (\<forall>k\<in>set (t # don). \<forall>w. fst (offer v (store h k)) \<noteq> OfferParked w)
       | PublishParked k w rest' \<Rightarrow>
           rest' = rest \<and> t # don \<noteq> [] \<and> k = last (t # don) \<and> fst (offer v (store h k)) = OfferParked w
       | PublishPanicked \<Rightarrow> False"
      using ih(3) False same t
      by (cases "fst (publish_to ts v ?h)") (auto simp: eq simp del: publish_to.simps)
    ultimately show ?thesis
      using ih(1) by (intro exI [of _ "t # don"] exI [of _ rest]) simp
  qed
qed

text \<open>
  Publishing offers the value exactly once to each subscribed inbox, in subscription order,
  and touches no other inbox; it stops only at the first inbox that makes it wait, with everything
  after that inbox untouched and still to do. A publisher that gets through reports acceptance; a
  shut-down hub refuses and delivers nothing.
\<close>

theorem publish_delivers_in_order:
  assumes "hub_inv h"
  shows "if hub_closed h then publish v h = (Published False False, h)
    else \<exists>done rest. sorted_list_of_set (inboxes h) = done @ rest
      \<and> snd (publish v h) =
          h\<lparr>store := (\<lambda>t. if t \<in> set done then snd (offer v (store h t)) else store h t)\<rparr>
      \<and> (case fst (publish v h) of
           Published a i \<Rightarrow> rest = [] \<and> a \<and> \<not> i \<and> (\<forall>t\<in>set done. \<forall>w. fst (offer v (store h t)) \<noteq> OfferParked w)
         | PublishParked t w rest' \<Rightarrow>
             rest' = rest \<and> done \<noteq> [] \<and> t = last done \<and> fst (offer v (store h t)) = OfferParked w
         | PublishPanicked \<Rightarrow> False)"
  using publish_to_effect [OF assms distinct_sorted_list_of_set]
  by (simp add: publish_def current_inboxes_def)

definition one_subscriber :: "nat hub" where
  "one_subscriber = snd (subscribe (new_hub 1 DropNewest))"

lemma one_subscriber_inv: "hub_inv one_subscriber"
  unfolding one_subscriber_def by (intro hub_inv_subscribe hub_inv_new)

lemma one_subscriber_state:
  "inboxes one_subscriber = {1}" "next_id one_subscriber = 1" "\<not> hub_closed one_subscriber"
  by (simp_all add: one_subscriber_def subscribe_def new_hub_def)

theorem publish_delivers_in_order_witness:
  "\<exists>done rest. [1] = done @ rest
     \<and> snd (publish 7 one_subscriber) = one_subscriber
         \<lparr>store := (\<lambda>t. if t \<in> set done then snd (offer 7 (store one_subscriber t)) else store one_subscriber t)\<rparr>"
  using publish_delivers_in_order [OF one_subscriber_inv, of 7] one_subscriber_state by auto

text \<open>
  Every operation keeps the hub sound: the subscribed inboxes are exactly those that are
  still open. Shutting down ends every inbox, whatever the order of the map, keeps what each has
  buffered for its subscriber to drain, and refuses publishers and subscribers from then on;
  unsubscribing ends that inbox and leaves the others alone.
\<close>

theorem hub_shutdown_ends_inboxes:
  assumes "hub_inv h" "set order = inboxes h"
  shows "hub_inv (hub_shutdown_in order h)
    \<and> (\<forall>t\<in>{1..next_id h}. closed (store (hub_shutdown_in order h) t)
         \<and> items (store (hub_shutdown_in order h) t) = items (store h t))
    \<and> publish v (hub_shutdown_in order h) = (Published False False, hub_shutdown_in order h)
    \<and> subscribe (hub_shutdown_in order h) = (None, hub_shutdown_in order h)
    \<and> (t \<in> inboxes h \<longrightarrow> closed (store (unsubscribe t h) t)
         \<and> (\<forall>k. k \<noteq> t \<longrightarrow> store (unsubscribe t h) k = store h k)
         \<and> inboxes (unsubscribe t h) = inboxes h - {t} \<and> hub_inv (unsubscribe t h))
    \<and> hub_inv (snd (subscribe h)) \<and> hub_inv (snd (publish v h))"
proof (intro conjI ballI impI allI)
  let ?h = "hub_shutdown_in order h"
  show "hub_inv ?h" by (rule hub_inv_shutdown [OF assms])
  have c: "hub_closed ?h" by (simp add: hub_shutdown_in_def)
  show "publish v ?h = (Published False False, ?h)" "subscribe ?h = (None, ?h)"
    by (simp_all add: c publish_def current_inboxes_def subscribe_def)
  fix k assume k: "k \<in> {1..next_id h}"
  show "closed (store ?h k)"
    using \<open>hub_inv ?h\<close> c k by (auto simp: hub_inv_def hub_shutdown_in_def split: if_splits)
  have "items (fold inbox.close_at ts st k) = items (st k) \<and> queue_inv (fold inbox.close_at ts st k)"
    if "\<forall>k. queue_inv (st k)" for ts and st :: "nat \<Rightarrow> 'a queue"
    using that
  proof (induction ts arbitrary: st)
    case (Cons x xs)
    then have "\<forall>k. queue_inv (inbox.close_at x st k)" "items (inbox.close_at x st k) = items (st k)"
      using shutdown_inv by (auto simp: inbox.close_at_def)
    with Cons.IH show ?case by simp
  qed simp
  then show "items (store ?h k) = items (store h k)"
    using assms by (simp add: hub_shutdown_in_def hub_inv_def)
next
  show "hub_inv (snd (subscribe h))" by (rule hub_inv_subscribe [OF assms(1)])
  show "hub_inv (snd (publish v h))"
    using hub_inv_publish_to [OF assms(1)] assms(1) by (simp add: publish_def current_inboxes_def)
  assume t: "t \<in> inboxes h"
  show "hub_inv (unsubscribe t h)" by (rule hub_inv_unsubscribe [OF assms(1)])
  show "closed (store (unsubscribe t h) t)" "inboxes (unsubscribe t h) = inboxes h - {t}"
    using t by (simp_all add: unsubscribe_def Let_def inbox.close_ends)
  show "store (unsubscribe t h) k = store h k" if "k \<noteq> t" for k
    using that by (simp add: unsubscribe_def Let_def)
qed

theorem hub_shutdown_ends_inboxes_witness:
  "closed (store (hub_shutdown_in [1] one_subscriber) 1)
   \<and> subscribe (hub_shutdown_in [1] one_subscriber) = (None, hub_shutdown_in [1] one_subscriber)"
proof -
  have "set [1] = inboxes one_subscriber" by (simp add: one_subscriber_state)
  from hub_shutdown_ends_inboxes [OF one_subscriber_inv this, of 0 1] show ?thesis
    by (simp add: one_subscriber_state)
qed

end
