(* ===== verification/Resource_Scope.thy ===== *)
theory Resource_Scope
  imports Outcome
begin

section \<open>Completions, the ledger and scopes\<close>

text \<open>
  \<^verbatim>\<open>effect/internal/lifetime/completion.go\<close>, \<^verbatim>\<open>ledger.go\<close> and \<^verbatim>\<open>scope.go\<close>, and what
  \<^verbatim>\<open>effect/scope.go\<close> and \<^verbatim>\<open>effect/internal/runtime/spawn.go\<close> build on them: a write-once
  result, the counters of live work, and the lifetime boundary that owns fibers and finalizers. The
  sections a scope runs under its mutex are functions of its state; \<open>scope_step\<close> interleaves them
  with the closing goroutine.
\<close>

subsection \<open>Completions\<close>

text \<open>\<open>result\<close> is \<open>None\<close> until \<open>done\<close> is closed.\<close>

type_synonym 'v completion = "'v exit option"

definition new_completion :: "'v completion" where
  "new_completion = None"

definition complete :: "'v exit \<Rightarrow> 'v completion \<Rightarrow> bool \<times> 'v completion" where
  "complete x c = (case c of None \<Rightarrow> (True, Some x) | Some _ \<Rightarrow> (False, c))"

definition complete_on_panic :: "'v option \<Rightarrow> string \<Rightarrow> 'v completion \<Rightarrow> 'v completion" where
  "complete_on_panic panic stack c =
     (case panic of
        Some p \<Rightarrow> snd (complete (Failed (die_cause (capture_defect p stack))) c)
      | None \<Rightarrow> c)"

definition poll :: "'v completion \<Rightarrow> 'v exit option" where
  "poll c = c"

text \<open>
  Awaiting selects between the result and the caller's cancellation; with both ready, Go may pick
  either. \<open>None\<close> is the second result being false.
\<close>

definition await_may :: "bool \<Rightarrow> 'v completion \<Rightarrow> 'v exit option \<Rightarrow> bool" where
  "await_may cancelled c answer \<longleftrightarrow>
     (case answer of Some x \<Rightarrow> c = Some x | None \<Rightarrow> cancelled)"

text \<open>
  A completion is written once: of any sequence of completions the first wins and is told so,
  every other one is refused, and whoever observes the result, however often, sees the first.
\<close>

theorem complete_first_wins:
  "foldl (\<lambda>(wins, c) x. case complete x c of (won, c') \<Rightarrow> (wins @ [won], c')) ([], new_completion) (x # xs)
     = (True # replicate (length xs) False, Some x)
   \<and> (await_may cancelled (snd (complete x new_completion)) answer \<longrightarrow>
        answer = Some x \<or> answer = None \<and> cancelled)
   \<and> complete_on_panic (Some p) stack (Some x) = Some x"
proof -
  have "foldl (\<lambda>(wins, c) x. case complete x c of (won, c') \<Rightarrow> (wins @ [won], c')) (ws, Some y) xs
      = (ws @ replicate (length xs) False, Some y)" for ws y
    by (induction xs arbitrary: ws) (simp_all add: complete_def)
  then show ?thesis
    by (auto simp: new_completion_def complete_def complete_on_panic_def await_may_def split: option.splits)
qed

theorem complete_first_wins_witness:
  "await_may False (snd (complete (Succeeded (1 :: int)) new_completion)) (Some (Succeeded 1))
   \<and> foldl (\<lambda>(wins, c) x. case complete x c of (won, c') \<Rightarrow> (wins @ [won], c'))
       ([], new_completion) [Succeeded (1 :: int), Succeeded 2] = ([True, False], Some (Succeeded 1))"
  using complete_first_wins [of "Succeeded (1 :: int)" "[Succeeded 2]" False "Some (Succeeded 1)" 0 "[]"]
  by (simp add: await_may_def complete_def new_completion_def)

subsection \<open>The ledger\<close>

record ledger =
  fiber_starts :: int
  fiber_completions :: int
  acquisitions :: int
  releases :: int

record live_work =
  live_fibers :: int
  live_resources :: int

definition record_fiber_start :: "ledger option \<Rightarrow> ledger option" where
  "record_fiber_start l = map_option (\<lambda>l. l\<lparr>fiber_starts := fiber_starts l + 1\<rparr>) l"

definition record_fiber_completion :: "ledger option \<Rightarrow> ledger option" where
  "record_fiber_completion l = map_option (\<lambda>l. l\<lparr>fiber_completions := fiber_completions l + 1\<rparr>) l"

definition record_acquisition :: "ledger option \<Rightarrow> ledger option" where
  "record_acquisition l = map_option (\<lambda>l. l\<lparr>acquisitions := acquisitions l + 1\<rparr>) l"

definition record_release :: "ledger option \<Rightarrow> ledger option" where
  "record_release l = map_option (\<lambda>l. l\<lparr>releases := releases l + 1\<rparr>) l"

definition live :: "ledger option \<Rightarrow> live_work" where
  "live l =
     (case l of
        None \<Rightarrow> \<lparr>live_fibers = 0, live_resources = 0\<rparr>
      | Some l \<Rightarrow> \<lparr>live_fibers = fiber_starts l - fiber_completions l,
                  live_resources = acquisitions l - releases l\<rparr>)"

definition live_is_empty :: "live_work \<Rightarrow> bool" where
  "live_is_empty work \<longleftrightarrow> live_fibers work = 0 \<and> live_resources work = 0"

subsection \<open>Finalizers\<close>

text \<open>
  A finalizer is given whether its context is cancelled, the closing exit and the world its effects
  act on; it returns its cause or panics with a value. \<open>stack\<close> is the stack trace text.
\<close>

type_synonym ('v, 'w) finalizer = "bool \<Rightarrow> 'v exit \<Rightarrow> 'w \<Rightarrow> ('v cause + 'v) \<times> 'w"

definition run_finalizer ::
  "string \<Rightarrow> bool \<Rightarrow> ('v, 'w) finalizer \<Rightarrow> 'v exit \<Rightarrow> 'w \<Rightarrow> 'v cause \<times> 'w" where
  "run_finalizer stack cancelled finalizer x w =
     (case finalizer cancelled x w of
        (Inl c, w') \<Rightarrow> (c, w')
      | (Inr p, w') \<Rightarrow> (die_cause (capture_defect p stack), w'))"

text \<open>The loop of \<open>Close\<close>, from the last registered finalizer down to the first.\<close>

fun release_from ::
  "string \<Rightarrow> ('v, 'w) finalizer list \<Rightarrow> nat \<Rightarrow> 'v exit \<Rightarrow> 'v cause \<Rightarrow> 'w \<Rightarrow> 'v cause \<times> 'w" where
  "release_from stack fs 0 x c w = (c, w)"
| "release_from stack fs (Suc i) x c w =
     (case run_finalizer stack False (fs ! i) x w of
        (d, w') \<Rightarrow> release_from stack fs i x (then_cause c d) w')"

subsection \<open>The scope\<close>

datatype scope_status = ScopeOpen | ScopeClosing | ScopeClosed

text \<open>
  \<open>cancelled\<close> is the scope's context: \<open>None\<close> while it runs, then the reason of the first
  cancellation. \<open>children\<close> is the wait group's counter.
\<close>

record 'f scope =
  status :: scope_status
  cancelled :: "nilable_err option"
  running :: nat
  finalizers :: "'f list"

definition new_scope :: "nilable_err option \<Rightarrow> 'f scope" where
  "new_scope parent = \<lparr>status = ScopeOpen, cancelled = parent, running = 0, finalizers = []\<rparr>"

definition interrupt_scope :: "nilable_err \<Rightarrow> 'f scope \<Rightarrow> 'f scope" where
  "interrupt_scope reason s =
     (case cancelled s of None \<Rightarrow> s\<lparr>cancelled := Some reason\<rparr> | Some _ \<Rightarrow> s)"

definition fork :: "'f scope \<Rightarrow> bool \<times> 'f scope" where
  "fork s = (if status s \<noteq> ScopeOpen then (False, s) else (True, s\<lparr>running := Suc (running s)\<rparr>))"

definition child_done :: "'f scope \<Rightarrow> 'f scope" where
  "child_done s = s\<lparr>running := running s - 1\<rparr>"

text \<open>What \<open>AddFinalizer\<close> does under the lock; false leaves the finalizer to its caller to run.\<close>

definition register :: "'f \<Rightarrow> 'f scope \<Rightarrow> bool \<times> 'f scope" where
  "register f s =
     (if status s = ScopeOpen then (True, s\<lparr>finalizers := finalizers s @ [f]\<rparr>) else (False, s))"

definition add_finalizer ::
  "string \<Rightarrow> ('v, 'w) finalizer \<Rightarrow> 'v exit \<Rightarrow> ('v, 'w) finalizer scope \<Rightarrow> 'w
     \<Rightarrow> (bool \<times> 'v cause) \<times> ('v, 'w) finalizer scope \<times> 'w" where
  "add_finalizer stack f close_exit s w =
     (case register f s of
        (True, s') \<Rightarrow> ((True, Empty), s', w)
      | (False, s') \<Rightarrow>
          (case run_finalizer stack False f close_exit w of (c, w') \<Rightarrow> ((False, c), s', w')))"

definition begin_close :: "'f scope \<Rightarrow> 'f list option \<times> 'f scope" where
  "begin_close s =
     (if status s \<noteq> ScopeOpen then (None, s)
      else (Some (finalizers s), s\<lparr>status := ScopeClosing, finalizers := []\<rparr>))"

definition finish_close :: "'f scope \<Rightarrow> 'f scope" where
  "finish_close s = s\<lparr>status := ScopeClosed\<rparr>"

text \<open>
  The whole of \<open>Close\<close> for one goroutine: \<open>join\<close> is what the owned work does to the scope and the
  world until the wait group is empty (\<open>None\<close> when it never is).
\<close>

definition close_scope ::
  "string \<Rightarrow> (('v, 'w) finalizer scope \<Rightarrow> 'w \<Rightarrow> (('v, 'w) finalizer scope \<times> 'w) option)
     \<Rightarrow> 'v exit \<Rightarrow> nilable_err \<Rightarrow> ('v, 'w) finalizer scope \<Rightarrow> 'w
     \<Rightarrow> ('v cause \<times> ('v, 'w) finalizer scope \<times> 'w) option" where
  "close_scope stack join x reason s w =
     (case begin_close s of
        (None, s') \<Rightarrow> Some (Empty, s', w)
      | (Some fs, s') \<Rightarrow>
          (case join (interrupt_scope reason s') w of
             None \<Rightarrow> None
           | Some (s'', w') \<Rightarrow>
               (case release_from stack fs (length fs) x Empty w' of
                  (c, w'') \<Rightarrow> Some (c, finish_close s'', w''))))"

text \<open>\<open>closeScope\<close>: a release failure is composed after the body's own cause.\<close>

definition after_cleanup :: "'v exit \<Rightarrow> 'v cause \<Rightarrow> 'v exit" where
  "after_cleanup x cleanup =
     (if is_empty cleanup then x else Failed (then_cause (exit_cause x) cleanup))"

subsection \<open>What the finalizer loop does\<close>

text \<open>The same loop over the reversed list, with the causes kept apart.\<close>

fun release_list :: "string \<Rightarrow> ('v, 'w) finalizer list \<Rightarrow> 'v exit \<Rightarrow> 'w \<Rightarrow> 'v cause list \<times> 'w" where
  "release_list stack [] x w = ([], w)"
| "release_list stack (f # fs) x w =
     (case run_finalizer stack False f x w of
        (c, w') \<Rightarrow> (case release_list stack fs x w' of (cs, w'') \<Rightarrow> (c # cs, w'')))"

lemma release_from_list:
  "n \<le> length fs \<Longrightarrow>
   release_from stack fs n x c w =
     (case release_list stack (rev (take n fs)) x w of (cs, w') \<Rightarrow> (foldl then_cause c cs, w'))"
  by (induction n arbitrary: c w) (auto simp: take_Suc_conv_app_nth split: prod.splits)

lemma length_release_list: "length (fst (release_list stack fs x w)) = length fs"
  by (induction fs arbitrary: w) (simp_all add: case_prod_beta)

text \<open>
  Closing releases every registered finalizer, once, in reverse order of registration, each
  with an uncancelled context and the closing exit; a failure or a panic of one does not stop the
  others, and the composed cause holds every finalizer's leaves in the order they ran, so it is
  empty exactly when all of them succeeded. A second close does nothing.
\<close>

theorem close_releases_in_reverse:
  assumes "close_scope stack join x reason s w = Some (c, s', w')"
  shows "if status s \<noteq> ScopeOpen then c = Empty \<and> s' = s \<and> w' = w
    else \<exists>s1 w1. join (s\<lparr>status := ScopeClosing, finalizers := [],
                          cancelled := Some (case cancelled s of None \<Rightarrow> reason | Some r \<Rightarrow> r)\<rparr>) w = Some (s1, w1)
      \<and> (let run = release_list stack (rev (finalizers s)) x w1
          in length (fst run) = length (finalizers s)
           \<and> leaves c = concat (map leaves (fst run)) \<and> w' = snd run
           \<and> (list_all proper (fst run) \<longrightarrow> (c = Empty \<longleftrightarrow> list_all (\<lambda>d. d = Empty) (fst run))))
      \<and> status s' = ScopeClosed \<and> close_scope stack join x2 reason2 s' w' = Some (Empty, s', w')"
proof (cases "status s = ScopeOpen")
  case False
  with assms show ?thesis by (simp add: close_scope_def begin_close_def)
next
  case True
  let ?s = "interrupt_scope reason (s\<lparr>status := ScopeClosing, finalizers := []\<rparr>)"
  have s: "?s = s\<lparr>status := ScopeClosing, finalizers := [],
      cancelled := Some (case cancelled s of None \<Rightarrow> reason | Some r \<Rightarrow> r)\<rparr>"
    by (cases "cancelled s") (simp_all add: interrupt_scope_def)
  from assms True obtain s1 w1 where j: "join ?s w = Some (s1, w1)"
    and r: "release_from stack (finalizers s) (length (finalizers s)) x Empty w1 = (c, w')"
    and s': "s' = finish_close s1"
    by (auto simp: close_scope_def begin_close_def split: option.splits prod.splits)
  obtain cs where cs: "release_list stack (rev (finalizers s)) x w1 = (cs, w')" "c = foldl then_cause Empty cs"
    using r by (simp add: release_from_list split: prod.splits)
  have "length cs = length (finalizers s)"
    using length_release_list [of stack "rev (finalizers s)" x w1] cs(1) by simp
  moreover have "leaves c = concat (map leaves cs)"
    using cs(2) by (simp add: then_alg.leaves_foldl)
  moreover have "c = Empty \<longleftrightarrow> list_all (\<lambda>d. d = Empty) cs" if "list_all proper cs"
    using that cs(2) by (simp add: then_alg.foldl_empty_iff list_all_iff)
  ultimately show ?thesis
    using True j cs(1) s' s
    by (auto simp: Let_def finish_close_def close_scope_def begin_close_def)
qed

theorem close_releases_in_reverse_witness:
  "fst (the (close_scope [] (\<lambda>s w. Some (s, w)) (Succeeded (0 :: int)) None
     ((new_scope None)\<lparr>finalizers := [\<lambda>_ _ w. (Inl (fail_cause 1), w), \<lambda>_ _ w. (Inl (fail_cause 2), w)]\<rparr>) ()))
   = Then (fail_cause 2) (fail_cause 1)"
proof -
  let ?s = "(new_scope None)\<lparr>finalizers := [\<lambda>_ _ w. (Inl (fail_cause 1), w), \<lambda>_ _ w. (Inl (fail_cause 2), w)]\<rparr>
    :: (int, unit) finalizer scope"
  obtain c s' w' where eq: "close_scope [] (\<lambda>s w. Some (s, w)) (Succeeded (0 :: int)) None ?s () = Some (c, s', w')"
    by (simp add: close_scope_def new_scope_def begin_close_def run_finalizer_def)
  from close_releases_in_reverse [OF eq] eq show ?thesis
    by (simp add: new_scope_def close_scope_def begin_close_def run_finalizer_def fail_cause_def
        then_cause_def compose_def)
qed

subsection \<open>The scope under concurrency\<close>

text \<open>
  Many goroutines register, fork, finish and interrupt while one closes. \<open>phase\<close> is how far the
  closing goroutine is; \<open>registered\<close> the finalizers the scope accepted, \<open>released\<close> those the
  closing goroutine ran, \<open>immediate\<close> those a late caller had to run itself.
\<close>

datatype 'f phase = NotClosing | Cancelling "'f list" | Joining "'f list" | Releasing "'f list" nat | ClosedDown

record 'f boundary =
  scope :: "'f scope"
  phase :: "'f phase"
  registered :: "'f list"
  released :: "'f list"
  immediate :: "'f list"

definition opened :: "nilable_err option \<Rightarrow> 'f boundary" where
  "opened parent =
     \<lparr>scope = new_scope parent, phase = NotClosing, registered = [], released = [], immediate = []\<rparr>"

inductive scope_step :: "'f boundary \<Rightarrow> 'f boundary \<Rightarrow> bool" where
  registers:
    "register f (scope b) = (True, s) \<Longrightarrow> scope_step b (b\<lparr>scope := s, registered := registered b @ [f]\<rparr>)"
| registers_late:
    "register f (scope b) = (False, s) \<Longrightarrow> scope_step b (b\<lparr>scope := s, immediate := immediate b @ [f]\<rparr>)"
| forks: "fork (scope b) = (accepted, s) \<Longrightarrow> scope_step b (b\<lparr>scope := s\<rparr>)"
| child_ends: "0 < running (scope b) \<Longrightarrow> scope_step b (b\<lparr>scope := child_done (scope b)\<rparr>)"
| interrupts: "scope_step b (b\<lparr>scope := interrupt_scope reason (scope b)\<rparr>)"
| begins: "begin_close (scope b) = (Some fs, s) \<Longrightarrow> scope_step b (b\<lparr>scope := s, phase := Cancelling fs\<rparr>)"
| begins_again: "begin_close (scope b) = (None, s) \<Longrightarrow> scope_step b (b\<lparr>scope := s\<rparr>)"
| cancels:
    "phase b = Cancelling fs \<Longrightarrow>
     scope_step b (b\<lparr>scope := interrupt_scope reason (scope b), phase := Joining fs\<rparr>)"
| joins: "phase b = Joining fs \<Longrightarrow> running (scope b) = 0 \<Longrightarrow> scope_step b (b\<lparr>phase := Releasing fs (length fs)\<rparr>)"
| releases:
    "phase b = Releasing fs (Suc i) \<Longrightarrow>
     scope_step b (b\<lparr>phase := Releasing fs i, released := released b @ [fs ! i]\<rparr>)"
| finishes:
    "phase b = Releasing fs 0 \<Longrightarrow> scope_step b (b\<lparr>scope := finish_close (scope b), phase := ClosedDown\<rparr>)"

inductive_cases scope_stepE: "scope_step b b'"

inductive lived :: "'f boundary \<Rightarrow> bool" where
  opens: "lived (opened parent)"
| steps: "lived b \<Longrightarrow> scope_step b b' \<Longrightarrow> lived b'"

definition boundary_inv :: "'f boundary \<Rightarrow> bool" where
  "boundary_inv b \<longleftrightarrow>
     (status (scope b) = ScopeOpen \<longleftrightarrow> phase b = NotClosing)
   \<and> (status (scope b) = ScopeClosed \<longleftrightarrow> phase b = ClosedDown)
   \<and> finalizers (scope b) = (if phase b = NotClosing then registered b else [])
   \<and> (status (scope b) = ScopeOpen \<longrightarrow> immediate b = [])
   \<and> (case phase b of
        NotClosing \<Rightarrow> released b = []
      | Cancelling fs \<Rightarrow> fs = registered b \<and> released b = []
      | Joining fs \<Rightarrow> fs = registered b \<and> released b = [] \<and> cancelled (scope b) \<noteq> None
      | Releasing fs i \<Rightarrow> fs = registered b \<and> i \<le> length fs \<and> released b = rev (drop i fs)
          \<and> running (scope b) = 0 \<and> cancelled (scope b) \<noteq> None
      | ClosedDown \<Rightarrow> released b = rev (registered b) \<and> running (scope b) = 0 \<and> cancelled (scope b) \<noteq> None)"

lemma cancelled_interrupt [simp]: "cancelled (interrupt_scope reason s) \<noteq> None"
  by (auto simp: interrupt_scope_def split: option.splits)

lemma interrupt_scope_simps [simp]:
  "status (interrupt_scope reason s) = status s" "finalizers (interrupt_scope reason s) = finalizers s"
  "running (interrupt_scope reason s) = running s"
  by (simp_all add: interrupt_scope_def split: option.splits)

lemma boundary_inv_step: "scope_step b b' \<Longrightarrow> boundary_inv b \<Longrightarrow> boundary_inv b'"
proof (induction rule: scope_step.induct)
  case (releases b fs i)
  then have "drop i fs = fs ! i # drop (Suc i) fs"
    by (intro Cons_nth_drop_Suc [symmetric]) (auto simp: boundary_inv_def)
  with releases show ?case by (auto simp: boundary_inv_def)
qed (auto simp: boundary_inv_def register_def fork_def child_done_def begin_close_def finish_close_def
      split: phase.splits if_splits)

lemma lived_inv: "lived b \<Longrightarrow> boundary_inv b"
proof (induction rule: lived.induct)
  case (opens parent)
  show ?case by (simp add: boundary_inv_def opened_def new_scope_def)
next
  case (steps b b')
  then show ?case by (blast intro: boundary_inv_step)
qed

text \<open>
  C6: in every interleaving of registrations, forks, interruptions and closes, no resource is
  released while a fiber the scope owns is still running, each accepted finalizer is released at
  most once and in reverse order of acquisition, every one of them is when the scope is closed, the
  owned work was cancelled before it was waited for, and a finalizer is left to a late caller only
  after closing began.
\<close>

theorem scope_releases_once_after_children:
  assumes "lived b"
  shows "(released b \<noteq> [] \<longrightarrow> running (scope b) = 0 \<and> cancelled (scope b) \<noteq> None)
    \<and> (\<exists>i. released b = rev (drop i (registered b)))
    \<and> (status (scope b) = ScopeClosed \<longrightarrow> released b = rev (registered b) \<and> running (scope b) = 0)
    \<and> (immediate b \<noteq> [] \<longrightarrow> status (scope b) \<noteq> ScopeOpen)"
proof -
  have inv: "boundary_inv b" by (rule lived_inv [OF assms])
  have "\<exists>i. released b = rev (drop i (registered b))"
  proof (cases "phase b")
    case (Releasing fs i)
    with inv show ?thesis by (auto simp: boundary_inv_def)
  next
    case ClosedDown
    with inv show ?thesis by (intro exI [of _ 0]) (auto simp: boundary_inv_def)
  qed (use inv in \<open>auto simp: boundary_inv_def intro!: exI [of _ "length (registered b)"]\<close>)
  with inv show ?thesis
    by (auto simp: boundary_inv_def split: phase.splits)
qed

text \<open>A scope that registered one finalizer, closed and released it.\<close>

definition after_close :: "char boundary" where
  "after_close =
     \<lparr>scope = \<lparr>status = ScopeClosed, cancelled = Some None, running = 0, finalizers = []\<rparr>,
      phase = ClosedDown, registered = ''a'', released = ''a'', immediate = []\<rparr>"

lemma after_close_lived: "lived after_close"
proof -
  let ?o = "\<lparr>status = ScopeOpen, cancelled = None, running = 0, finalizers = ''a''\<rparr> :: char scope"
  let ?c = "\<lparr>status = ScopeClosing, cancelled = None, running = 0, finalizers = []\<rparr> :: char scope"
  let ?d = "?c\<lparr>cancelled := Some None\<rparr>"
  let ?b = "\<lambda>s p r. \<lparr>scope = s, phase = p, registered = ''a'', released = r, immediate = []\<rparr> :: char boundary"
  have l0: "lived (opened None :: char boundary)" by (rule opens)
  have s1: "scope_step (opened None) (?b ?o NotClosing [])"
    using registers [of "CHR ''a''" "opened None" ?o] by (simp add: opened_def new_scope_def register_def)
  have s2: "scope_step (?b ?o NotClosing []) (?b ?c (Cancelling ''a'') [])"
    using begins [of "?b ?o NotClosing []" "''a''" ?c] by (simp add: begin_close_def)
  have s3: "scope_step (?b ?c (Cancelling ''a'') []) (?b ?d (Joining ''a'') [])"
    using cancels [of "?b ?c (Cancelling ''a'') []" "''a''" None] by (simp add: interrupt_scope_def)
  have s4: "scope_step (?b ?d (Joining ''a'') []) (?b ?d (Releasing ''a'' 1) [])"
    using joins [of "?b ?d (Joining ''a'') []" "''a''"] by simp
  have s5: "scope_step (?b ?d (Releasing ''a'' 1) []) (?b ?d (Releasing ''a'' 0) ''a'')"
    using releases [of "?b ?d (Releasing ''a'' 1) []" "''a''" 0] by simp
  have s6: "scope_step (?b ?d (Releasing ''a'' 0) ''a'') after_close"
    using finishes [of "?b ?d (Releasing ''a'' 0) ''a''" "''a''"] by (simp add: finish_close_def after_close_def)
  show ?thesis
    by (rule steps [OF steps [OF steps [OF steps [OF steps [OF steps [OF l0 s1] s2] s3] s4] s5] s6])
qed

theorem scope_releases_once_after_children_witness:
  "released after_close = rev (registered after_close) \<and> running (scope after_close) = 0"
  using scope_releases_once_after_children [OF after_close_lived] by (simp add: after_close_def)

subsection \<open>Acquisition and the ledger\<close>

text \<open>
  \<open>registerRelease\<close> and \<open>releaseFinalizer\<close>: the world a finalizer acts on carries the ledger.
  \<open>run_release\<close> is the release workflow run by the interpreter, which guards every panic.
\<close>

record 'w world =
  ledger_of :: "ledger option"
  outer :: 'w

definition release_finalizer ::
  "(bool \<Rightarrow> 'w world \<Rightarrow> 'v exit \<times> 'w world) \<Rightarrow> ('v, 'w world) finalizer" where
  "release_finalizer run_release cancelled' x w =
     (case run_release cancelled' w of
        (result, w') \<Rightarrow> (Inl (exit_cause result), w'\<lparr>ledger_of := record_release (ledger_of w')\<rparr>))"

definition register_release ::
  "string \<Rightarrow> nilable_err \<Rightarrow> (bool \<Rightarrow> 'w world \<Rightarrow> 'v exit \<times> 'w world) \<Rightarrow> 'v exit \<Rightarrow> 'v exit
     \<Rightarrow> ('v, 'w world) finalizer scope \<Rightarrow> 'w world
     \<Rightarrow> 'v exit \<times> ('v, 'w world) finalizer scope \<times> 'w world" where
  "register_release stack scope_closed run_release close_exit x s w =
     (if \<not> is_success x then (x, s, w)
      else case add_finalizer stack (release_finalizer run_release) close_exit s w of
        ((True, _), s', w') \<Rightarrow> (x, s', w'\<lparr>ledger_of := record_acquisition (ledger_of w')\<rparr>)
      | ((False, cleanup), s', w') \<Rightarrow>
          (Failed (then_cause (interrupt_cause scope_closed) cleanup), s', w'))"

text \<open>
  An acquisition and its release balance in the ledger when the scope accepted the resource:
  one more live resource after acquiring, the same number as before once it is released. A failed
  acquisition registers nothing. A late acquisition releases the resource at once and reports the
  closed scope, with the release's own failure behind it.
\<close>

theorem register_release_balances:
  assumes "\<And>cncl w. ledger_of (snd (run_release cncl w)) = ledger_of w" "ledger_of w = Some l"
  shows "(\<not> is_success x \<longrightarrow> register_release stack e run_release cx x s w = (x, s, w))
    \<and> (is_success x \<and> status s = ScopeOpen \<longrightarrow>
        (case register_release stack e run_release cx x s w of
           (x', s', w') \<Rightarrow> x' = x \<and> finalizers s' = finalizers s @ [release_finalizer run_release]
             \<and> live_resources (live (ledger_of w')) = live_resources (live (ledger_of w)) + 1
             \<and> live (ledger_of (snd (release_finalizer run_release False cx w'))) = live (ledger_of w)))
    \<and> (is_success x \<and> status s \<noteq> ScopeOpen \<longrightarrow>
        (case register_release stack e run_release cx x s w of
           (x', s', w') \<Rightarrow> s' = s \<and> w' = snd (release_finalizer run_release False cx w)
             \<and> x' = Failed (then_cause (interrupt_cause e) (exit_cause (fst (run_release False w))))))"
  using assms(2)
  by (auto simp: register_release_def add_finalizer_def register_def release_finalizer_def live_def
      run_finalizer_def record_acquisition_def record_release_def assms(1) prod_eq_iff
      split: prod.splits option.splits)

theorem register_release_balances_witness:
  "live_resources (live (ledger_of (snd (snd (register_release [] None (\<lambda>_ w. (Succeeded 0, w)) (Succeeded 0)
     (Succeeded (0 :: int)) (new_scope None)
     \<lparr>ledger_of = Some \<lparr>fiber_starts = 0, fiber_completions = 0, acquisitions = 4, releases = 2\<rparr>, outer = ()\<rparr>))))) = 3"
  using register_release_balances
    [of "\<lambda>_ w. (Succeeded (0 :: int), w)"
        "\<lparr>ledger_of = Some \<lparr>fiber_starts = 0, fiber_completions = 0, acquisitions = 4, releases = 2\<rparr>, outer = ()\<rparr>"
        "\<lparr>fiber_starts = 0, fiber_completions = 0, acquisitions = 4, releases = 2\<rparr>"
        "Succeeded 0" "[]" None "Succeeded 0" "new_scope None"]
  by (auto simp: new_scope_def live_def split: prod.splits)

text \<open>
  A late acquisition was never recorded, but its release is: the ledger ends one release ahead of
  the acquisitions and reports a negative number of live resources for a runtime that owns none.
\<close>

lemma late_acquisition_unbalances_ledger:
  assumes "\<And>cncl w. ledger_of (snd (run_release cncl w)) = ledger_of w" "ledger_of w = Some l"
    and "is_success x" "status s \<noteq> ScopeOpen"
  shows "live_resources (live (ledger_of (snd (snd (register_release stack e run_release cx x s w)))))
    = live_resources (live (ledger_of w)) - 1"
  using assms(2-4)
  by (auto simp: register_release_def add_finalizer_def register_def release_finalizer_def live_def
      run_finalizer_def record_release_def assms(1) case_prod_beta)

subsection \<open>Starting a fiber\<close>

text \<open>
  \<open>StartFiber\<close>: the start is recorded before the owner is asked, and taken back when it refuses.
  The body runs the work, closes the child scope with the exit and completes the fiber with both.
\<close>

definition start_fiber :: "ledger option \<Rightarrow> 'f scope \<Rightarrow> bool \<times> 'f scope \<times> ledger option" where
  "start_fiber l owner =
     (let l' = record_fiber_start l in
      case fork owner of
        (True, owner') \<Rightarrow> (True, owner', l')
      | (False, owner') \<Rightarrow> (False, owner', record_fiber_completion l'))"

definition fiber_body ::
  "('w world \<Rightarrow> 'v exit \<times> 'w world) \<Rightarrow> ('v exit \<Rightarrow> 'w world \<Rightarrow> ('v cause \<times> 'w world) option)
     \<Rightarrow> 'v completion \<Rightarrow> 'w world \<Rightarrow> ('v completion \<times> 'w world) option" where
  "fiber_body work close_child c w =
     (case work w of
        (x, w1) \<Rightarrow>
          (case close_child x w1 of
             None \<Rightarrow> None
           | Some (cleanup, w2) \<Rightarrow>
               Some (snd (complete (after_cleanup x cleanup) c),
                     w2\<lparr>ledger_of := record_fiber_completion (ledger_of w2)\<rparr>)))"

lemma start_fiber_ledger:
  "start_fiber l owner = (accepted, owner', l') \<Longrightarrow>
   live_fibers (live l') = live_fibers (live l) + (if accepted \<and> l \<noteq> None then 1 else 0)
   \<and> (\<not> accepted \<longrightarrow> owner' = owner \<and> live l' = live l)"
  by (auto simp: start_fiber_def fork_def record_fiber_start_def record_fiber_completion_def live_def
      split: if_splits option.splits)

lemma fiber_body_completes:
  "fiber_body work close_child new_completion w = Some (c, w') \<Longrightarrow>
   \<exists>x cleanup. c = Some (after_cleanup x cleanup) \<and> x = fst (work w)
     \<and> (cleanup = Empty \<longrightarrow> c = Some x)
     \<and> leaves (exit_cause (the c)) = leaves (exit_cause x) @ leaves cleanup"
proof -
  assume "fiber_body work close_child new_completion w = Some (c, w')"
  then obtain x w1 cleanup where "work w = (x, w1)" "c = Some (after_cleanup x cleanup)"
    by (auto simp: fiber_body_def complete_def new_completion_def split: option.splits prod.splits)
  moreover have "leaves (exit_cause (after_cleanup x cleanup)) = leaves (exit_cause x) @ leaves cleanup"
    "cleanup = Empty \<Longrightarrow> after_cleanup x cleanup = x"
    by (auto simp: after_cleanup_def)
  ultimately show ?thesis by (intro exI [of _ x] exI [of _ cleanup]) simp
qed

end
