(* ===== verification/Recurrence.thy ===== *)
theory Recurrence
  imports Prelude
begin

section \<open>Schedules\<close>

text \<open>
  \<^verbatim>\<open>effect/schedule.go\<close>, \<^verbatim>\<open>schedule_policy.go\<close>, \<^verbatim>\<open>schedule_backoff.go\<close> and
  \<^verbatim>\<open>schedule_composition.go\<close>. A schedule step is a function that returns a decision and the
  next step: a codatatype with those two observations, since a policy may recur for ever. Durations
  are \<open>int64\<close> nanoseconds (\<open>wrap64\<close> where the code adds or doubles), counts saturate at the
  largest \<open>uint64\<close>. A schedule is the step its \<open>start\<close> function answers; the zero schedule has
  none, and starting it panics (\<open>None\<close>).
\<close>

subsection \<open>Decisions and steps\<close>

record 'o decision =
  emitted :: 'o
  delay :: int
  continues :: bool

definition continue_schedule :: "'o \<Rightarrow> int \<Rightarrow> 'o decision" where
  "continue_schedule out d = \<lparr>emitted = out, delay = (if d < 0 then 0 else d), continues = True\<rparr>"

definition stop_schedule :: "'o \<Rightarrow> 'o decision" where
  "stop_schedule out = \<lparr>emitted = out, delay = 0, continues = False\<rparr>"

codatatype ('i, 'o) step = Step (decide: "int \<Rightarrow> 'i \<Rightarrow> 'o decision") (after: "int \<Rightarrow> 'i \<Rightarrow> ('i, 'o) step")

type_synonym ('i, 'o) schedule = "('i, 'o) step option"

text \<open>A driver is the current step; \<open>Next\<close> answers a decision and moves it on.\<close>

definition driver_next :: "('i, 'o) step \<Rightarrow> int \<Rightarrow> 'i \<Rightarrow> 'o decision \<times> ('i, 'o) step" where
  "driver_next s now i = (decide s now i, after s now i)"

text \<open>The decisions of a driver on a sequence of inputs, each with the time it was observed.\<close>

fun decisions :: "('i, 'o) step \<Rightarrow> (int \<times> 'i) list \<Rightarrow> 'o decision list" where
  "decisions s [] = []"
| "decisions s ((now, i) # is) = (case driver_next s now i of (d, s') \<Rightarrow> d # decisions s' is)"

subsection \<open>Policies\<close>

definition normalize_duration :: "int \<Rightarrow> int" where
  "normalize_duration d = (if d < 0 then 0 else d)"

definition next_count :: "nat \<Rightarrow> nat" where
  "next_count c = (if c = max_count then max_count else c + 1)"

primcorec stop_step :: "('i, unit) step" where
  "decide stop_step = (\<lambda>_ _. stop_schedule ())"
| "after stop_step = (\<lambda>_ _. stop_step)"

primcorec count_step :: "nat \<Rightarrow> int \<Rightarrow> nat option \<Rightarrow> ('i, nat) step" where
  "decide (count_step c d limit) =
     (\<lambda>_ _. if limit \<noteq> None \<and> c \<ge> the limit then stop_schedule c else continue_schedule c d)"
| "after (count_step c d limit) = (\<lambda>_ _. count_step (next_count c) d limit)"

definition stop :: "('i, unit) schedule" where
  "stop = Some stop_step"

definition forever :: "('i, nat) schedule" where
  "forever = Some (count_step 0 0 None)"

definition recurs :: "nat \<Rightarrow> ('i, nat) schedule" where
  "recurs n = Some (count_step 0 0 (Some n))"

definition spaced :: "int \<Rightarrow> ('i, nat) schedule" where
  "spaced d = Some (count_step 0 (normalize_duration d) None)"

definition decide_elapsed :: "int \<Rightarrow> int \<Rightarrow> int decision" where
  "decide_elapsed elapsed limit =
     (if elapsed \<ge> limit then stop_schedule elapsed else continue_schedule elapsed 0)"

primcorec up_to_step :: "int \<Rightarrow> int \<Rightarrow> ('i, int) step" where
  "decide (up_to_step start limit) =
     (\<lambda>now _. decide_elapsed (normalize_duration (time_sub now start)) limit)"
| "after (up_to_step start limit) = (\<lambda>_ _. up_to_step start limit)"

primcorec up_to_first_step :: "int \<Rightarrow> ('i, int) step" where
  "decide (up_to_first_step limit) = (\<lambda>now _. decide_elapsed 0 limit)"
| "after (up_to_first_step limit) = (\<lambda>now _. up_to_step now limit)"

definition up_to :: "int \<Rightarrow> ('i, int) schedule" where
  "up_to limit = Some (up_to_first_step (normalize_duration limit))"

subsection \<open>Backoff\<close>

definition double_within :: "int \<Rightarrow> int \<Rightarrow> int" where
  "double_within value maximum =
     (if value \<ge> maximum \<or> value > wrap64 (maximum - value) then maximum else wrap64 (value * 2))"

definition add_within :: "int \<Rightarrow> int \<Rightarrow> int \<Rightarrow> int" where
  "add_within l r maximum =
     (if l \<ge> maximum \<or> r \<ge> wrap64 (maximum - l) then maximum else wrap64 (l + r))"

primcorec exponential_step :: "int \<Rightarrow> int \<Rightarrow> ('i, int) step" where
  "decide (exponential_step d maximum) = (\<lambda>_ _. continue_schedule d d)"
| "after (exponential_step d maximum) = (\<lambda>_ _. exponential_step (double_within d maximum) maximum)"

definition exponential :: "int \<Rightarrow> int \<Rightarrow> ('i, int) schedule" where
  "exponential base maximum =
     (let base = normalize_duration base; maximum = normalize_duration maximum;
          base = (if base > maximum then maximum else base)
      in Some (exponential_step base maximum))"

primcorec fibonacci_step :: "int \<Rightarrow> int \<Rightarrow> int \<Rightarrow> ('i, int) step" where
  "decide (fibonacci_step current following maximum) = (\<lambda>_ _. continue_schedule current current)"
| "after (fibonacci_step current following maximum) =
     (\<lambda>_ _. fibonacci_step following (add_within current following maximum) maximum)"

definition fibonacci :: "int \<Rightarrow> int \<Rightarrow> ('i, int) schedule" where
  "fibonacci one maximum =
     (let one = normalize_duration one; maximum = normalize_duration maximum;
          one = (if one > maximum then maximum else one)
      in Some (fibonacci_step one one maximum))"

subsection \<open>Combinators\<close>

primcorec map_step :: "('i, 'o) step \<Rightarrow> ('o \<Rightarrow> 'p) \<Rightarrow> ('i, 'p) step" where
  "decide (map_step s transform) =
     (\<lambda>now i. let d = decide s now i
       in \<lparr>emitted = transform (emitted d), delay = delay d, continues = continues d\<rparr>)"
| "after (map_step s transform) = (\<lambda>now i. map_step (after s now i) transform)"

definition refuse :: "'o decision \<Rightarrow> 'o decision" where
  "refuse d = d\<lparr>continues := False, delay := 0\<rparr>"

primcorec while_input_step :: "('i, 'o) step \<Rightarrow> ('i \<Rightarrow> bool) \<Rightarrow> ('i, 'o) step" where
  "decide (while_input_step s pred) =
     (\<lambda>now i. if \<not> pred i then refuse (decide s now i) else decide s now i)"
| "after (while_input_step s pred) = (\<lambda>now i. while_input_step (after s now i) pred)"

primcorec while_output_step :: "('i, 'o) step \<Rightarrow> ('o \<Rightarrow> bool) \<Rightarrow> ('i, 'o) step" where
  "decide (while_output_step s pred) =
     (\<lambda>now i. let d = decide s now i in if \<not> pred (emitted d) then refuse d else d)"
| "after (while_output_step s pred) = (\<lambda>now i. while_output_step (after s now i) pred)"

primcorec and_step :: "('i, 'l) step \<Rightarrow> ('i, 'r) step \<Rightarrow> ('i, 'l \<times> 'r) step" where
  "decide (and_step l r) =
     (\<lambda>now i. let ld = decide l now i; rd = decide r now i; out = (emitted ld, emitted rd)
       in if \<not> continues ld \<or> \<not> continues rd then stop_schedule out
          else continue_schedule out (max (delay ld) (delay rd)))"
| "after (and_step l r) = (\<lambda>now i. and_step (after l now i) (after r now i))"

record ('l, 'r) schedule_union =
  union_left :: 'l
  union_right :: 'r
  left_continues :: bool
  right_continues :: bool

definition active_minimum_delay :: "'l decision \<Rightarrow> 'r decision \<Rightarrow> int" where
  "active_minimum_delay l r =
     (if \<not> continues l then delay r else if \<not> continues r then delay l else min (delay l) (delay r))"

primcorec or_step :: "('i, 'l) step \<Rightarrow> ('i, 'r) step \<Rightarrow> ('i, ('l, 'r) schedule_union) step" where
  "decide (or_step l r) =
     (\<lambda>now i. let ld = decide l now i; rd = decide r now i;
          out = \<lparr>union_left = emitted ld, union_right = emitted rd,
                 left_continues = continues ld, right_continues = continues rd\<rparr>
       in if \<not> continues ld \<and> \<not> continues rd then stop_schedule out
          else continue_schedule out (active_minimum_delay ld rd))"
| "after (or_step l r) = (\<lambda>now i. or_step (after l now i) (after r now i))"

text \<open>On schedules: starting the result starts the parts, and panics when one of them is zero.\<close>

definition map_output :: "('i, 'o) schedule \<Rightarrow> ('o \<Rightarrow> 'p) \<Rightarrow> ('i, 'p) schedule" where
  "map_output s f = map_option (\<lambda>s. map_step s f) s"

definition while_input :: "('i, 'o) schedule \<Rightarrow> ('i \<Rightarrow> bool) \<Rightarrow> ('i, 'o) schedule" where
  "while_input s p = map_option (\<lambda>s. while_input_step s p) s"

definition while_output :: "('i, 'o) schedule \<Rightarrow> ('o \<Rightarrow> bool) \<Rightarrow> ('i, 'o) schedule" where
  "while_output s p = map_option (\<lambda>s. while_output_step s p) s"

definition intersect_schedules :: "('i, 'l) schedule \<Rightarrow> ('i, 'r) schedule \<Rightarrow> ('i, 'l \<times> 'r) schedule" where
  "intersect_schedules l r =
     (case l of None \<Rightarrow> None | Some l \<Rightarrow> (case r of None \<Rightarrow> None | Some r \<Rightarrow> Some (and_step l r)))"

definition union_schedules ::
  "('i, 'l) schedule \<Rightarrow> ('i, 'r) schedule \<Rightarrow> ('i, ('l, 'r) schedule_union) schedule" where
  "union_schedules l r =
     (case l of None \<Rightarrow> None | Some l \<Rightarrow> (case r of None \<Rightarrow> None | Some r \<Rightarrow> Some (or_step l r)))"

subsection \<open>Delays stay in range\<close>

definition sound_decision :: "'o decision \<Rightarrow> bool" where
  "sound_decision d \<longleftrightarrow> 0 \<le> delay d \<and> delay d \<le> max_duration \<and> (\<not> continues d \<longrightarrow> delay d = 0)"

text \<open>A step all of whose decisions, for ever, have a delay a \<open>time.Duration\<close> can hold.\<close>

coinductive well_timed :: "('i, 'o) step \<Rightarrow> bool" where
  "(\<And>now i. sound_decision (decide s now i)) \<Longrightarrow> (\<And>now i. well_timed (after s now i)) \<Longrightarrow> well_timed s"

lemma well_timed_decide: "well_timed s \<Longrightarrow> sound_decision (decide s now i)"
  by (erule well_timed.cases) simp

lemma well_timed_after: "well_timed s \<Longrightarrow> well_timed (after s now i)"
  by (erule well_timed.cases) simp

lemma sound_stop [simp]: "sound_decision (stop_schedule out)"
  by (simp add: sound_decision_def stop_schedule_def)

lemma sound_continue [simp]: "d \<le> max_duration \<Longrightarrow> sound_decision (continue_schedule out d)"
  by (simp add: sound_decision_def continue_schedule_def)

lemma sound_refuse [simp]: "sound_decision (refuse d)"
  by (simp add: sound_decision_def refuse_def)

lemma in_int64_sub: "0 \<le> a \<Longrightarrow> 0 \<le> b \<Longrightarrow> a \<le> max_duration \<Longrightarrow> b \<le> max_duration \<Longrightarrow> in_int64 (a - b)"
  by (simp add: in_int64_def min_duration_def max_duration_def)

lemma in_int64_between: "0 \<le> a \<Longrightarrow> a \<le> max_duration \<Longrightarrow> in_int64 a"
  by (simp add: in_int64_def min_duration_def)

lemma double_within_min:
  assumes "0 \<le> d" "d \<le> maximum" "maximum \<le> max_duration"
  shows "double_within d maximum = min (2 * d) maximum"
proof -
  have "wrap64 (maximum - d) = maximum - d"
    using assms by (intro wrap64_id in_int64_sub) auto
  moreover have "wrap64 (d * 2) = d * 2" if "d * 2 \<le> maximum"
    using assms that by (intro wrap64_id in_int64_between) auto
  ultimately show ?thesis
    using assms by (auto simp: double_within_def)
qed

lemma add_within_min:
  assumes "0 \<le> l" "0 \<le> r" "l \<le> maximum" "r \<le> maximum" "maximum \<le> max_duration"
  shows "add_within l r maximum = min (l + r) maximum"
proof -
  have "wrap64 (maximum - l) = maximum - l"
    using assms by (intro wrap64_id in_int64_sub) auto
  moreover have "wrap64 (l + r) = l + r" if "l + r \<le> maximum"
    using assms that by (intro wrap64_id in_int64_between) auto
  ultimately show ?thesis
    using assms by (auto simp: add_within_def)
qed

lemma well_timed_stop_step: "well_timed stop_step"
  by (coinduction) simp

lemma well_timed_count: "0 \<le> d \<Longrightarrow> d \<le> max_duration \<Longrightarrow> well_timed (count_step c d limit)"
  by (coinduction arbitrary: c) auto

lemma well_timed_up_to: "well_timed (up_to_step start limit)"
  by (coinduction) (auto simp: decide_elapsed_def)

lemma well_timed_up_to_first: "well_timed (up_to_first_step limit)"
  by (rule well_timed.intros) (simp_all add: decide_elapsed_def well_timed_up_to)

lemma well_timed_exponential:
  "0 \<le> d \<Longrightarrow> d \<le> maximum \<Longrightarrow> maximum \<le> max_duration \<Longrightarrow> well_timed (exponential_step d maximum)"
  by (coinduction arbitrary: d) (auto simp: double_within_min)

lemma well_timed_fibonacci:
  "0 \<le> a \<Longrightarrow> a \<le> maximum \<Longrightarrow> 0 \<le> b \<Longrightarrow> b \<le> maximum \<Longrightarrow> maximum \<le> max_duration \<Longrightarrow>
   well_timed (fibonacci_step a b maximum)"
  by (coinduction arbitrary: a b)
     (force simp: add_within_min intro!: exI [of _ "_ :: int"])

lemma well_timed_map: "well_timed s \<Longrightarrow> well_timed (map_step s f)"
  by (coinduction arbitrary: s)
     (auto simp: Let_def sound_decision_def dest: well_timed_decide well_timed_after)

lemma well_timed_while_input: "well_timed s \<Longrightarrow> well_timed (while_input_step s p)"
  by (coinduction arbitrary: s) (auto dest: well_timed_decide well_timed_after)

lemma well_timed_while_output: "well_timed s \<Longrightarrow> well_timed (while_output_step s p)"
  by (coinduction arbitrary: s) (auto simp: Let_def dest: well_timed_decide well_timed_after)

lemma sound_max:
  "sound_decision l \<Longrightarrow> sound_decision r \<Longrightarrow> max (delay l) (delay r) \<le> max_duration"
  "sound_decision l \<Longrightarrow> sound_decision r \<Longrightarrow> active_minimum_delay l r \<le> max_duration"
  by (auto simp: sound_decision_def active_minimum_delay_def)

lemma well_timed_and: "well_timed l \<Longrightarrow> well_timed r \<Longrightarrow> well_timed (and_step l r)"
  by (coinduction arbitrary: l r)
     (auto simp: Let_def intro!: sound_continue sound_max(1) well_timed_decide intro: well_timed_after)

lemma well_timed_or: "well_timed l \<Longrightarrow> well_timed r \<Longrightarrow> well_timed (or_step l r)"
  by (coinduction arbitrary: l r)
     (auto simp: Let_def intro!: sound_continue sound_max(2) well_timed_decide intro: well_timed_after)

lemmas well_timed_policies =
  well_timed_stop_step well_timed_count well_timed_up_to_first well_timed_exponential well_timed_fibonacci

lemmas well_timed_combinators =
  well_timed_map well_timed_while_input well_timed_while_output well_timed_and well_timed_or

lemma well_timed_decisions: "well_timed s \<Longrightarrow> d \<in> set (decisions s is) \<Longrightarrow> sound_decision d"
proof (induction s "is" rule: decisions.induct)
  case (2 s now i "is")
  then show ?case
    by (auto simp: driver_next_def dest: well_timed_decide well_timed_after)
qed simp

lemma normalize_duration_bounds:
  "0 \<le> normalize_duration d" "in_int64 d \<Longrightarrow> normalize_duration d \<le> max_duration"
  by (auto simp: normalize_duration_def in_int64_def)

lemma well_timed_constructors:
  assumes "in_int64 base" "in_int64 maximum"
  shows "well_timed (the stop)" "well_timed (the forever)" "well_timed (the (recurs n))"
    "well_timed (the (spaced base))" "well_timed (the (up_to base))"
    "well_timed (the (exponential base maximum))" "well_timed (the (fibonacci base maximum))"
  using assms normalize_duration_bounds
  by (auto simp: stop_def recurs_def forever_def spaced_def exponential_def fibonacci_def up_to_def Let_def
      intro!: well_timed_policies)



subsection \<open>What the policies decide\<close>

lemma continue_schedule_nonneg:
  "0 \<le> d \<Longrightarrow> continue_schedule out d = \<lparr>emitted = out, delay = d, continues = True\<rparr>"
  by (simp add: continue_schedule_def)

lemma if_cases_min: "(if (m :: int) < b then m else b) = min b m"
  by simp

lemma min_pow_step:
  assumes "0 \<le> d" "0 \<le> (m :: int)"
  shows "min (min (2 * d) m * 2 ^ k) m = min (d * 2 ^ Suc k) m"
proof (cases "2 * d \<le> m")
  case True
  then show ?thesis by (simp add: mult_ac)
next
  case False
  have "1 \<le> (2 :: int) ^ k" by simp
  then have "m * 1 \<le> m * 2 ^ k" "m * 1 \<le> (2 * d) * 2 ^ k"
    using assms False by (auto intro!: mult_mono simp del: mult_1_right)
  with False show ?thesis by (simp add: mult_ac)
qed

lemma min_pow:
  assumes "0 \<le> b" "0 \<le> (m :: int)"
  shows "min (min b m * 2 ^ k) m = min (b * 2 ^ k) m"
proof (cases "b \<le> m")
  case False
  have "1 \<le> (2 :: int) ^ k" by simp
  then have "m * 1 \<le> m * 2 ^ k" "m * 1 \<le> b * 2 ^ k"
    using assms False by (auto intro!: mult_mono simp del: mult_1_right)
  with False show ?thesis by simp
qed simp

lemma exponential_decisions:
  "0 \<le> d \<Longrightarrow> d \<le> m \<Longrightarrow> m \<le> max_duration \<Longrightarrow>
   map delay (decisions (exponential_step d m) is) = map (\<lambda>k. min (d * 2 ^ k) m) [0..<length is]
   \<and> list_all continues (decisions (exponential_step d m) is)"
proof (induction "is" arbitrary: d)
  case (Cons x "is")
  have "0 \<le> double_within d m" "double_within d m \<le> m"
    using Cons.prems by (auto simp: double_within_min)
  with Cons show ?case
    by (cases x)
       (simp add: driver_next_def continue_schedule_def double_within_min min_pow_step upt_conv_Cons
        map_Suc_upt [symmetric] comp_def del: upt_Suc power_Suc)
qed simp

text \<open>The Fibonacci numbers from two starting values.\<close>

fun fib_from :: "int \<Rightarrow> int \<Rightarrow> nat \<Rightarrow> int" where
  "fib_from a b 0 = a"
| "fib_from a b (Suc k) = fib_from b (a + b) k"

lemma fibonacci_decisions:
  "0 \<le> a \<Longrightarrow> 0 \<le> b \<Longrightarrow> 0 \<le> m \<Longrightarrow> m \<le> max_duration \<Longrightarrow>
   map delay (decisions (fibonacci_step (min a m) (min b m) m) is) = map (\<lambda>k. min (fib_from a b k) m) [0..<length is]
   \<and> list_all continues (decisions (fibonacci_step (min a m) (min b m) m) is)"
proof (induction "is" arbitrary: a b)
  case (Cons x "is")
  have "add_within (min a m) (min b m) m = min (a + b) m"
    using Cons.prems by (subst add_within_min) (auto simp: min_def)
  with Cons show ?case
    by (cases x)
       (simp add: driver_next_def continue_schedule_nonneg upt_conv_Cons
        map_Suc_upt [symmetric] comp_def del: upt_Suc)
qed simp

lemma recurs_decisions:
  "n \<le> max_count \<Longrightarrow>
   map continues (decisions (count_step c 0 (Some n)) is) = map (\<lambda>k. c + k < n) [0..<length is]"
proof (induction "is" arbitrary: c)
  case (Cons x "is")
  have "next_count c + k < n \<longleftrightarrow> c + Suc k < n" for k
    using Cons.prems by (auto simp: next_count_def)
  moreover have "map continues (decisions (count_step (next_count c) 0 (Some n)) is) =
      map (\<lambda>k. next_count c + k < n) [0..<length is]"
    by (rule Cons.IH [OF Cons.prems])
  ultimately show ?case
    by (cases x)
       (simp add: driver_next_def continue_schedule_def stop_schedule_def upt_conv_Cons
        map_Suc_upt [symmetric] comp_def not_le del: upt_Suc)
qed simp

text \<open>
  The backoff policies decide the sequences they are named for, capped, with no overflow at any
  length of the run: the k-th delay of \<open>Exponential\<close> is the base times two to the k, that of
  \<open>Fibonacci\<close> the k-th Fibonacci multiple, each at most the maximum, negative arguments counting
  as zero. \<open>Recurs\<close> continues exactly as often as it was told.
\<close>

theorem backoff_sequences:
  assumes "in_int64 base" "in_int64 maximum" "n \<le> max_count"
  shows "map delay (decisions (the (exponential base maximum)) is) =
      map (\<lambda>k. min (max 0 base * 2 ^ k) (max 0 maximum)) [0..<length is]
    \<and> map delay (decisions (the (fibonacci base maximum)) is) =
      map (\<lambda>k. min (fib_from (max 0 base) (max 0 base) k) (max 0 maximum)) [0..<length is]
    \<and> map continues (decisions (the (recurs n)) is) = map (\<lambda>k. k < n) [0..<length is]"
proof (intro conjI)
  let ?b = "max 0 base" and ?m = "max 0 maximum"
  have nd: "normalize_duration d = max 0 d" for d by (simp add: normalize_duration_def)
  have m: "?m \<le> max_duration" using assms(2) by (simp add: in_int64_def)
  have start0: "(if ?b > ?m then ?m else ?b) = min ?b ?m" by (rule if_cases_min)
  have start: "exponential base maximum = Some (exponential_step (min ?b ?m) ?m)"
    "fibonacci base maximum = Some (fibonacci_step (min ?b ?m) (min ?b ?m) ?m)"
    unfolding exponential_def fibonacci_def nd Let_def start0 by (rule refl)+
  have pow: "min (min ?b ?m * 2 ^ k) ?m = min (?b * 2 ^ k) ?m" for k
    by (rule min_pow) simp_all
  show "map delay (decisions (the (exponential base maximum)) is) =
      map (\<lambda>k. min (?b * 2 ^ k) ?m) [0..<length is]"
    using exponential_decisions [of "min ?b ?m" ?m "is"] m
    by (simp add: start pow)
  show "map delay (decisions (the (fibonacci base maximum)) is) =
      map (\<lambda>k. min (fib_from ?b ?b k) ?m) [0..<length is]"
    using fibonacci_decisions [of ?b ?b ?m "is"] m
    by (simp add: start)
  show "map continues (decisions (the (recurs n)) is) = map (\<lambda>k. k < n) [0..<length is]"
    using recurs_decisions [OF assms(3), of 0 "is"] by (simp add: recurs_def)
qed

theorem backoff_sequences_witness:
  "map delay (decisions (the (exponential 3 20)) [(0, ()), (5, ()), (9, ()), (12, ())]) = [3, 6, 12, 20]"
  using backoff_sequences [of 3 20 0 "[(0, ()), (5, ()), (9, ()), (12, ())]"]
  by (simp add: in_int64_def min_duration_def max_duration_def upt_rec)

end
