(* ===== verification/Rate_Limit.thy ===== *)
theory Rate_Limit
  imports Prelude
begin

section \<open>The rate limiter\<close>

text \<open>
  \<^verbatim>\<open>effect/rate/rate.go\<close> and \<^verbatim>\<open>memory.go\<close>. A \<open>time.Time\<close> is an integer number of
  nanoseconds since the zero time, a \<open>time.Duration\<close> an \<open>int64\<close>. The limiter is the map from an
  allowance's name to the next arrival, and \<open>turn\<close> is the section under its mutex, the clock's
  answer an argument.
\<close>

record allowance =
  allowance_name :: string
  most :: int
  every :: int

definition is_stated :: "allowance \<Rightarrow> bool" where
  "is_stated a \<longleftrightarrow> allowance_name a \<noteq> [] \<and> most a > 0 \<and> every a > 0"

definition spacing :: "allowance \<Rightarrow> int" where
  "spacing a = (if \<not> is_stated a then 0 else go_div (every a) (most a))"

record rate_fault =
  fault_allowance :: string
  fault_err :: nilable_err

definition err_unstated :: go_err where
  "err_unstated = GoErr 1 ''an allowance is a count and a period, under a name'' []"

definition err_limit_exceeded :: go_err where
  "err_limit_exceeded = GoErr 2 ''the queue is longer than this program will wait'' []"

text \<open>The message of a fault.\<close>

definition rate_fault_error :: "rate_fault \<Rightarrow> string" where
  "rate_fault_error f =
     ''rate: '' @ fault_allowance f @
     (case fault_err f of None \<Rightarrow> [] | Some e \<Rightarrow> '': '' @ err_text e)"

type_synonym limiter = "string \<Rightarrow> int option"

definition new_memory_limiter :: limiter where
  "new_memory_limiter = (\<lambda>_. None)"

text \<open>A name nobody asked under yet reads the zero time.\<close>

definition next_arrival :: "limiter \<Rightarrow> string \<Rightarrow> int" where
  "next_arrival lim n = (case lim n of None \<Rightarrow> 0 | Some t \<Rightarrow> t)"

definition turn :: "int \<Rightarrow> allowance \<Rightarrow> int \<Rightarrow> limiter \<Rightarrow> (int \<times> rate_fault option) \<times> limiter" where
  "turn now a longest lim =
     (if \<not> is_stated a
      then ((0, Some \<lparr>fault_allowance = allowance_name a, fault_err = Some err_unstated\<rparr>), lim)
      else
        let space = spacing a;
            arrival = next_arrival lim (allowance_name a);
            arrival = (if arrival < now then now else arrival);
            tolerance = wrap64 (wrap64 (most a - 1) * space);
            wait = time_sub (arrival + wrap64 (- tolerance)) now;
            wait = (if wait < 0 then 0 else wait)
        in if longest > 0 \<and> wait > longest
           then ((wait, Some \<lparr>fault_allowance = allowance_name a, fault_err = Some err_limit_exceeded\<rparr>), lim)
           else ((wait, None), lim(allowance_name a \<mapsto> arrival + space)))"

subsection \<open>The arithmetic of one turn\<close>

text \<open>A stated allowance, its numbers those an \<open>int\<close> and a \<open>Duration\<close> can hold.\<close>

definition sound_allowance :: "allowance \<Rightarrow> bool" where
  "sound_allowance a \<longleftrightarrow> is_stated a \<and> most a \<le> max_duration \<and> every a \<le> max_duration"

lemma spacing_stated: "is_stated a \<Longrightarrow> spacing a = every a div most a"
  by (simp add: spacing_def is_stated_def go_div_nonneg)

lemma spacing_nonneg: "0 \<le> spacing a"
  by (auto simp: spacing_def is_stated_def go_div_nonneg pos_imp_zdiv_nonneg_iff)

lemma tolerance_range:
  assumes "sound_allowance a"
  shows "0 \<le> (most a - 1) * spacing a" "(most a - 1) * spacing a \<le> max_duration"
proof -
  have st: "is_stated a" and r: "every a \<le> max_duration"
    using assms by (simp_all add: sound_allowance_def)
  then show "0 \<le> (most a - 1) * spacing a"
    using spacing_nonneg [of a] by (simp add: is_stated_def)
  have "most a * spacing a \<le> every a"
    using st minus_mod_eq_mult_div [of "every a" "most a", symmetric] pos_mod_sign [of "most a" "every a"]
    by (simp add: spacing_stated is_stated_def)
  moreover have "(most a - 1) * spacing a \<le> most a * spacing a"
    using spacing_nonneg [of a] by (simp add: mult_right_mono)
  ultimately show "(most a - 1) * spacing a \<le> max_duration" using r by linarith
qed

lemma tolerance_wraps_not:
  assumes "sound_allowance a"
  shows "wrap64 (- wrap64 (wrap64 (most a - 1) * spacing a)) = - ((most a - 1) * spacing a)"
proof -
  have "in_int64 (most a - 1)"
    using assms by (auto simp: sound_allowance_def is_stated_def in_int64_def min_duration_def)
  moreover have "in_int64 ((most a - 1) * spacing a)" "in_int64 (- ((most a - 1) * spacing a))"
    using tolerance_range [OF assms] by (auto simp: in_int64_def min_duration_def max_duration_def)
  ultimately show ?thesis by simp
qed

text \<open>One turn in exact arithmetic: \<open>arrival\<close> is the moment the caller would claim.\<close>

definition arrival_at :: "limiter \<Rightarrow> allowance \<Rightarrow> int \<Rightarrow> int" where
  "arrival_at lim a now = max (next_arrival lim (allowance_name a)) now"

definition exact_wait :: "limiter \<Rightarrow> allowance \<Rightarrow> int \<Rightarrow> int" where
  "exact_wait lim a now = max 0 (arrival_at lim a now - (most a - 1) * spacing a - now)"

lemma turn_sound:
  assumes "sound_allowance a"
  shows "turn now a longest lim =
    (let wait = min max_duration (exact_wait lim a now) in
     if longest > 0 \<and> wait > longest
     then ((wait, Some \<lparr>fault_allowance = allowance_name a, fault_err = Some err_limit_exceeded\<rparr>), lim)
     else ((wait, None), lim(allowance_name a \<mapsto> arrival_at lim a now + spacing a)))"
proof -
  have st: "is_stated a" using assms by (simp add: sound_allowance_def)
  let ?d = "arrival_at lim a now + - ((most a - 1) * spacing a)"
  have ar: "(if next_arrival lim (allowance_name a) < now then now else next_arrival lim (allowance_name a)) =
      arrival_at lim a now"
    by (simp add: arrival_at_def)
  have "(if time_sub ?d now < 0 then 0 else time_sub ?d now) = min max_duration (exact_wait lim a now)"
    by (auto simp: time_sub_def exact_wait_def min_duration_def max_duration_def)
  then show ?thesis
    using st by (simp only: turn_def Let_def ar tolerance_wraps_not [OF assms] not_True_eq_False if_False)
qed

subsection \<open>Refusals and isolation\<close>

text \<open>
  A turn is refused exactly when the allowance is unstated or the wait is longer than a positive
  ceiling, a refusal leaves the limiter exactly as it was, the wait is reported either way, and no
  turn touches another allowance's queue.
\<close>

theorem refused_turn_reserves_nothing:
  assumes "turn now a longest lim = ((wait, fault), lim')"
  shows "(\<not> is_stated a \<longrightarrow> fault \<noteq> None \<and> wait = 0)
    \<and> (fault \<noteq> None \<longrightarrow> lim' = lim)
    \<and> (sound_allowance a \<longrightarrow>
        wait = min max_duration (exact_wait lim a now)
        \<and> (fault \<noteq> None \<longleftrightarrow> longest > 0 \<and> wait > longest)
        \<and> (fault = None \<longrightarrow> lim' (allowance_name a) = Some (arrival_at lim a now + spacing a)))
    \<and> (\<forall>n. n \<noteq> allowance_name a \<longrightarrow> lim' n = lim n)"
proof (cases "is_stated a")
  case True
  then have "(fault \<noteq> None \<longrightarrow> lim' = lim) \<and> (\<forall>n. n \<noteq> allowance_name a \<longrightarrow> lim' n = lim n)"
    using assms by (auto simp: turn_def Let_def split: if_splits)
  moreover have "sound_allowance a \<longrightarrow>
        wait = min max_duration (exact_wait lim a now)
        \<and> (fault \<noteq> None \<longleftrightarrow> longest > 0 \<and> wait > longest)
        \<and> (fault = None \<longrightarrow> lim' (allowance_name a) = Some (arrival_at lim a now + spacing a))"
    using assms turn_sound [of a now longest lim] by (auto simp: Let_def split: if_splits)
  ultimately show ?thesis using True by simp
next
  case False
  with assms show ?thesis by (auto simp: turn_def sound_allowance_def)
qed

theorem refused_turn_reserves_nothing_witness:
  "turn 100 \<lparr>allowance_name = ''api'', most = 1, every = 60\<rparr> 10 [''api'' \<mapsto> 150] =
     ((50, Some \<lparr>fault_allowance = ''api'', fault_err = Some err_limit_exceeded\<rparr>), [''api'' \<mapsto> 150])
   \<and> snd (turn 100 \<lparr>allowance_name = ''api'', most = 1, every = 60\<rparr> 10 [''api'' \<mapsto> 150]) = [''api'' \<mapsto> 150]"
proof -
  let ?a = "\<lparr>allowance_name = ''api'', most = 1, every = 60\<rparr> :: allowance"
  have eq: "turn 100 ?a 10 [''api'' \<mapsto> 150] =
     ((50, Some \<lparr>fault_allowance = ''api'', fault_err = Some err_limit_exceeded\<rparr>), [''api'' \<mapsto> 150])"
    by (simp add: turn_def is_stated_def Let_def next_arrival_def time_sub_def min_duration_def
        max_duration_def wrap64_def)
  from refused_turn_reserves_nothing [OF eq] eq show ?thesis by simp
qed

subsection \<open>The rate is kept\<close>

text \<open>
  Any sequence of requests, under any allowances: each with the clock reading it was made at and the
  longest it will wait. The moments \<open>granted\<close> to \<open>a\<close> are when its callers may proceed.
\<close>

fun granted :: "allowance \<Rightarrow> (int \<times> allowance \<times> int) list \<Rightarrow> limiter \<Rightarrow> int list" where
  "granted a [] lim = []"
| "granted a ((now, b, longest) # rs) lim =
     (case turn now b longest lim of
        ((wait, None), lim') \<Rightarrow> (if b = a then [now + wait] else []) @ granted a rs lim'
      | ((_, Some _), lim') \<Rightarrow> granted a rs lim')"

text \<open>No wait is as long as the 292 years at which a \<open>Duration\<close> saturates.\<close>

fun unsaturated :: "allowance \<Rightarrow> (int \<times> allowance \<times> int) list \<Rightarrow> limiter \<Rightarrow> bool" where
  "unsaturated a [] lim \<longleftrightarrow> True"
| "unsaturated a ((now, b, longest) # rs) lim \<longleftrightarrow>
     (b = a \<longrightarrow> fst (fst (turn now b longest lim)) < max_duration)
     \<and> unsaturated a rs (snd (turn now b longest lim))"

lemma granted_Cons:
  "granted a ((now, b, longest) # rs) lim =
     (case snd (fst (turn now b longest lim)) of
        None \<Rightarrow> (if b = a then [now + fst (fst (turn now b longest lim))] else [])
      | Some _ \<Rightarrow> []) @ granted a rs (snd (turn now b longest lim))"
  by (auto split: prod.splits option.splits)

lemma turn_other:
  "allowance_name b \<noteq> n \<Longrightarrow> snd (turn now b longest lim) n = lim n"
  by (auto simp: turn_def Let_def)

lemma turn_refused: "snd (fst (turn now b longest lim)) = Some f \<Longrightarrow> snd (turn now b longest lim) = lim"
  by (auto simp: turn_def Let_def split: if_splits)

lemma turn_granted:
  assumes "sound_allowance a" "snd (fst (turn now a longest lim)) = None"
    "fst (fst (turn now a longest lim)) < max_duration"
  shows "now + fst (fst (turn now a longest lim)) =
      max now (arrival_at lim a now - (most a - 1) * spacing a)"
    "next_arrival (snd (turn now a longest lim)) (allowance_name a) = arrival_at lim a now + spacing a"
proof -
  have e: "exact_wait lim a now < max_duration"
    using assms(2,3) by (auto simp: turn_sound [OF assms(1)] Let_def split: if_splits)
  then have t: "turn now a longest lim =
      ((exact_wait lim a now, None), lim(allowance_name a \<mapsto> arrival_at lim a now + spacing a))"
    using assms(2) by (auto simp: turn_sound [OF assms(1)] Let_def split: if_splits)
  show "now + fst (fst (turn now a longest lim)) = max now (arrival_at lim a now - (most a - 1) * spacing a)"
    by (simp add: t exact_wait_def max_def)
  show "next_arrival (snd (turn now a longest lim)) (allowance_name a) = arrival_at lim a now + spacing a"
    by (simp add: t next_arrival_def)
qed

lemma granted_lower_bound:
  assumes "sound_allowance a" "\<forall>(now, b, longest)\<in>set rs. allowance_name b = allowance_name a \<longrightarrow> b = a"
    "unsaturated a rs lim" "j < length (granted a rs lim)"
  shows "next_arrival lim (allowance_name a) + int j * spacing a - (most a - 1) * spacing a
      \<le> granted a rs lim ! j"
  using assms(2-4)
proof (induction rs arbitrary: lim j)
  case (Cons r rs)
  obtain now b longest where r: "r = (now, b, longest)" by (cases r)
  let ?t = "turn now b longest lim"
  have IH: "next_arrival (snd ?t) (allowance_name a) + int k * spacing a - (most a - 1) * spacing a
      \<le> granted a rs (snd ?t) ! k" if "k < length (granted a rs (snd ?t))" for k
    using Cons.IH [of "snd ?t" k] Cons.prems that r by auto
  show ?case
  proof (cases "b = a \<and> snd (fst ?t) = None")
    case False
    have "next_arrival (snd ?t) (allowance_name a) = next_arrival lim (allowance_name a)"
    proof (cases "b = a")
      case True
      with False turn_refused show ?thesis by fastforce
    next
      case False
      with Cons.prems(1) r have "allowance_name b \<noteq> allowance_name a" by auto
      then show ?thesis by (simp add: next_arrival_def turn_other)
    qed
    moreover have "granted a (r # rs) lim = granted a rs (snd ?t)"
      using False by (auto simp: r granted_Cons simp del: granted.simps split: option.splits)
    ultimately show ?thesis using IH [of j] Cons.prems(3) by simp
  next
    case True
    then have t: "now + fst (fst ?t) = max now (arrival_at lim a now - (most a - 1) * spacing a)"
      "next_arrival (snd ?t) (allowance_name a) = arrival_at lim a now + spacing a"
      using turn_granted [OF assms(1), of now longest lim] Cons.prems(2) r by auto
    have g: "granted a (r # rs) lim = (now + fst (fst ?t)) # granted a rs (snd ?t)"
      using True by (auto simp: r granted_Cons simp del: granted.simps)
    have le: "next_arrival lim (allowance_name a) \<le> arrival_at lim a now"
      by (simp add: arrival_at_def)
    show ?thesis
    proof (cases j)
      case 0
      with g t le show ?thesis by (simp del: granted.simps)
    next
      case (Suc k)
      have "arrival_at lim a now + spacing a + int k * spacing a - (most a - 1) * spacing a
          \<le> granted a rs (snd ?t) ! k"
        using IH [of k] Cons.prems(3) g t(2) Suc by (simp del: granted.simps)
      with g le Suc show ?thesis by (simp add: algebra_simps del: granted.simps)
    qed
  qed
qed simp

lemma granted_spacing:
  assumes "sound_allowance a" "\<forall>(now, b, longest)\<in>set rs. allowance_name b = allowance_name a \<longrightarrow> b = a"
    "unsaturated a rs lim" "i + n < length (granted a rs lim)"
  shows "granted a rs lim ! i + (int n - most a + 1) * spacing a \<le> granted a rs lim ! (i + n)
    \<or> n = 0"
  using assms(2-4)
proof (induction rs arbitrary: lim i)
  case (Cons r rs)
  obtain now b longest where r: "r = (now, b, longest)" by (cases r)
  let ?t = "turn now b longest lim"
  have same: "\<forall>(now, b, longest)\<in>set rs. allowance_name b = allowance_name a \<longrightarrow> b = a"
    and unsat: "unsaturated a rs (snd ?t)"
    using Cons.prems r by auto
  show ?case
  proof (cases "b = a \<and> snd (fst ?t) = None")
    case False
    then have "granted a (r # rs) lim = granted a rs (snd ?t)"
      by (auto simp: r granted_Cons simp del: granted.simps split: option.splits)
    then show ?thesis using Cons.IH [OF same unsat] Cons.prems(3) by simp
  next
    case True
    then have t: "now + fst (fst ?t) = max now (arrival_at lim a now - (most a - 1) * spacing a)"
      "next_arrival (snd ?t) (allowance_name a) = arrival_at lim a now + spacing a"
      using turn_granted [OF assms(1), of now longest lim] Cons.prems(2) r by auto
    have g: "granted a (r # rs) lim = (now + fst (fst ?t)) # granted a rs (snd ?t)"
      using True by (auto simp: r granted_Cons simp del: granted.simps)
    have first: "now + fst (fst ?t) \<le> arrival_at lim a now"
      unfolding t(1) using tolerance_range(1) [OF assms(1)] by (auto simp: arrival_at_def)
    show ?thesis
    proof (cases i)
      case (Suc i')
      with g Cons.IH [OF same unsat, of i'] Cons.prems(3) show ?thesis
        by (simp del: granted.simps)
    next
      case 0
      show ?thesis
      proof (cases n)
        case (Suc k)
        have "arrival_at lim a now + spacing a + int k * spacing a - (most a - 1) * spacing a
            \<le> granted a rs (snd ?t) ! k"
          using granted_lower_bound [OF assms(1) same unsat, of k] Cons.prems(3) g t(2) Suc 0
          by (simp del: granted.simps)
        with first g Suc 0 show ?thesis by (simp add: algebra_simps del: granted.simps)
      qed simp
    qed
  qed
qed simp


text \<open>An allowance of two in sixty, asked three times at once.\<close>

definition two_a_minute :: allowance where
  "two_a_minute = \<lparr>allowance_name = ''api'', most = 2, every = 60\<rparr>"

lemma two_a_minute_sound: "sound_allowance two_a_minute" "spacing two_a_minute = 30"
  by (simp_all add: two_a_minute_def is_stated_def spacing_def go_div_def max_duration_def sound_allowance_def)

lemma two_a_minute_turn:
  "turn 100 two_a_minute 0 lim =
     ((min max_duration (exact_wait lim two_a_minute 100), None),
      lim(''api'' \<mapsto> arrival_at lim two_a_minute 100 + 30))"
  by (simp add: turn_sound [OF two_a_minute_sound(1)] Let_def two_a_minute_sound(2))
     (simp add: two_a_minute_def)

lemma three_turns:
  "granted two_a_minute [(100, two_a_minute, 0), (100, two_a_minute, 0), (100, two_a_minute, 0)]
     new_memory_limiter = [100, 100, 130]"
  "unsaturated two_a_minute [(100, two_a_minute, 0), (100, two_a_minute, 0), (100, two_a_minute, 0)]
     new_memory_limiter"
proof -
  have m: "min max_duration 30 = 30" "30 < max_duration" by (simp_all add: max_duration_def)
  show "granted two_a_minute [(100, two_a_minute, 0), (100, two_a_minute, 0), (100, two_a_minute, 0)]
     new_memory_limiter = [100, 100, 130]"
    "unsaturated two_a_minute [(100, two_a_minute, 0), (100, two_a_minute, 0), (100, two_a_minute, 0)]
     new_memory_limiter"
    by (simp_all add: two_a_minute_turn exact_wait_def arrival_at_def next_arrival_def two_a_minute_sound(2)
        new_memory_limiter_def m) (simp_all add: two_a_minute_def m)
qed


text \<open>
  With more turns than nanoseconds the integer division leaves no spacing at all, and a stated
  allowance never makes anyone wait.
\<close>

lemma spacing_lost_to_division:
  assumes "sound_allowance a" "every a < most a" "next_arrival lim (allowance_name a) \<le> now"
  shows "spacing a = 0 \<and> turn now a longest lim = ((0, None), lim(allowance_name a \<mapsto> now))"
proof -
  have "spacing a = 0"
    using assms(1,2) by (simp add: sound_allowance_def spacing_stated) (simp add: is_stated_def)
  moreover have "arrival_at lim a now = now"
    using assms(3) by (simp add: arrival_at_def)
  ultimately show ?thesis
    by (simp add: turn_sound [OF assms(1)] exact_wait_def Let_def)
qed

end
