(* ===== verification/Cache_LRU.thy ===== *)
theory Cache_LRU
  imports Prelude "HOL-Library.Char_ord" "HOL-Library.List_Lexorder"
begin

section \<open>The bounded cache\<close>

text \<open>
  \<^verbatim>\<open>effect/cache/lru.go\<close>, \<^verbatim>\<open>memory.go\<close> and \<^verbatim>\<open>operations.go\<close>. The cache keeps a
  map from keys to list elements, the list of elements most recently used first, and an index from
  subjects to keys. A list element is a pointer: a number here, what it points at in \<open>entry_of\<close>.
  \<open>entries\<close> reads the three structures as one list of entries, and every operation is shown to
  implement the obvious operation on that list.
\<close>

record 'a lru_entry =
  key :: string
  subject :: string
  held :: 'a
  until :: int

record 'a lru =
  bound :: nat
  elements :: "string \<Rightarrow> nat option"
  order :: "nat list"
  about :: "string \<Rightarrow> string set option"
  entry_of :: "nat \<Rightarrow> 'a lru_entry"
  fresh_element :: nat

definition new_lru :: "int \<Rightarrow> 'a lru" where
  "new_lru most =
     \<lparr>bound = nat (if most < 1 then 1 else most), elements = (\<lambda>_. None), order = [],
      about = (\<lambda>_. None), entry_of = (\<lambda>_. undefined), fresh_element = 0\<rparr>"

text \<open>\<open>drop\<close>: the element leaves the list, the map and its subject's index.\<close>

definition drop_element :: "nat \<Rightarrow> 'a lru \<Rightarrow> 'a lru" where
  "drop_element e c =
     (let entry = entry_of c e; c = c\<lparr>order := remove1 e (order c), elements := (elements c)(key entry := None)\<rparr>
      in case about c (subject entry) of
           None \<Rightarrow> c
         | Some keys \<Rightarrow>
             (let keys = keys - {key entry}
              in c\<lparr>about := (about c)(subject entry := (if keys = {} then None else Some keys))\<rparr>))"

definition lru_get :: "int \<Rightarrow> string \<Rightarrow> 'a lru \<Rightarrow> 'a option \<times> 'a lru" where
  "lru_get now k c =
     (case elements c k of
        None \<Rightarrow> (None, c)
      | Some e \<Rightarrow>
          if now > until (entry_of c e) then (None, drop_element e c)
          else (Some (held (entry_of c e)), c\<lparr>order := e # remove1 e (order c)\<rparr>))"

text \<open>The eviction loop; \<open>Back\<close> is the last element.\<close>

lemma order_drop_element [simp]: "order (drop_element e c) = remove1 e (order c)"
  by (simp add: drop_element_def Let_def split: option.splits)

lemma bound_drop_element [simp]: "bound (drop_element e c) = bound c"
  by (simp add: drop_element_def Let_def split: option.splits)

function evict :: "'a lru \<Rightarrow> 'a lru" where
  "evict c = (if length (order c) > bound c then evict (drop_element (last (order c)) c) else c)"
  by pat_completeness auto
termination
  by (relation "measure (\<lambda>c. length (order c))") (auto simp: length_remove1 intro: last_in_set)

declare evict.simps [simp del]

definition lru_put :: "int \<Rightarrow> string \<Rightarrow> string \<Rightarrow> 'a \<Rightarrow> int \<Rightarrow> 'a lru \<Rightarrow> 'a lru" where
  "lru_put now k subj a fresh c =
     (if k = [] \<or> fresh \<le> 0 then c
      else
        let c = (case elements c k of Some e \<Rightarrow> drop_element e c | None \<Rightarrow> c);
            e = fresh_element c;
            c = c\<lparr>entry_of := (entry_of c)(e := \<lparr>key = k, subject = subj, held = a, until = now + fresh\<rparr>),
                  fresh_element := Suc e, elements := (elements c)(k \<mapsto> e), order := e # order c\<rparr>;
            c = (if subj \<noteq> []
                 then c\<lparr>about := (about c)(subj \<mapsto>
                        insert k (case about c subj of None \<Rightarrow> {} | Some keys \<Rightarrow> keys))\<rparr>
                 else c)
        in evict c)"

text \<open>
  \<open>Invalidate\<close> ranges over the subject's keys while \<open>drop\<close> deletes from the same set; the order is
  unspecified, so \<open>order'\<close> is any enumeration of them.
\<close>

definition drop_key :: "string \<Rightarrow> 'a lru \<Rightarrow> 'a lru" where
  "drop_key k c = (case elements c k of Some e \<Rightarrow> drop_element e c | None \<Rightarrow> c)"

definition lru_invalidate_in :: "string list \<Rightarrow> string \<Rightarrow> 'a lru \<Rightarrow> 'a lru" where
  "lru_invalidate_in ks subj c =
     (let c = fold drop_key ks c in c\<lparr>about := (about c)(subj := None)\<rparr>)"

definition about_keys :: "'a lru \<Rightarrow> string \<Rightarrow> string set" where
  "about_keys c subj = (case about c subj of None \<Rightarrow> {} | Some keys \<Rightarrow> keys)"

definition lru_len :: "'a lru \<Rightarrow> nat" where
  "lru_len c = length (order c)"

subsection \<open>The abstract cache: a list of entries, most recently used first\<close>

definition entries :: "'a lru \<Rightarrow> 'a lru_entry list" where
  "entries c = map (entry_of c) (order c)"

definition without :: "string \<Rightarrow> 'a lru_entry list \<Rightarrow> 'a lru_entry list" where
  "without k es = filter (\<lambda>e. key e \<noteq> k) es"

definition find_entry :: "string \<Rightarrow> 'a lru_entry list \<Rightarrow> 'a lru_entry option" where
  "find_entry k es = find (\<lambda>e. key e = k) es"

definition abs_get :: "int \<Rightarrow> string \<Rightarrow> 'a lru_entry list \<Rightarrow> 'a option \<times> 'a lru_entry list" where
  "abs_get now k es =
     (case find_entry k es of
        None \<Rightarrow> (None, es)
      | Some e \<Rightarrow> if now > until e then (None, without k es) else (Some (held e), e # without k es))"

definition abs_put :: "nat \<Rightarrow> int \<Rightarrow> string \<Rightarrow> string \<Rightarrow> 'a \<Rightarrow> int \<Rightarrow> 'a lru_entry list \<Rightarrow> 'a lru_entry list" where
  "abs_put most now k subj a fresh es =
     (if k = [] \<or> fresh \<le> 0 then es
      else take most (\<lparr>key = k, subject = subj, held = a, until = now + fresh\<rparr> # without k es))"

definition abs_invalidate :: "string \<Rightarrow> 'a lru_entry list \<Rightarrow> 'a lru_entry list" where
  "abs_invalidate subj es = (if subj = [] then es else filter (\<lambda>e. subject e \<noteq> subj) es)"

subsection \<open>The invariant\<close>

text \<open>
  The keys of the entries are distinct, the map is exactly their index, and the subject index lists
  for each subject, never the empty one, exactly the keys of its entries and no empty set.
\<close>

definition subject_keys :: "'a lru_entry list \<Rightarrow> string \<Rightarrow> string set" where
  "subject_keys es subj = key ` {e \<in> set es. subject e = subj}"

definition lru_rep :: "'a lru \<Rightarrow> bool" where
  "lru_rep c \<longleftrightarrow>
     distinct (map key (entries c))
   \<and> (\<forall>e\<in>set (order c). e < fresh_element c)
   \<and> (\<forall>k e. elements c k = Some e \<longleftrightarrow> e \<in> set (order c) \<and> key (entry_of c e) = k)
   \<and> (\<forall>subj. about c subj =
        (if subj = [] \<or> subject_keys (entries c) subj = {} then None else Some (subject_keys (entries c) subj)))"

definition lru_inv :: "'a lru \<Rightarrow> bool" where
  "lru_inv c \<longleftrightarrow> lru_rep c \<and> 1 \<le> bound c \<and> length (order c) \<le> bound c"

lemma distinct_keys_order: "distinct (map key (entries c)) \<Longrightarrow> distinct (order c)"
  by (metis entries_def distinct_map map_map)

lemma without_remove1:
  assumes "distinct (map key (entries c))" "e \<in> set (order c)"
  shows "map (entry_of c) (remove1 e (order c)) = without (key (entry_of c e)) (entries c)"
proof -
  have d: "distinct (order c)" using distinct_keys_order [OF assms(1)] .
  have "key (entry_of c x) \<noteq> key (entry_of c e) \<longleftrightarrow> x \<noteq> e" if "x \<in> set (order c)" for x
    using assms that by (auto simp: entries_def distinct_map inj_on_def)
  then have "filter (\<lambda>x. key (entry_of c x) \<noteq> key (entry_of c e)) (order c) = filter (\<lambda>x. x \<noteq> e) (order c)"
    by (intro filter_cong) auto
  then show ?thesis
    using d by (simp add: without_def entries_def filter_map comp_def distinct_remove1_removeAll
        removeAll_filter_not_eq eq_commute)
qed

lemma entry_of_drop_element [simp]: "entry_of (drop_element e c) = entry_of c"
  by (simp add: drop_element_def Let_def split: option.splits)

lemma elements_drop_element [simp]:
  "elements (drop_element e c) = (elements c)(key (entry_of c e) := None)"
  by (simp add: drop_element_def Let_def split: option.splits)

lemma fresh_drop_element [simp]: "fresh_element (drop_element e c) = fresh_element c"
  by (simp add: drop_element_def Let_def split: option.splits)

lemma about_drop_element:
  "about (drop_element e c) =
     (case about c (subject (entry_of c e)) of
        None \<Rightarrow> about c
      | Some keys \<Rightarrow> (about c)(subject (entry_of c e) :=
          (if keys - {key (entry_of c e)} = {} then None else Some (keys - {key (entry_of c e)}))))"
  by (simp add: drop_element_def Let_def split: option.splits)

lemma entries_drop_element:
  "distinct (map key (entries c)) \<Longrightarrow> e \<in> set (order c) \<Longrightarrow>
   entries (drop_element e c) = without (key (entry_of c e)) (entries c)"
  using without_remove1 [of c e] by (simp add: entries_def)

lemma subject_keys_without:
  assumes "distinct (map key es)" "e \<in> set es"
  shows "subject_keys (without (key e) es) subj =
    (if subj = subject e then subject_keys es subj - {key e} else subject_keys es subj)"
proof -
  have "x = e" if "x \<in> set es" "key x = key e" for x
    using assms that by (auto simp: distinct_map inj_on_def)
  then show ?thesis by (auto simp: subject_keys_def without_def)
qed

lemma lru_rep_drop:
  assumes "lru_rep c" "e \<in> set (order c)"
  shows "lru_rep (drop_element e c)"
proof -
  have d: "distinct (map key (entries c))" and dk: "distinct (order c)"
    using assms(1) distinct_keys_order by (auto simp: lru_rep_def)
  have abs': "entries (drop_element e c) = without (key (entry_of c e)) (entries c)"
    using entries_drop_element [OF d assms(2)] .
  have en: "entry_of c e \<in> set (entries c)" using assms(2) by (simp add: entries_def)
  have inj: "x = e" if "x \<in> set (order c)" "key (entry_of c x) = key (entry_of c e)" for x
    using d assms(2) that by (auto simp: entries_def distinct_map inj_on_def)
  have "distinct (map key (entries (drop_element e c)))"
    using d by (simp add: abs' without_def distinct_map_filter)
  moreover have "\<forall>x\<in>set (order (drop_element e c)). x < fresh_element (drop_element e c)"
    using assms(1) by (auto simp: lru_rep_def dest: notin_set_remove1)
  moreover have "elements (drop_element e c) k = Some x \<longleftrightarrow>
      x \<in> set (order (drop_element e c)) \<and> key (entry_of (drop_element e c) x) = k" for k x
    using assms dk inj by (auto simp: lru_rep_def)
  moreover have "about (drop_element e c) subj =
      (if subj = [] \<or> subject_keys (entries (drop_element e c)) subj = {} then None
       else Some (subject_keys (entries (drop_element e c)) subj))" for subj
    using assms(1) subject_keys_without [OF d en, of subj] subject_keys_without [OF d en, of "subject (entry_of c e)"]
    by (auto simp: abs' about_drop_element lru_rep_def subject_keys_def split: if_splits)
  ultimately show ?thesis by (simp add: lru_rep_def)
qed

lemma rep_elements:
  "lru_rep c \<Longrightarrow> elements c k = Some e \<longleftrightarrow> e \<in> set (order c) \<and> key (entry_of c e) = k"
  by (simp add: lru_rep_def)

lemma rep_absent: "lru_rep c \<Longrightarrow> elements c k = None \<Longrightarrow> e \<in> set (entries c) \<Longrightarrow> key e \<noteq> k"
  using rep_elements [of c k] by (auto simp: entries_def)

lemma find_entry_elements:
  assumes "lru_rep c"
  shows "find_entry k (entries c) = map_option (entry_of c) (elements c k)"
proof (cases "elements c k")
  case None
  then have "\<forall>e\<in>set (entries c). key e \<noteq> k"
    using assms rep_absent by blast
  then show ?thesis using None by (auto simp: find_entry_def find_None_iff)
next
  case (Some e)
  then have e: "e \<in> set (order c)" "key (entry_of c e) = k"
    using assms by (auto simp: lru_rep_def)
  have "find_entry k (entries c) \<noteq> None"
    using e by (auto simp: find_entry_def find_None_iff entries_def)
  then obtain x where x: "find_entry k (entries c) = Some x" by blast
  then have "x \<in> set (entries c)" "key x = k"
    by (auto simp: find_entry_def find_Some_iff)
  then have "x = entry_of c e"
    using e assms by (auto simp: lru_rep_def entries_def distinct_map inj_on_def)
  with x Some show ?thesis by simp
qed

lemma without_absent: "elements c k = None \<Longrightarrow> lru_rep c \<Longrightarrow> without k (entries c) = entries c"
  using rep_absent [of c k] by (simp add: without_def filter_id_conv)

lemma drop_key_abs: "lru_rep c \<Longrightarrow> lru_rep (drop_key k c) \<and> entries (drop_key k c) = without k (entries c)"
proof (cases "elements c k")
  case None
  then show "lru_rep c \<Longrightarrow> ?thesis" by (simp add: drop_key_def without_absent)
next
  case (Some e)
  show ?thesis if rep: "lru_rep c"
  proof -
    have e: "e \<in> set (order c)" "key (entry_of c e) = k" "distinct (map key (entries c))"
      using Some rep by (auto simp: lru_rep_def)
    show ?thesis
      using lru_rep_drop [OF rep e(1)] entries_drop_element [OF e(3,1)] Some e(2)
      by (simp add: drop_key_def)
  qed
qed

lemma bound_drop_key [simp]: "bound (drop_key k c) = bound c"
  by (simp add: drop_key_def split: option.splits)

lemma evict_abs: "lru_rep c \<Longrightarrow> lru_rep (evict c) \<and> entries (evict c) = take (bound c) (entries c) \<and> bound (evict c) = bound c"
proof (induction c rule: evict.induct)
  case (1 c)
  show ?case
  proof (cases "length (order c) > bound c")
    case False
    then show ?thesis using 1 by (simp add: evict.simps entries_def)
  next
    case True
    then obtain xs e where xs: "order c = xs @ [e]"
      by (cases "order c" rule: rev_cases) auto
    then have last: "last (order c) = e" and e: "e \<in> set (order c)" by simp_all
    have "distinct (order c)" using "1.prems" distinct_keys_order by (auto simp: lru_rep_def)
    then have r: "remove1 e (order c) = xs" by (simp add: xs remove1_append)
    have ih: "lru_rep (evict (drop_element e c))"
      "entries (evict (drop_element e c)) = take (bound c) (entries (drop_element e c))"
      "bound (evict (drop_element e c)) = bound c"
      using "1.IH" [OF True] lru_rep_drop [OF "1.prems" e] last by auto
    have "entries (drop_element e c) = map (entry_of c) xs" by (simp add: entries_def r)
    moreover have "bound c \<le> length xs" using True xs by simp
    moreover have "entries c = map (entry_of c) xs @ [entry_of c e]"
      by (simp add: entries_def xs)
    ultimately have "entries (evict (drop_element e c)) = take (bound c) (entries c)"
      using ih(2) by simp
    moreover have "evict c = evict (drop_element e c)"
      using True by (subst evict.simps) (simp add: last)
    ultimately show ?thesis using ih by simp
  qed
qed

subsection \<open>Every operation implements its abstract counterpart\<close>

lemma entries_cong: "entry_of c = entry_of d \<Longrightarrow> order c = order d \<Longrightarrow> entries c = entries d"
  by (simp add: entries_def)

lemma rep_reorder:
  assumes "lru_rep c" "set o' = set (order c)" "distinct o'"
  shows "lru_rep (c\<lparr>order := o'\<rparr>)"
proof -
  let ?c = "c\<lparr>order := o'\<rparr>"
  have "inj_on (key \<circ> entry_of c) (set (order c))"
    using assms(1) by (simp add: lru_rep_def entries_def distinct_map)
  then have "distinct (map key (entries ?c))"
    using assms(2,3) by (simp add: entries_def distinct_map)
  moreover have "set (entries ?c) = set (entries c)"
    using assms(2) by (simp add: entries_def)
  then have "subject_keys (entries ?c) = subject_keys (entries c)"
    by (simp add: subject_keys_def fun_eq_iff)
  ultimately show ?thesis using assms(1,2) by (simp add: lru_rep_def)
qed

lemma get_implements:
  assumes "lru_inv c"
  shows "fst (lru_get now k c) = fst (abs_get now k (entries c))
    \<and> entries (snd (lru_get now k c)) = snd (abs_get now k (entries c))
    \<and> lru_inv (snd (lru_get now k c))"
proof (cases "elements c k")
  case None
  with assms show ?thesis
    by (simp add: lru_get_def abs_get_def lru_inv_def find_entry_elements)
next
  case (Some e)
  have rep: "lru_rep c" using assms by (simp add: lru_inv_def)
  then have e: "e \<in> set (order c)" "key (entry_of c e) = k" and d: "distinct (map key (entries c))"
    using Some by (auto simp: lru_rep_def)
  have find: "find_entry k (entries c) = Some (entry_of c e)"
    using Some by (simp add: find_entry_elements [OF rep])
  show ?thesis
  proof (cases "now > until (entry_of c e)")
    case True
    then show ?thesis
      using assms Some find lru_rep_drop [OF rep e(1)] entries_drop_element [OF d e(1)] e
      by (auto simp: lru_get_def abs_get_def lru_inv_def length_remove1)
  next
    case False
    have dist: "distinct (order c)" using distinct_keys_order [OF d] .
    then have "lru_rep (c\<lparr>order := e # remove1 e (order c)\<rparr>)"
      using e(1) by (intro rep_reorder [OF rep]) auto
    moreover have "length (remove1 e (order c)) < length (order c)"
      using e(1) length_pos_if_in_set [OF e(1)] by (simp add: length_remove1)
    moreover have "entries (c\<lparr>order := e # remove1 e (order c)\<rparr>) = entry_of c e # without k (entries c)"
      using without_remove1 [OF d e(1)] e(2) by (simp add: entries_def)
    ultimately show ?thesis
      using assms Some find False by (simp add: lru_get_def abs_get_def lru_inv_def)
  qed
qed

text \<open>\<open>Put\<close> before the eviction, on a cache that does not hold the key.\<close>

definition add_entry :: "'a lru_entry \<Rightarrow> 'a lru \<Rightarrow> 'a lru" where
  "add_entry x c =
     (let e = fresh_element c;
          c = c\<lparr>entry_of := (entry_of c)(e := x), fresh_element := Suc e,
                elements := (elements c)(key x \<mapsto> e), order := e # order c\<rparr>
      in if subject x \<noteq> []
         then c\<lparr>about := (about c)(subject x \<mapsto>
                insert (key x) (case about c (subject x) of None \<Rightarrow> {} | Some keys \<Rightarrow> keys))\<rparr>
         else c)"

lemma put_add:
  "lru_put now k subj a fresh c =
     (if k = [] \<or> fresh \<le> 0 then c
      else evict (add_entry \<lparr>key = k, subject = subj, held = a, until = now + fresh\<rparr> (drop_key k c)))"
  by (simp add: lru_put_def add_entry_def drop_key_def Let_def)

lemma add_entry_simps [simp]:
  "order (add_entry x c) = fresh_element c # order c"
  "elements (add_entry x c) = (elements c)(key x \<mapsto> fresh_element c)"
  "entry_of (add_entry x c) = (entry_of c)(fresh_element c := x)"
  "fresh_element (add_entry x c) = Suc (fresh_element c)"
  "bound (add_entry x c) = bound c"
  by (simp_all add: add_entry_def Let_def)

lemma about_add_entry:
  "about (add_entry x c) =
     (if subject x \<noteq> []
      then (about c)(subject x \<mapsto>
        insert (key x) (case about c (subject x) of None \<Rightarrow> {} | Some keys \<Rightarrow> keys))
      else about c)"
  by (simp add: add_entry_def Let_def)

lemma subject_keys_Cons:
  "subject_keys (x # es) subj = (if subj = subject x then insert (key x) (subject_keys es subj) else subject_keys es subj)"
  by (auto simp: subject_keys_def)

lemma add_entry_rep:
  assumes "lru_rep c" "elements c (key x) = None"
  shows "lru_rep (add_entry x c) \<and> entries (add_entry x c) = x # entries c"
proof -
  have new: "fresh_element c \<notin> set (order c)"
    using assms(1) by (auto simp: lru_rep_def)
  then have es: "entries (add_entry x c) = x # entries c"
    by (simp add: entries_def)
  have "key x \<notin> key ` set (entries c)"
    using rep_absent [OF assms] by (metis imageE)
  then have "distinct (map key (entries (add_entry x c)))"
    using assms(1) by (simp add: es lru_rep_def)
  moreover have "\<forall>e\<in>set (order (add_entry x c)). e < fresh_element (add_entry x c)"
    using assms(1) by (auto simp: lru_rep_def)
  moreover have "elements (add_entry x c) k = Some e \<longleftrightarrow>
      e \<in> set (order (add_entry x c)) \<and> key (entry_of (add_entry x c) e) = k" for k e
    using assms rep_elements [OF assms(1), of k e] rep_elements [OF assms(1), of "key x" e] new by auto
  moreover have "about (add_entry x c) subj =
      (if subj = [] \<or> subject_keys (entries (add_entry x c)) subj = {} then None
       else Some (subject_keys (entries (add_entry x c)) subj))" for subj
    using assms(1) by (auto simp: lru_rep_def es about_add_entry subject_keys_Cons)
  ultimately show ?thesis using es by (simp add: lru_rep_def)
qed

lemma elements_drop_key: "lru_rep c \<Longrightarrow> elements (drop_key k c) k = None"
  by (auto simp: drop_key_def rep_elements split: option.splits)

lemma put_implements:
  assumes "lru_inv c"
  shows "entries (lru_put now k subj a fresh c) = abs_put (bound c) now k subj a fresh (entries c)
    \<and> lru_inv (lru_put now k subj a fresh c)"
proof (cases "k = [] \<or> fresh \<le> 0")
  case True
  with assms show ?thesis by (simp add: put_add abs_put_def)
next
  case False
  let ?x = "\<lparr>key = k, subject = subj, held = a, until = now + fresh\<rparr>"
  have rep: "lru_rep c" and b: "1 \<le> bound c" using assms by (simp_all add: lru_inv_def)
  have dk: "lru_rep (drop_key k c)" "entries (drop_key k c) = without k (entries c)"
    using drop_key_abs [OF rep] by auto
  have ad: "lru_rep (add_entry ?x (drop_key k c))"
    "entries (add_entry ?x (drop_key k c)) = ?x # without k (entries c)"
    using add_entry_rep [OF dk(1), of ?x] elements_drop_key [OF rep] dk(2) by auto
  have ev: "lru_rep (evict (add_entry ?x (drop_key k c)))"
    "entries (evict (add_entry ?x (drop_key k c))) = take (bound c) (?x # without k (entries c))"
    "bound (evict (add_entry ?x (drop_key k c))) = bound c"
    using evict_abs [OF ad(1)] ad(2) by auto
  have "length (order (evict (add_entry ?x (drop_key k c)))) = length (entries (evict (add_entry ?x (drop_key k c))))"
    by (simp add: entries_def)
  then have "length (order (evict (add_entry ?x (drop_key k c)))) \<le> bound c"
    unfolding ev(2) by simp
  with False ev b show ?thesis by (simp add: put_add abs_put_def lru_inv_def)
qed

lemma fold_drop_key:
  "lru_rep c \<Longrightarrow> lru_rep (fold drop_key ks c) \<and> bound (fold drop_key ks c) = bound c
   \<and> entries (fold drop_key ks c) = filter (\<lambda>e. key e \<notin> set ks) (entries c)"
proof (induction ks arbitrary: c)
  case (Cons k ks)
  have "lru_rep (drop_key k c)" "entries (drop_key k c) = without k (entries c)"
    using drop_key_abs [OF Cons.prems] by auto
  with Cons.IH [of "drop_key k c"] show ?case
    by (auto simp: without_def intro!: filter_cong)
qed simp

lemma invalidate_implements:
  assumes "lru_inv c" "set ks = about_keys c subj"
  shows "entries (lru_invalidate_in ks subj c) = abs_invalidate subj (entries c)
    \<and> lru_inv (lru_invalidate_in ks subj c)"
proof -
  let ?c = "fold drop_key ks c"
  have rep: "lru_rep c" using assms by (simp add: lru_inv_def)
  have f: "lru_rep ?c" "bound ?c = bound c" "entries ?c = filter (\<lambda>e. key e \<notin> set ks) (entries c)"
    using fold_drop_key [OF rep] by auto
  have keys: "set ks = (if subj = [] then {} else subject_keys (entries c) subj)"
    using rep assms(2) by (auto simp: about_keys_def lru_rep_def subject_keys_def)
  have "key e \<in> subject_keys (entries c) subj \<longleftrightarrow> subject e = subj" if "e \<in> set (entries c)" for e
    using that rep by (auto simp: subject_keys_def lru_rep_def distinct_map inj_on_def)
  then have es: "entries ?c = abs_invalidate subj (entries c)"
    by (auto simp: f(3) keys abs_invalidate_def intro!: filter_cong filter_True)
  then have "subj = [] \<or> subject_keys (entries ?c) subj = {}"
    by (auto simp: subject_keys_def abs_invalidate_def)
  then have "about ?c subj = None"
    using f(1) by (auto simp: lru_rep_def)
  then have "?c\<lparr>about := (about ?c)(subj := None)\<rparr> = ?c" by (simp add: fun_upd_idem)
  then have eq: "lru_invalidate_in ks subj c = ?c" by (simp add: lru_invalidate_in_def)
  have "length (entries ?c) \<le> length (entries c)" by (simp add: f(3))
  then have "length (order ?c) \<le> length (order c)" by (simp add: entries_def)
  with es f assms(1) show ?thesis by (simp add: eq lru_inv_def)
qed

lemma lru_inv_new: "lru_inv (new_lru n)"
  by (auto simp: lru_inv_def lru_rep_def new_lru_def entries_def subject_keys_def)

text \<open>
  C9: the cache's linked list, map and subject index implement a plain list of entries, most
  recently used first: a read finds the entry under the key and moves it to the front, or drops it
  once its time is past; a write replaces the key and keeps the first entries up to the bound, so
  what it evicts is the least recently used; an invalidation drops exactly the entries about the
  subject, whatever the order of the map. The representation invariant, which bounds the size, is
  kept by all of them.
\<close>

theorem lru_implements_list:
  assumes "lru_inv c" "set ks = about_keys c subj"
  shows "fst (lru_get now k c) = fst (abs_get now k (entries c))
    \<and> entries (snd (lru_get now k c)) = snd (abs_get now k (entries c))
    \<and> entries (lru_put now k subj a fresh c) = abs_put (bound c) now k subj a fresh (entries c)
    \<and> entries (lru_invalidate_in ks subj c) = abs_invalidate subj (entries c)
    \<and> lru_inv (snd (lru_get now k c)) \<and> lru_inv (lru_put now k subj a fresh c)
    \<and> lru_inv (lru_invalidate_in ks subj c) \<and> lru_inv (new_lru most)
    \<and> lru_len c \<le> bound c \<and> lru_len c = length (entries c)"
  using get_implements [OF assms(1), of now k] put_implements [OF assms(1), of now k subj a fresh]
    invalidate_implements [OF assms] lru_inv_new assms(1)
  by (simp add: lru_inv_def lru_len_def entries_def)

theorem lru_implements_list_witness:
  "fst (lru_get 5 ''k'' (lru_put 0 ''k'' ''s'' (7 :: nat) 10 (new_lru 1))) = Some 7"
proof -
  let ?c = "lru_put 0 ''k'' ''s'' (7 :: nat) 10 (new_lru 1)"
  have inv: "lru_inv ?c" by (rule put_implements [OF lru_inv_new, THEN conjunct2])
  have es: "entries ?c = [\<lparr>key = ''k'', subject = ''s'', held = 7, until = 10\<rparr>]"
    using put_implements [OF lru_inv_new, of 0 "''k''" "''s''" "7 :: nat" 10 1]
    by (simp add: abs_put_def new_lru_def entries_def without_def)
  have "set [] = about_keys ?c ''absent''"
    using inv es by (auto simp: about_keys_def lru_inv_def lru_rep_def subject_keys_def)
  from lru_implements_list [OF inv this, of 5 "''k''" 0 0 0, THEN conjunct1] show ?thesis
    by (simp add: es abs_get_def find_entry_def)
qed

subsection \<open>Stores\<close>

text \<open>
  \<open>Store\<close> is an interface: its operations are a record of functions on a store state. A store's
  error is a \<open>Fault\<close> or another error, which may wrap one; \<open>errors.As\<close> finds the first.
\<close>

record entry =
  entry_key :: string
  entry_about :: string
  entity :: string
  lifetime :: int

definition is_storable :: "entry \<Rightarrow> bool" where
  "is_storable e \<longleftrightarrow> entry_key e \<noteq> [] \<and> lifetime e > 0"

record lookup =
  looked_up :: string
  found :: bool

datatype store_err = StoreFault (fault_op: string) (fault_key: string) (fault_cause: "store_err option")
  | PlainErr string "store_err list"

definition err_unworthy :: store_err where
  "err_unworthy = PlainErr ''a entry has a key and a lifetime'' []"

fun first_some :: "'b option list \<Rightarrow> 'b option" where
  "first_some [] = None"
| "first_some (Some x # xs) = Some x"
| "first_some (None # xs) = first_some xs"

fun as_fault :: "store_err \<Rightarrow> store_err option" where
  "as_fault (StoreFault op k e) = Some (StoreFault op k e)"
| "as_fault (PlainErr _ es) = first_some (map as_fault es)"

definition fault_of :: "string \<Rightarrow> string \<Rightarrow> store_err \<Rightarrow> store_err" where
  "fault_of op k e = (case as_fault e of Some f \<Rightarrow> f | None \<Rightarrow> StoreFault op k (Some e))"

record 's store_port =
  port_get :: "string \<Rightarrow> 's \<Rightarrow> (lookup \<times> store_err option) \<times> 's"
  port_put :: "entry \<Rightarrow> 's \<Rightarrow> store_err option \<times> 's"
  port_invalidate :: "string \<Rightarrow> 's \<Rightarrow> store_err option \<times> 's"

text \<open>\<open>Read\<close>, \<open>Write\<close> and \<open>Drop\<close>: \<open>Inl\<close> is the fault the effect fails with.\<close>

definition cache_read :: "'s store_port \<Rightarrow> string \<Rightarrow> 's \<Rightarrow> (store_err + lookup) \<times> 's" where
  "cache_read store k s =
     (case port_get store k s of
        ((l, None), s') \<Rightarrow> (Inr l, s')
      | ((_, Some e), s') \<Rightarrow> (Inl (fault_of ''read'' k e), s'))"

definition cache_write :: "'s store_port \<Rightarrow> entry \<Rightarrow> 's \<Rightarrow> (store_err + unit) \<times> 's" where
  "cache_write store e s =
     (if \<not> is_storable e then (Inl (StoreFault ''write'' (entry_key e) (Some err_unworthy)), s)
      else case port_put store e s of
        (None, s') \<Rightarrow> (Inr (), s')
      | (Some f, s') \<Rightarrow> (Inl (fault_of ''write'' (entry_key e) f), s'))"

definition cache_drop :: "'s store_port \<Rightarrow> string \<Rightarrow> 's \<Rightarrow> (store_err + unit) \<times> 's" where
  "cache_drop store subj s =
     (case port_invalidate store subj s of
        (None, s') \<Rightarrow> (Inr (), s')
      | (Some e, s') \<Rightarrow> (Inl (fault_of ''drop'' subj e), s'))"

text \<open>The store in memory, at the clock reading \<open>now\<close>.\<close>

definition memory_get :: "int \<Rightarrow> string \<Rightarrow> string lru \<Rightarrow> (lookup \<times> store_err option) \<times> string lru" where
  "memory_get now k c =
     (case lru_get now k c of
        (Some v, c') \<Rightarrow> ((\<lparr>looked_up = v, found = True\<rparr>, None), c')
      | (None, c') \<Rightarrow> ((\<lparr>looked_up = [], found = False\<rparr>, None), c'))"

definition memory_put :: "int \<Rightarrow> entry \<Rightarrow> string lru \<Rightarrow> store_err option \<times> string lru" where
  "memory_put now e c =
     (if \<not> is_storable e then (Some (StoreFault ''write'' (entry_key e) (Some err_unworthy)), c)
      else (None, lru_put now (entry_key e) (entry_about e) (entity e) (lifetime e) c))"

definition memory_invalidate :: "(string set \<Rightarrow> string list) \<Rightarrow> string \<Rightarrow> string lru \<Rightarrow> store_err option \<times> string lru" where
  "memory_invalidate enum subj c = (None, lru_invalidate_in (enum (about_keys c subj)) subj c)"

definition memory_store :: "(string set \<Rightarrow> string list) \<Rightarrow> int \<Rightarrow> string lru store_port" where
  "memory_store enum now =
     \<lparr>port_get = memory_get now, port_put = memory_put now, port_invalidate = memory_invalidate enum\<rparr>"

subsection \<open>The contract of a store\<close>

text \<open>
  What a client of \<open>Store\<close> relies on: after a put, a read before the lifetime is over finds the
  value; after the subject is invalidated it does not; putting an unworthy entry is refused; none
  of this leaves the valid states. \<open>store_at now\<close> is the store when the clock reads \<open>now\<close>.
\<close>

locale store_contract =
  fixes store_at :: "int \<Rightarrow> 's store_port"
    and valid :: "'s \<Rightarrow> bool"
  assumes put_ok: "valid s \<Longrightarrow> is_storable e \<Longrightarrow> \<exists>s'. port_put (store_at now) e s = (None, s') \<and> valid s'"
    and get_after_put: "valid s \<Longrightarrow> is_storable e \<Longrightarrow> later \<le> now + lifetime e \<Longrightarrow>
      fst (port_get (store_at later) (entry_key e) (snd (port_put (store_at now) e s))) =
        (\<lparr>looked_up = entity e, found = True\<rparr>, None)"
    and invalidate_ok: "valid s \<Longrightarrow> \<exists>s'. port_invalidate (store_at now) subj s = (None, s') \<and> valid s'"
    and get_after_invalidate: "valid s \<Longrightarrow> is_storable e \<Longrightarrow> entry_about e \<noteq> [] \<Longrightarrow>
      fst (port_get (store_at later) (entry_key e)
        (snd (port_invalidate (store_at now') (entry_about e) (snd (port_put (store_at now) e s))))) =
        (\<lparr>looked_up = [], found = False\<rparr>, None)"
begin

lemma write_read:
  assumes "valid s" "is_storable e" "later \<le> now + lifetime e"
  shows "fst (cache_write (store_at now) e s) = Inr ()
    \<and> fst (cache_read (store_at later) (entry_key e) (snd (cache_write (store_at now) e s))) =
        Inr \<lparr>looked_up = entity e, found = True\<rparr>"
proof -
  obtain s' where s': "port_put (store_at now) e s = (None, s')"
    using put_ok [OF assms(1,2)] by blast
  have "fst (port_get (store_at later) (entry_key e) s') = (\<lparr>looked_up = entity e, found = True\<rparr>, None)"
    using get_after_put [OF assms] by (simp add: s')
  then show ?thesis
    using s' assms(2) by (auto simp: cache_write_def cache_read_def split: prod.splits)
qed

lemma write_drop_read:
  assumes "valid s" "is_storable e" "entry_about e \<noteq> []"
  shows "fst (cache_read (store_at later) (entry_key e)
      (snd (cache_drop (store_at now') (entry_about e) (snd (cache_write (store_at now) e s))))) =
    Inr \<lparr>looked_up = [], found = False\<rparr>"
proof -
  obtain s1 where s1: "port_put (store_at now) e s = (None, s1)" "valid s1"
    using put_ok [OF assms(1,2)] by blast
  obtain s2 where s2: "port_invalidate (store_at now') (entry_about e) s1 = (None, s2)"
    using invalidate_ok [OF s1(2)] by blast
  have "fst (port_get (store_at later) (entry_key e) s2) = (\<lparr>looked_up = [], found = False\<rparr>, None)"
    using get_after_invalidate [OF assms, of later now' now] by (simp add: s1 s2)
  then show ?thesis
    using s1 s2 assms(2) by (auto simp: cache_write_def cache_read_def cache_drop_def split: prod.splits)
qed

end

lemma about_keys_finite: "lru_inv c \<Longrightarrow> finite (about_keys c subj)"
  by (auto simp: about_keys_def lru_inv_def lru_rep_def subject_keys_def split: option.splits)

lemma find_entry_none: "\<forall>e\<in>set es. key e \<noteq> k \<Longrightarrow> find_entry k es = None"
  by (simp add: find_entry_def find_None_iff)

text \<open>The store in memory keeps the contract, the map ranged over in sorted order.\<close>

interpretation memory: store_contract "memory_store sorted_list_of_set" lru_inv
proof unfold_locales
  fix s :: "string lru" and e :: entry and now now' later :: int and subj :: string
  assume inv: "lru_inv s"
  have invalidate: "set (sorted_list_of_set (about_keys c subj)) = about_keys c subj"
    if "lru_inv c" for c :: "string lru" and subj
    using about_keys_finite [OF that] by simp
  show "\<exists>s'. port_invalidate (memory_store sorted_list_of_set now) subj s = (None, s') \<and> lru_inv s'"
    using invalidate_implements [OF inv invalidate [OF inv]]
    by (simp add: memory_store_def memory_invalidate_def)
  assume ok: "is_storable e"
  let ?x = "\<lparr>key = entry_key e, subject = entry_about e, held = entity e, until = now + lifetime e\<rparr>"
  let ?c = "lru_put now (entry_key e) (entry_about e) (entity e) (lifetime e) s"
  have put: "port_put (memory_store sorted_list_of_set now) e s = (None, ?c)"
    using ok by (simp add: memory_store_def memory_put_def)
  have c: "lru_inv ?c" and "entries ?c = take (bound s) (?x # without (entry_key e) (entries s))"
    using put_implements [OF inv, of now "entry_key e" "entry_about e" "entity e" "lifetime e"] ok
    by (auto simp: abs_put_def is_storable_def)
  then have "entries ?c = ?x # take (bound s - 1) (without (entry_key e) (entries s))"
    using inv by (cases "bound s") (auto simp: lru_inv_def)
  moreover have "\<forall>y\<in>set (take (bound s - 1) (without (entry_key e) (entries s))). key y \<noteq> entry_key e"
    by (auto simp: without_def dest: in_set_takeD)
  ultimately obtain es where es: "entries ?c = ?x # es" "\<forall>y\<in>set es. key y \<noteq> entry_key e"
    by blast
  show "\<exists>s'. port_put (memory_store sorted_list_of_set now) e s = (None, s') \<and> lru_inv s'"
    using put c by simp
  show "fst (port_get (memory_store sorted_list_of_set later) (entry_key e)
      (snd (port_put (memory_store sorted_list_of_set now) e s))) = (\<lparr>looked_up = entity e, found = True\<rparr>, None)"
    if "later \<le> now + lifetime e"
    unfolding put using get_implements [OF c, of later "entry_key e"] es that
    by (auto simp: memory_store_def memory_get_def abs_get_def find_entry_def split: prod.splits option.splits)
  assume subj: "entry_about e \<noteq> []"
  let ?d = "lru_invalidate_in (sorted_list_of_set (about_keys ?c (entry_about e))) (entry_about e) ?c"
  have d: "entries ?d = abs_invalidate (entry_about e) (entries ?c)" "lru_inv ?d"
    using invalidate_implements [OF c invalidate [OF c]] by auto
  have "find_entry (entry_key e) (entries ?d) = None"
    using es subj by (intro find_entry_none) (auto simp: d(1) abs_invalidate_def)
  then have "fst (lru_get later (entry_key e) ?d) = None"
    using get_implements [OF d(2), of later "entry_key e"] by (simp add: abs_get_def)
  then show "fst (port_get (memory_store sorted_list_of_set later) (entry_key e)
      (snd (port_invalidate (memory_store sorted_list_of_set now') (entry_about e)
        (snd (port_put (memory_store sorted_list_of_set now) e s))))) = (\<lparr>looked_up = [], found = False\<rparr>, None)"
    unfolding put
    by (auto simp: memory_store_def memory_get_def memory_invalidate_def split: prod.splits option.splits)
qed

text \<open>
  Through the store interface, a value written to the store in memory is read back until its
  lifetime is over and no longer, dropping its subject makes the next read a miss, and an entry
  with no key or no lifetime fails as a write fault without reaching the store.
\<close>

theorem memory_store_read_your_writes:
  assumes "lru_inv c" "is_storable e"
  shows "(later \<le> now + lifetime e \<longrightarrow>
      fst (cache_read (memory_store sorted_list_of_set later) (entry_key e)
        (snd (cache_write (memory_store sorted_list_of_set now) e c))) =
      Inr \<lparr>looked_up = entity e, found = True\<rparr>)
    \<and> (later > now + lifetime e \<longrightarrow>
      fst (cache_read (memory_store sorted_list_of_set later) (entry_key e)
        (snd (cache_write (memory_store sorted_list_of_set now) e c))) =
      Inr \<lparr>looked_up = [], found = False\<rparr>)
    \<and> (entry_about e \<noteq> [] \<longrightarrow>
      fst (cache_read (memory_store sorted_list_of_set later) (entry_key e)
        (snd (cache_drop (memory_store sorted_list_of_set now') (entry_about e)
          (snd (cache_write (memory_store sorted_list_of_set now) e c))))) =
      Inr \<lparr>looked_up = [], found = False\<rparr>)
    \<and> cache_write (memory_store sorted_list_of_set now) (e\<lparr>lifetime := 0\<rparr>) c =
      (Inl (StoreFault ''write'' (entry_key e) (Some err_unworthy)), c)"
proof (intro conjI impI)
  assume late: "later > now + lifetime e"
  let ?c = "lru_put now (entry_key e) (entry_about e) (entity e) (lifetime e) c"
  have put: "lru_inv ?c" "entries ?c = abs_put (bound c) now (entry_key e) (entry_about e) (entity e) (lifetime e) (entries c)"
    using put_implements [OF assms(1)] by auto
  have "fst (lru_get later (entry_key e) ?c) = None"
    using get_implements [OF put(1), of later "entry_key e"] assms late
    by (cases "bound c") (auto simp: put(2) abs_put_def abs_get_def find_entry_def is_storable_def lru_inv_def)
  then show "fst (cache_read (memory_store sorted_list_of_set later) (entry_key e)
        (snd (cache_write (memory_store sorted_list_of_set now) e c))) = Inr \<lparr>looked_up = [], found = False\<rparr>"
    using assms(2)
    by (auto simp: cache_read_def cache_write_def memory_store_def memory_put_def memory_get_def
        split: prod.splits option.splits)
qed (use memory.write_read [OF assms] memory.write_drop_read [OF assms] in
      \<open>auto simp: cache_write_def is_storable_def\<close>)

theorem memory_store_read_your_writes_witness:
  "fst (cache_read (memory_store sorted_list_of_set 9) ''k''
     (snd (cache_write (memory_store sorted_list_of_set 0)
        \<lparr>entry_key = ''k'', entry_about = ''s'', entity = ''v'', lifetime = 10\<rparr> (new_lru 2)))) =
   Inr \<lparr>looked_up = ''v'', found = True\<rparr>"
  using memory_store_read_your_writes [OF lru_inv_new,
      of "\<lparr>entry_key = ''k'', entry_about = ''s'', entity = ''v'', lifetime = 10\<rparr>" 9 0 2 0]
  by (simp add: is_storable_def)

end
