(* ===== verification/Config_Error.thy ===== *)
theory Config_Error
  imports Go_Strings
begin

section \<open>Configuration errors\<close>

text \<open>
  \<^verbatim>\<open>effect/config/error.go\<close>: the tree of everything that was wrong with a program's
  settings. \<open>NoError\<close> is the zero value, the identity of both compositions.
\<close>

type_synonym path = "string list"

datatype cerror =
    NoError
  | Missing path
  | Invalid string path
  | Unavailable go_err path
  | AndErr cerror cerror
  | OrErr cerror cerror

datatype error_kind = KindEmpty | KindMissing | KindInvalid | KindUnavailable | KindAnd | KindOr

record failure_leaf =
  leaf_kind :: error_kind
  leaf_path :: path
  leaf_message :: string
  leaf_err :: nilable_err

fun kind_of_error :: "cerror \<Rightarrow> error_kind" where
  "kind_of_error NoError = KindEmpty"
| "kind_of_error (Missing _) = KindMissing"
| "kind_of_error (Invalid _ _) = KindInvalid"
| "kind_of_error (Unavailable _ _) = KindUnavailable"
| "kind_of_error (AndErr _ _) = KindAnd"
| "kind_of_error (OrErr _ _) = KindOr"

definition no_failure :: "cerror \<Rightarrow> bool" where
  "no_failure e \<longleftrightarrow> kind_of_error e = KindEmpty"

definition compose_error :: "(cerror \<Rightarrow> cerror \<Rightarrow> cerror) \<Rightarrow> cerror \<Rightarrow> cerror \<Rightarrow> cerror" where
  "compose_error node e that = (if no_failure e then that else if no_failure that then e else node e that)"

definition and_error :: "cerror \<Rightarrow> cerror \<Rightarrow> cerror" where
  "and_error = compose_error AndErr"

definition or_error :: "cerror \<Rightarrow> cerror \<Rightarrow> cerror" where
  "or_error = compose_error OrErr"

text \<open>\<open>appendLeaves\<close>, with its accumulator.\<close>

fun append_leaves :: "failure_leaf list \<Rightarrow> cerror \<Rightarrow> failure_leaf list" where
  "append_leaves into NoError = into"
| "append_leaves into (AndErr l r) = append_leaves (append_leaves into l) r"
| "append_leaves into (OrErr l r) = append_leaves (append_leaves into l) r"
| "append_leaves into (Missing p) =
     into @ [\<lparr>leaf_kind = KindMissing, leaf_path = p, leaf_message = [], leaf_err = None\<rparr>]"
| "append_leaves into (Invalid m p) =
     into @ [\<lparr>leaf_kind = KindInvalid, leaf_path = p, leaf_message = m, leaf_err = None\<rparr>]"
| "append_leaves into (Unavailable e p) =
     into @ [\<lparr>leaf_kind = KindUnavailable, leaf_path = p, leaf_message = [], leaf_err = Some e\<rparr>]"

definition error_leaves :: "cerror \<Rightarrow> failure_leaf list" where
  "error_leaves e = append_leaves [] e"

definition is_missing_only :: "cerror \<Rightarrow> bool" where
  "is_missing_only e \<longleftrightarrow>
     (if error_leaves e = [] then False else list_all (\<lambda>l. leaf_kind l = KindMissing) (error_leaves e))"

fun with_prefix :: "path \<Rightarrow> cerror \<Rightarrow> cerror" where
  "with_prefix p NoError = NoError"
| "with_prefix p (AndErr l r) = AndErr (with_prefix p l) (with_prefix p r)"
| "with_prefix p (OrErr l r) = OrErr (with_prefix p l) (with_prefix p r)"
| "with_prefix p (Missing q) = Missing (p @ q)"
| "with_prefix p (Invalid m q) = Invalid m (p @ q)"
| "with_prefix p (Unavailable e q) = Unavailable e (p @ q)"

definition prefixed :: "path \<Rightarrow> cerror \<Rightarrow> cerror" where
  "prefixed p e = (if no_failure e \<or> p = [] then e else with_prefix p e)"

definition render_path :: "path \<Rightarrow> string" where
  "render_path p = (if p = [] then ''the root'' else join_with ''.'' p)"

fun render :: "cerror \<Rightarrow> string" where
  "render (AndErr l r) = render l @ '' and '' @ render r"
| "render (OrErr l r) = render l @ '' or '' @ render r"
| "render (Missing p) = ''no value at '' @ render_path p"
| "render (Invalid m p) = render_path p @ '' is not '' @ m"
| "render (Unavailable e p) = render_path p @ '' could not be read: '' @ err_text e"
| "render NoError = ''no configuration failure''"

definition error_text :: "cerror \<Rightarrow> string" where
  "error_text e = (if no_failure e then ''no configuration failure'' else render e)"

subsection \<open>The algebra of errors\<close>

lemma no_failure_iff [simp]: "no_failure e \<longleftrightarrow> e = NoError"
  by (cases e) (simp_all add: no_failure_def)

lemma append_leaves_eq: "append_leaves into e = into @ error_leaves e"
proof (induction e arbitrary: into)
  case (AndErr l r)
  have "error_leaves (AndErr l r) = error_leaves l @ error_leaves r"
    using AndErr [of "error_leaves l"] by (simp add: error_leaves_def)
  with AndErr show ?case by simp
next
  case (OrErr l r)
  have "error_leaves (OrErr l r) = error_leaves l @ error_leaves r"
    using OrErr [of "error_leaves l"] by (simp add: error_leaves_def)
  with OrErr show ?case by simp
qed (simp_all add: error_leaves_def)

lemma error_leaves_composite [simp]:
  "error_leaves (AndErr l r) = error_leaves l @ error_leaves r"
  "error_leaves (OrErr l r) = error_leaves l @ error_leaves r"
proof -
  have "error_leaves (AndErr l r) = append_leaves (append_leaves [] l) r"
    "error_leaves (OrErr l r) = append_leaves (append_leaves [] l) r"
    by (simp_all only: error_leaves_def append_leaves.simps)
  then show "error_leaves (AndErr l r) = error_leaves l @ error_leaves r"
    "error_leaves (OrErr l r) = error_leaves l @ error_leaves r"
    by (simp_all only: append_leaves_eq append_Nil)
qed

lemma error_leaves_leaf [simp]:
  "error_leaves NoError = []"
  "error_leaves (Missing p) =
     [\<lparr>leaf_kind = KindMissing, leaf_path = p, leaf_message = [], leaf_err = None\<rparr>]"
  "error_leaves (Invalid m p) =
     [\<lparr>leaf_kind = KindInvalid, leaf_path = p, leaf_message = m, leaf_err = None\<rparr>]"
  "error_leaves (Unavailable x p) =
     [\<lparr>leaf_kind = KindUnavailable, leaf_path = p, leaf_message = [], leaf_err = Some x\<rparr>]"
  by (simp_all add: error_leaves_def)

text \<open>What \<open>And\<close> and \<open>Or\<close> build: no composite has an empty side.\<close>

fun proper_error :: "cerror \<Rightarrow> bool" where
  "proper_error (AndErr l r) \<longleftrightarrow> l \<noteq> NoError \<and> r \<noteq> NoError \<and> proper_error l \<and> proper_error r"
| "proper_error (OrErr l r) \<longleftrightarrow> l \<noteq> NoError \<and> r \<noteq> NoError \<and> proper_error l \<and> proper_error r"
| "proper_error _ \<longleftrightarrow> True"

lemma proper_error_leaves: "proper_error e \<Longrightarrow> error_leaves e = [] \<longleftrightarrow> e = NoError"
  by (induction e) auto

interpretation and_alg: failure_algebra NoError and_error error_leaves proper_error
  by unfold_locales (auto simp: and_error_def compose_error_def proper_error_leaves)

interpretation or_alg: failure_algebra NoError or_error error_leaves proper_error
  by unfold_locales (auto simp: or_error_def compose_error_def proper_error_leaves)

definition leaf_beneath :: "path \<Rightarrow> failure_leaf \<Rightarrow> failure_leaf" where
  "leaf_beneath p l = l\<lparr>leaf_path := p @ leaf_path l\<rparr>"

lemma error_leaves_with_prefix: "error_leaves (with_prefix p e) = map (leaf_beneath p) (error_leaves e)"
  by (induction e) (simp_all add: leaf_beneath_def)

lemma with_prefix_Nil [simp]: "with_prefix [] e = e"
  by (induction e) simp_all

lemma prefixed_with_prefix: "prefixed p e = with_prefix p e"
  by (simp add: prefixed_def)

lemma with_prefix_NoError [simp]: "with_prefix p e = NoError \<longleftrightarrow> e = NoError"
  by (cases e) simp_all

lemma with_prefix_and [simp]: "with_prefix p (and_error d e) = and_error (with_prefix p d) (with_prefix p e)"
  by (simp add: and_error_def compose_error_def)

lemma with_prefix_or [simp]: "with_prefix p (or_error d e) = or_error (with_prefix p d) (with_prefix p e)"
  by (simp add: or_error_def compose_error_def)

lemma is_missing_only_with_prefix [simp]: "is_missing_only (with_prefix p e) = is_missing_only e"
  by (simp add: is_missing_only_def error_leaves_with_prefix list_all_iff leaf_beneath_def)

lemma is_missing_only_and:
  "proper_error d \<Longrightarrow> proper_error e \<Longrightarrow>
   is_missing_only (and_error d e) \<longleftrightarrow>
     (is_missing_only d \<or> d = NoError) \<and> (is_missing_only e \<or> e = NoError) \<and> (d \<noteq> NoError \<or> e \<noteq> NoError)"
  by (auto simp: is_missing_only_def proper_error_leaves)

end
