(* ===== verification/Config_Source.thy ===== *)
theory Config_Source
  imports Config_Error
begin

section \<open>Configuration sources\<close>

text \<open>
  \<^verbatim>\<open>effect/config/source.go\<close> and \<^verbatim>\<open>environment.go\<close>. A source answers for one path
  at a time: an error, or the value if it carries one; and names the keys directly beneath a path.
  Every source here ignores its context, so it is left out. A Go map of values is a function with a
  finite domain, ranged over only in sorted order.
\<close>

record source =
  value_at :: "path \<Rightarrow> go_err + string option"
  children_at :: "path \<Rightarrow> go_err + string list"

definition keys_of :: "(string \<Rightarrow> string option) \<Rightarrow> string list" where
  "keys_of values = sorted_list_of_set (dom values)"

definition children_of :: "string list \<Rightarrow> string \<Rightarrow> string \<Rightarrow> string list" where
  "children_of keys prefix' separator =
     (let p = (if prefix' \<noteq> [] then prefix' @ separator else prefix') in
      foldl (\<lambda>children key.
        if p \<noteq> [] \<and> \<not> has_prefix key p then children
        else let beneath = trim_prefix key p in
          if beneath = [] then children
          else insert_new (fst (cut beneath separator)) children) [] keys)"

definition from_map :: "(string \<Rightarrow> string option) \<Rightarrow> source" where
  "from_map values =
     \<lparr>value_at = (\<lambda>p. Inr (values (render_path p))),
      children_at = (\<lambda>p. Inr (children_of (keys_of values) (render_path p) ''.''))\<rparr>"

text \<open>Several sources as one; a nil source is left out.\<close>

fun first_value :: "source list \<Rightarrow> path \<Rightarrow> go_err + string option" where
  "first_value [] p = Inr None"
| "first_value (s # ss) p =
     (case value_at s p of
        Inl e \<Rightarrow> Inl e
      | Inr (Some v) \<Rightarrow> Inr (Some v)
      | Inr None \<Rightarrow> first_value ss p)"

fun gather_children :: "string list \<Rightarrow> source list \<Rightarrow> path \<Rightarrow> go_err + string list" where
  "gather_children names [] p = Inr names"
| "gather_children names (s # ss) p =
     (case children_at s p of
        Inl e \<Rightarrow> Inl e
      | Inr children \<Rightarrow> gather_children (foldl (\<lambda>names child. insert_new child names) names children) ss p)"

definition fallback :: "source list \<Rightarrow> source" where
  "fallback ss = \<lparr>value_at = first_value ss, children_at = gather_children [] ss\<rparr>"

definition sources :: "source option list \<Rightarrow> source" where
  "sources ss =
     (let present = List.map_filter (\<lambda>s. s) ss in
      if length present = 1 then hd present else fallback present)"

definition subtree :: "source \<Rightarrow> path \<Rightarrow> source" where
  "subtree s pre =
     \<lparr>value_at = (\<lambda>p. value_at s (pre @ p)), children_at = (\<lambda>p. children_at s (pre @ p))\<rparr>"

definition beneath :: "source option \<Rightarrow> path \<Rightarrow> source option" where
  "beneath s pre =
     (case s of None \<Rightarrow> None | Some s \<Rightarrow> if pre = [] then Some s else Some (subtree s pre))"

definition map_path :: "(string \<Rightarrow> string) \<Rightarrow> path \<Rightarrow> path" where
  "map_path spell p = map spell p"

definition map_input :: "source option \<Rightarrow> (string \<Rightarrow> string) option \<Rightarrow> source option" where
  "map_input s spell =
     (case (s, spell) of
        (Some s, Some spell) \<Rightarrow>
          Some \<lparr>value_at = (\<lambda>p. value_at s (map_path spell p)),
                children_at = (\<lambda>p. children_at s (map_path spell p))\<rparr>
      | _ \<Rightarrow> s)"

definition single :: "string \<Rightarrow> source" where
  "single v = \<lparr>value_at = (\<lambda>_. Inr (Some v)), children_at = (\<lambda>_. Inr [])\<rparr>"

text \<open>The environment: upper case, with underscores.\<close>

definition environment_key :: "path \<Rightarrow> string" where
  "environment_key p = join_with ''_'' (map to_upper p)"

definition environment_values :: "string list \<Rightarrow> string \<Rightarrow> string option" where
  "environment_values es =
     foldl (\<lambda>values e. case cut e ''='' of
         (n, v, True) \<Rightarrow> values(n \<mapsto> v)
       | (_, _, False) \<Rightarrow> values) (\<lambda>_. None) es"

definition environment_of :: "string list \<Rightarrow> source" where
  "environment_of es =
     (let values = environment_values es in
      \<lparr>value_at = (\<lambda>p. Inr (values (environment_key p))),
       children_at = (\<lambda>p. Inr (map to_lower (children_of (keys_of values) (environment_key p) ''_'')))\<rparr>)"

subsection \<open>Children\<close>

definition child_of :: "string \<Rightarrow> string \<Rightarrow> string \<Rightarrow> string option" where
  "child_of p separator key =
     (if p \<noteq> [] \<and> \<not> has_prefix key p then None
      else if trim_prefix key p = [] then None
      else Some (fst (cut (trim_prefix key p) separator)))"

lemma children_of_set:
  "distinct (children_of keys prefix' separator)
   \<and> set (children_of keys prefix' separator) =
       {c. \<exists>k\<in>set keys. child_of (if prefix' \<noteq> [] then prefix' @ separator else prefix') separator k = Some c}"
proof -
  let ?p = "if prefix' \<noteq> [] then prefix' @ separator else prefix'"
  let ?f = "\<lambda>children key.
        if ?p \<noteq> [] \<and> \<not> has_prefix key ?p then children
        else let beneath = trim_prefix key ?p in
          if beneath = [] then children
          else insert_new (fst (cut beneath separator)) children"
  have f: "?f acc k = (case child_of ?p separator k of None \<Rightarrow> acc | Some c \<Rightarrow> insert_new c acc)" for acc k
    by (simp add: child_of_def Let_def)
  have "distinct acc \<Longrightarrow> distinct (foldl ?f acc ks) \<and>
      set (foldl ?f acc ks) = set acc \<union> {c. \<exists>k\<in>set ks. child_of ?p separator k = Some c}" for acc ks
  proof (induction ks arbitrary: acc)
    case (Cons k ks)
    have "distinct (?f acc k)" "set (?f acc k) = set acc \<union> {c. child_of ?p separator k = Some c}"
      using Cons.prems unfolding f by (auto split: option.splits)
    with Cons.IH [of "?f acc k"] show ?case by auto
  qed simp
  then show ?thesis by (simp add: children_of_def Let_def)
qed

text \<open>A segment no separator splits, and the paths made of them.\<close>

definition plain :: "string \<Rightarrow> bool" where
  "plain s \<longleftrightarrow> s \<noteq> [] \<and> CHR ''.'' \<notin> set s"

lemma cut_plain:
  "d \<notin> set s \<Longrightarrow> fst (cut (s @ d # x) [d]) = s"
  "d \<notin> set s \<Longrightarrow> fst (cut s [d]) = s"
  by (induction s) (auto simp: has_prefix_def split: prod.splits)

lemma cut_join: "plain s \<Longrightarrow> fst (cut (join_with ''.'' (s # ss)) ''.'') = s"
  by (cases ss) (simp_all add: plain_def cut_plain)

lemma has_prefix_append [simp]: "has_prefix (s @ x) s"
  by (simp add: has_prefix_def)

lemma trim_prefix_append: "trim_prefix (s @ x) s = x"
  by (simp add: trim_prefix_def)

lemma split_at_separator:
  "d \<notin> set a \<Longrightarrow> d \<notin> set b \<Longrightarrow> a @ d # x = b @ d # y \<Longrightarrow> a = b \<and> x = y"
proof (induction a arbitrary: b)
  case Nil
  then show ?case by (cases b) auto
next
  case (Cons c a)
  then show ?case by (cases b) auto
qed

lemma has_prefix_iff: "has_prefix s p \<longleftrightarrow> (\<exists>x. s = p @ x)"
  by (auto simp: has_prefix_def) (metis append_take_drop_id)

lemma join_prefix:
  "p \<noteq> [] \<Longrightarrow> list_all plain p \<Longrightarrow> list_all plain ss \<Longrightarrow>
   join_with ''.'' ss = join_with ''.'' p @ ''.'' @ x \<Longrightarrow> x \<noteq> [] \<Longrightarrow>
   \<exists>rest. rest \<noteq> [] \<and> ss = p @ rest \<and> x = join_with ''.'' rest"
proof (induction p arbitrary: ss)
  case (Cons a p)
  then obtain s ss' where ss: "ss = s # ss'" by (cases ss) auto
  have dots: "CHR ''.'' \<notin> set a" "CHR ''.'' \<notin> set s"
    using Cons.prems ss by (simp_all add: plain_def)
  obtain y where y: "join_with ''.'' (a # p) @ ''.'' @ x = a @ CHR ''.'' # y"
    by (cases p) auto
  have ne: "ss' \<noteq> []"
  proof
    assume "ss' = []"
    then have "s = a @ CHR ''.'' # y" using Cons.prems(4) ss y by simp
    with dots show False by simp
  qed
  then have "s @ CHR ''.'' # join_with ''.'' ss' = a @ CHR ''.'' # y"
    using Cons.prems(4) ss y by (simp add: join_with_Cons)
  then have eq: "s = a" "join_with ''.'' ss' = y"
    using split_at_separator [OF dots(2,1)] by auto
  show ?case
  proof (cases "p = []")
    case True
    then have "y = x" using y by simp
    then show ?thesis using ss eq True ne by auto
  next
    case False
    then have "y = join_with ''.'' p @ ''.'' @ x" using y by (simp add: join_with_Cons)
    with Cons.IH [of ss'] Cons.prems False ss eq show ?thesis by auto
  qed
qed simp

text \<open>
  Of a map whose keys spell paths of plain segments, the children of a path below the root are
  exactly the next segments of the keys beneath it, each once: a table reads one entry per key that
  exists, and misses none.
\<close>

theorem children_are_next_segments:
  assumes "finite (dom values)" "\<forall>k\<in>dom values. \<exists>ss. ss \<noteq> [] \<and> list_all plain ss \<and> k = join_with ''.'' ss"
    "p \<noteq> []" "list_all plain p"
  shows "\<exists>cs. children_at (from_map values) p = Inr cs \<and> distinct cs
    \<and> (\<forall>c. c \<in> set cs \<longleftrightarrow> (\<exists>rest. plain c \<and> list_all plain rest \<and> values (join_with ''.'' (p @ c # rest)) \<noteq> None))"
proof -
  let ?cs = "children_of (keys_of values) (render_path p) ''.''"
  let ?p = "join_with ''.'' p @ ''.''"
  have pre: "(if render_path p \<noteq> [] then render_path p @ ''.'' else render_path p) = ?p"
  proof -
    obtain a p' where "p = a # p'" "a \<noteq> []" using assms(3,4) by (cases p) (auto simp: plain_def)
    then show ?thesis by (cases p') (simp_all add: render_path_def)
  qed
  have set: "set ?cs = {c. \<exists>k\<in>dom values. child_of ?p ''.'' k = Some c}" and d: "distinct ?cs"
    using children_of_set [of "keys_of values" "render_path p" "''.''"] assms(1)
    by (simp_all add: pre keys_of_def)
  have "child_of ?p ''.'' k = Some c \<longleftrightarrow>
      (\<exists>rest. plain c \<and> list_all plain rest \<and> k = join_with ''.'' (p @ c # rest))" if kd: "k \<in> dom values" for k c
  proof
    assume l: "child_of ?p ''.'' k = Some c"
    then have "has_prefix k ?p" and x: "trim_prefix k ?p \<noteq> []" "c = fst (cut (trim_prefix k ?p) ''.'')"
      by (auto simp: child_of_def split: if_splits)
    then obtain y where y: "k = ?p @ y" by (auto simp: has_prefix_iff)
    then have ty: "trim_prefix k ?p = y" by (simp only: trim_prefix_append)
    obtain ss where ss: "list_all plain ss" "k = join_with ''.'' ss"
      using bspec [OF assms(2) kd] by blast
    have "join_with ''.'' ss = join_with ''.'' p @ ''.'' @ y" "y \<noteq> []"
      using ss(2) y ty x(1) by simp_all
    then obtain rest where rest: "rest \<noteq> []" "ss = p @ rest" "y = join_with ''.'' rest"
      using join_prefix [OF assms(3,4) ss(1), of y] by blast
    then obtain s rest' where r: "rest = s # rest'" by (cases rest) auto
    have "plain s" "list_all plain rest'" using ss(1) rest(2) r by auto
    moreover have "c = s" using x(2) ty rest(3) r cut_join [OF \<open>plain s\<close>] by simp
    ultimately show "\<exists>rest. plain c \<and> list_all plain rest \<and> k = join_with ''.'' (p @ c # rest)"
      using ss(2) rest(2) r by auto
  next
    assume "\<exists>rest. plain c \<and> list_all plain rest \<and> k = join_with ''.'' (p @ c # rest)"
    then obtain rest where r: "plain c" "k = ?p @ join_with ''.'' (c # rest)"
      using assms(3) by (auto simp: join_with_append)
    moreover have "join_with ''.'' (c # rest) \<noteq> []"
      using r(1) by (cases rest) (auto simp: plain_def)
    ultimately show "child_of ?p ''.'' k = Some c"
      using cut_join [of c rest] by (simp add: child_of_def has_prefix_iff trim_prefix_def)
  qed
  then have "c \<in> set ?cs \<longleftrightarrow>
      (\<exists>rest. plain c \<and> list_all plain rest \<and> values (join_with ''.'' (p @ c # rest)) \<noteq> None)" for c
    by (auto simp: set domIff)
  with d show ?thesis by (auto simp: from_map_def)
qed

theorem children_are_next_segments_witness:
  "\<exists>cs. children_at (from_map [''db.host'' \<mapsto> ''h'']) [''db''] = Inr cs \<and> ''host'' \<in> set cs"
proof -
  let ?m = "[''db.host'' \<mapsto> ''h'']"
  have "\<exists>ss. ss \<noteq> [] \<and> list_all plain ss \<and> ''db.host'' = join_with ''.'' ss"
    by (rule exI [of _ "[''db'', ''host'']"]) (simp add: plain_def)
  then have keys: "\<forall>k\<in>dom ?m. \<exists>ss. ss \<noteq> [] \<and> list_all plain ss \<and> k = join_with ''.'' ss" by simp
  have p: "finite (dom ?m)" "[''db''] \<noteq> []" "list_all plain [''db'']" by (simp_all add: plain_def)
  have "plain ''host'' \<and> list_all plain [] \<and> ?m (join_with ''.'' ([''db''] @ ''host'' # [])) \<noteq> None"
    by (simp add: plain_def)
  with children_are_next_segments [OF p(1) keys p(2,3)] show ?thesis by blast
qed

text \<open>
  At the root a map source spells the empty path in words, so it names no children at all there,
  where the environment names its first segments.
\<close>

lemma from_map_root_children:
  assumes "\<forall>k\<in>dom values. \<not> has_prefix k ''the root.''"
  shows "children_at (from_map values) [] = Inr []"
proof -
  have "child_of ''the root.'' ''.'' k = None" if "k \<in> set (keys_of values)" for k
  proof (cases "finite (dom values)")
    case True
    with that assms show ?thesis by (simp add: child_of_def keys_of_def)
  qed (use that in \<open>simp add: keys_of_def\<close>)
  then have "set (children_of (keys_of values) ''the root'' ''.'') = {}"
    using children_of_set [of "keys_of values" "''the root''" "''.''"] by auto
  then show ?thesis by (simp add: from_map_def render_path_def)
qed

lemma environment_root_children:
  "children_at (environment_of [''LIMITS_READ=1'']) [] = Inr [''limits'']"
  by (simp add: environment_of_def environment_values_def environment_key_def children_of_def keys_of_def
      has_prefix_def trim_prefix_def insert_new_def to_lower_def lower_char_def char_of_def bit_0)

subsection \<open>Precedence\<close>

text \<open>
  Among several sources the first that carries a path answers, an error of one that is asked
  stops the search and is reported, and the ones after an answer are not asked; the children are
  those of every source, each once.
\<close>

theorem sources_precedence:
  assumes "list_all (\<lambda>s. value_at s p = Inr None) before"
  shows "value_at (fallback (before @ s # after)) p =
      (case value_at s p of Inr None \<Rightarrow> value_at (fallback after) p | answer \<Rightarrow> answer)
    \<and> value_at (fallback before) p = Inr None
    \<and> value_at (sources (map Some (before @ s # after))) p = value_at (fallback (before @ s # after)) p
    \<and> (\<forall>css. map (\<lambda>s. children_at s p) before = map Inr css \<longrightarrow>
        (\<exists>cs. children_at (fallback before) p = Inr cs \<and> distinct cs \<and> set cs = \<Union> (set ` set css)))"
proof (intro conjI allI impI)
  show "value_at (fallback before) p = Inr None"
    using assms by (induction before) (simp_all add: fallback_def)
  show "value_at (fallback (before @ s # after)) p =
      (case value_at s p of Inr None \<Rightarrow> value_at (fallback after) p | answer \<Rightarrow> answer)"
    using assms by (induction before) (auto simp: fallback_def split: sum.splits option.splits)
  have present: "List.map_filter (\<lambda>s. s) (map Some ss) = ss" for ss :: "source list"
    by (induction ss) (simp_all add: List.map_filter_def)
  show "value_at (sources (map Some (before @ s # after))) p = value_at (fallback (before @ s # after)) p"
  proof (cases "before @ s # after")
    case (Cons x xs)
    then show ?thesis
      by (cases xs)
         (auto simp: sources_def Let_def present fallback_def simp del: list.map map_append
           split: sum.splits option.splits)
  qed simp
  fix css assume css: "map (\<lambda>s. children_at s p) before = map Inr css"
  have "distinct names \<Longrightarrow> map (\<lambda>s. children_at s p) ss = map Inr css \<Longrightarrow>
      \<exists>cs. gather_children names ss p = Inr cs \<and> distinct cs \<and> set cs = set names \<union> \<Union> (set ` set css)"
    for names ss css
  proof (induction ss arbitrary: names css)
    case (Cons x ss)
    then obtain c css' where c: "css = c # css'" "children_at x p = Inr c" "map (\<lambda>s. children_at s p) ss = map Inr css'"
      by (cases css) auto
    with Cons.IH [of "foldl (\<lambda>names child. insert_new child names) names c" css'] Cons.prems(1)
      foldl_insert_new [of names c] show ?case by auto
  qed simp
  from this [of "[]", OF _ css] show
    "\<exists>cs. children_at (fallback before) p = Inr cs \<and> distinct cs \<and> set cs = \<Union> (set ` set css)"
    by (simp add: fallback_def)
qed

theorem sources_precedence_witness:
  "value_at (fallback [from_map (\<lambda>_. None), single ''a'', single ''b'']) [''k''] = Inr (Some ''a'')"
  using sources_precedence [of "[''k'']" "[from_map (\<lambda>_. None)]" "single ''a''" "[single ''b'']"]
  by (simp add: from_map_def single_def)

end
