(* ===== verification/Config_Read.thy ===== *)
theory Config_Read
  imports Config_Source
begin

section \<open>Configuration descriptions\<close>

text \<open>
  \<^verbatim>\<open>effect/config/config.go\<close>, \<^verbatim>\<open>primitives.go\<close>, \<^verbatim>\<open>composition.go\<close>,
  \<^verbatim>\<open>collections.go\<close> and \<^verbatim>\<open>structure.go\<close>. A description is a reader of a cursor and
  the expectations it prints. A reader returns a value and an error in the code, the value meaning
  nothing unless the error is empty: here \<open>Inl\<close> is that error and \<open>Inr\<close> the value. The zero
  description has no reader.
\<close>

record cursor =
  at_source :: source
  at_path :: path

definition under :: "string \<Rightarrow> cursor \<Rightarrow> cursor" where
  "under n at = (if n = [] then at else at\<lparr>at_path := at_path at @ [n]\<rparr>)"

record expectation =
  exp_path :: path
  exp_type :: string
  exp_description :: string
  exp_default :: string
  exp_optional :: bool
  exp_secret :: bool

record 'a config =
  read :: "(cursor \<Rightarrow> cerror + 'a) option"
  expects :: "expectation list"

definition err_zero_description :: cerror where
  "err_zero_description = Invalid ''described; the zero Config describes nothing'' []"

definition err_no_source :: go_err where
  "err_no_source = GoErr 3 ''config: no source to read from'' []"

definition reader :: "'a config \<Rightarrow> cursor \<Rightarrow> cerror + 'a" where
  "reader d = (case read d of Some r \<Rightarrow> r | None \<Rightarrow> (\<lambda>_. Inl err_zero_description))"

definition read_config :: "source option \<Rightarrow> 'a config \<Rightarrow> cerror + 'a" where
  "read_config s d =
     (case s of
        None \<Rightarrow> Inl (Unavailable err_no_source [])
      | Some s \<Rightarrow> reader d \<lparr>at_source = s, at_path = []\<rparr>)"

fun failure_of :: "cerror + 'a \<Rightarrow> cerror" where
  "failure_of (Inl e) = e"
| "failure_of (Inr _) = NoError"

definition subject_path :: "'a config \<Rightarrow> path" where
  "subject_path d = (case expects d of [] \<Rightarrow> [] | x # _ \<Rightarrow> exp_path x)"

definition path_of :: "string \<Rightarrow> path" where
  "path_of n = (if n = [] then [] else [n])"

definition expectation_of :: "path \<Rightarrow> string \<Rightarrow> expectation" where
  "expectation_of p t =
     \<lparr>exp_path = p, exp_type = t, exp_description = [], exp_default = [], exp_optional = False, exp_secret = False\<rparr>"

definition types_in :: "expectation list \<Rightarrow> string" where
  "types_in es = (case es of [] \<Rightarrow> ''values'' | x # _ \<Rightarrow> exp_type x)"

subsection \<open>Primitives\<close>

text \<open>\<open>value_here\<close> is the read shared by \<open>Of\<close> and \<open>Many\<close>: the text at a cursor.\<close>

definition value_here :: "cursor \<Rightarrow> cerror + string" where
  "value_here here =
     (case value_at (at_source here) (at_path here) of
        Inl e \<Rightarrow> Inl (Unavailable e (at_path here))
      | Inr None \<Rightarrow> Inl (Missing (at_path here))
      | Inr (Some raw) \<Rightarrow> Inr raw)"

text \<open>A parser answers the reason it refuses (\<open>Inl\<close>) or the value.\<close>

definition of_config :: "string \<Rightarrow> string \<Rightarrow> (string \<Rightarrow> string + 'a) \<Rightarrow> 'a config" where
  "of_config n t parse =
     \<lparr>read = Some (\<lambda>at. let here = under n at in
        case value_here here of
          Inl e \<Rightarrow> Inl e
        | Inr raw \<Rightarrow>
            (case parse raw of Inl m \<Rightarrow> Inl (Invalid m (at_path here)) | Inr v \<Rightarrow> Inr v)),
      expects = [expectation_of (path_of n) t]\<rparr>"

definition text_config :: "string \<Rightarrow> string config" where
  "text_config n = of_config n ''text'' Inr"

definition non_empty_text :: "string \<Rightarrow> string config" where
  "non_empty_text n =
     of_config n ''non-empty text'' (\<lambda>raw. if trim_space raw = [] then Inl ''non-empty text'' else Inr raw)"

definition int_config :: "string \<Rightarrow> int config" where
  "int_config n =
     of_config n ''an integer''
       (\<lambda>raw. case atoi (trim_space raw) of None \<Rightarrow> Inl ''an integer'' | Some v \<Rightarrow> Inr v)"

definition bool_config :: "string \<Rightarrow> bool config" where
  "bool_config n =
     of_config n ''a flag''
       (\<lambda>raw. let s = to_lower (trim_space raw) in
         if s \<in> {''1'', ''t'', ''true'', ''yes'', ''y'', ''on''} then Inr True
         else if s \<in> {''0'', ''f'', ''false'', ''no'', ''n'', ''off''} then Inr False
         else Inl ''a flag: true or false, yes or no, on or off'')"

definition port_config :: "string \<Rightarrow> int config" where
  "port_config n =
     of_config n ''a port''
       (\<lambda>raw. case atoi (trim_space raw) of
          None \<Rightarrow> Inl ''a port between 1 and 65535''
        | Some v \<Rightarrow> if v < 1 \<or> v > 65535 then Inl ''a port between 1 and 65535'' else Inr v)"

datatype secret = Secret string

definition secret_config :: "string \<Rightarrow> secret config" where
  "secret_config n =
     (let d = of_config n ''a secret'' (\<lambda>raw. Inr (Secret raw))
      in d\<lparr>expects := map (\<lambda>x. x\<lparr>exp_secret := True\<rparr>) (expects d)\<rparr>)"

subsection \<open>Transformations\<close>

definition map_config :: "'a config \<Rightarrow> ('a \<Rightarrow> 'b) \<Rightarrow> 'b config" where
  "map_config d transform =
     \<lparr>read = Some (\<lambda>at. case reader d at of Inl e \<Rightarrow> Inl e | Inr v \<Rightarrow> Inr (transform v)),
      expects = expects d\<rparr>"

definition map_or_fail :: "'a config \<Rightarrow> ('a \<Rightarrow> string + 'b) \<Rightarrow> 'b config" where
  "map_or_fail d transform =
     \<lparr>read = Some (\<lambda>at.
        case reader d at of
          Inl e \<Rightarrow> Inl e
        | Inr v \<Rightarrow>
            (case transform v of
               Inl m \<Rightarrow> Inl (Invalid m (at_path at @ subject_path d))
             | Inr r \<Rightarrow> Inr r)),
      expects = expects d\<rparr>"

definition validate :: "'a config \<Rightarrow> string \<Rightarrow> ('a \<Rightarrow> bool) \<Rightarrow> 'a config" where
  "validate d message keep = map_or_fail d (\<lambda>v. if \<not> keep v then Inl message else Inr v)"

definition with_description :: "'a config \<Rightarrow> string \<Rightarrow> 'a config" where
  "with_description d doc =
     d\<lparr>expects := map (\<lambda>x. if exp_description x = [] then x\<lparr>exp_description := doc\<rparr> else x) (expects d)\<rparr>"

definition prefix_expectations :: "string \<Rightarrow> expectation list \<Rightarrow> expectation list" where
  "prefix_expectations n es = (if n = [] then es else map (\<lambda>x. x\<lparr>exp_path := n # exp_path x\<rparr>) es)"

definition nested :: "string \<Rightarrow> 'a config \<Rightarrow> 'a config" where
  "nested n d =
     \<lparr>read = Some (\<lambda>at. reader d (under n at)), expects = prefix_expectations n (expects d)\<rparr>"

text \<open>\<open>shown\<close> is how a stand-in prints.\<close>

definition with_default :: "('a \<Rightarrow> string) \<Rightarrow> 'a config \<Rightarrow> 'a \<Rightarrow> 'a config" where
  "with_default shown d v =
     \<lparr>read = Some (\<lambda>at.
        case reader d at of
          Inl e \<Rightarrow> if is_missing_only e then Inr v else Inl e
        | Inr r \<Rightarrow> Inr r),
      expects = map (\<lambda>x. if exp_default x = [] then x\<lparr>exp_default := shown v\<rparr> else x) (expects d)\<rparr>"

definition or_else :: "'a config \<Rightarrow> 'a config \<Rightarrow> 'a config" where
  "or_else d that =
     \<lparr>read = Some (\<lambda>at.
        case reader d at of
          Inr v \<Rightarrow> Inr v
        | Inl e \<Rightarrow> (case reader that at of Inr a \<Rightarrow> Inr a | Inl refused \<Rightarrow> Inl (or_error e refused))),
      expects = map (\<lambda>x. x\<lparr>exp_optional := True\<rparr>) (expects d) @ expects that\<rparr>"

definition optional_config :: "'a config \<Rightarrow> ('a \<Rightarrow> 'b) \<Rightarrow> (unit \<Rightarrow> 'b) \<Rightarrow> 'b config" where
  "optional_config d present absent =
     \<lparr>read = Some (\<lambda>at.
        case reader d at of
          Inl e \<Rightarrow> if is_missing_only e then Inr (absent ()) else Inl e
        | Inr v \<Rightarrow> Inr (present v)),
      expects = map (\<lambda>x. x\<lparr>exp_optional := True\<rparr>) (expects d)\<rparr>"

subsection \<open>Combining several descriptions\<close>

definition zip_with :: "'a config \<Rightarrow> 'b config \<Rightarrow> ('a \<Rightarrow> 'b \<Rightarrow> 'c) \<Rightarrow> 'c config" where
  "zip_with d e combine =
     \<lparr>read = Some (\<lambda>at.
        let l = reader d at; r = reader e at; failure = and_error (failure_of l) (failure_of r)
        in if failure \<noteq> NoError then Inl failure else Inr (combine (projr l) (projr r))),
      expects = expects d @ expects e\<rparr>"

text \<open>The loops that read everything: the failures accumulate, the values are kept in order.\<close>

definition gather :: "(cerror + 'a) list \<Rightarrow> cerror \<times> 'a list" where
  "gather rs =
     foldl (\<lambda>(failure, values) r.
       (and_error failure (failure_of r), case r of Inl _ \<Rightarrow> values | Inr v \<Rightarrow> values @ [v])) (NoError, []) rs"

definition settle :: "cerror \<times> 'a \<Rightarrow> cerror + 'a" where
  "settle result = (if fst result \<noteq> NoError then Inl (fst result) else Inr (snd result))"

definition all_config :: "'a config list \<Rightarrow> 'a list config" where
  "all_config ds =
     \<lparr>read = Some (\<lambda>at. settle (gather (map (\<lambda>d. reader d at) ds))),
      expects = concat (map expects ds)\<rparr>"

definition table :: "string \<Rightarrow> 'a config \<Rightarrow> (string \<Rightarrow> 'a option) config" where
  "table n d =
     \<lparr>read = Some (\<lambda>at. let here = under n at in
        case children_at (at_source here) (at_path here) of
          Inl e \<Rightarrow> Inl (Unavailable e (at_path here))
        | Inr children \<Rightarrow>
            settle (foldl (\<lambda>(failure, entries) child.
              case reader d (under child here) of
                Inl e \<Rightarrow> (and_error failure e, entries)
              | Inr v \<Rightarrow> (failure, entries(child \<mapsto> v))) (NoError, \<lambda>_. None) children)),
      expects = [(expectation_of (path_of n) (''a table of '' @ types_in (expects d)))\<lparr>exp_optional := True\<rparr>]\<rparr>"

definition many :: "string \<Rightarrow> string \<Rightarrow> 'a config \<Rightarrow> 'a list config" where
  "many n separator d =
     \<lparr>read = Some (\<lambda>at. let here = under n at in
        case value_here here of
          Inl e \<Rightarrow> Inl e
        | Inr raw \<Rightarrow>
            settle (gather (map (\<lambda>piece.
              reader d \<lparr>at_source = single (trim_space piece), at_path = at_path here\<rparr>) (split raw separator)))),
      expects = [expectation_of (path_of n)
        (types_in (expects d) @ '' separated by '' @ [CHR 0x22] @ separator @ [CHR 0x22])]\<rparr>"

text \<open>Fields of a structure: each is read whatever the ones before did.\<close>

record 's setting =
  field_read :: "(cursor \<Rightarrow> 's \<Rightarrow> cerror \<times> 's) option"
  field_expects :: "expectation list"

definition setting_of :: "'a config \<Rightarrow> ('s \<Rightarrow> 'a \<Rightarrow> 's) \<Rightarrow> 's setting" where
  "setting_of d assign =
     \<lparr>field_read = Some (\<lambda>at into. case reader d at of Inl e \<Rightarrow> (e, into) | Inr v \<Rightarrow> (NoError, assign into v)),
      field_expects = expects d\<rparr>"

definition struct_config :: "'s \<Rightarrow> 's setting list \<Rightarrow> 's config" where
  "struct_config zero parts =
     \<lparr>read = Some (\<lambda>at.
        settle (foldl (\<lambda>(failure, v) field.
          case field_read field of
            None \<Rightarrow> (and_error failure err_zero_description, v)
          | Some r \<Rightarrow> (case r at v of (e, v') \<Rightarrow> (and_error failure e, v'))) (NoError, zero) parts)),
      expects = concat (map field_expects parts)\<rparr>"

lemmas config_defs = of_config_def map_config_def map_or_fail_def validate_def with_description_def
  nested_def with_default_def or_else_def optional_config_def zip_with_def all_config_def table_def
  many_def struct_config_def setting_of_def

lemmas primitive_defs = text_config_def non_empty_text_def int_config_def bool_config_def port_config_def

subsection \<open>Failures are never empty\<close>

definition honest :: "'a config \<Rightarrow> bool" where
  "honest d \<longleftrightarrow> (\<forall>at e. reader d at = Inl e \<longrightarrow> e \<noteq> NoError \<and> proper_error e)"

lemma honestD: "honest d \<Longrightarrow> reader d at = Inl e \<Longrightarrow> e \<noteq> NoError \<and> proper_error e"
  by (simp add: honest_def)

lemma reader_simp [simp]: "reader \<lparr>read = Some r, expects = es\<rparr> = r"
  by (simp add: reader_def)

lemma reader_expects [simp]: "reader (d\<lparr>expects := es\<rparr>) = reader d"
  by (simp add: reader_def)

lemma honest_failure: "honest d \<Longrightarrow> proper_error (failure_of (reader d at))"
  by (cases "reader d at") (auto dest: honestD)

lemma honest_failure_iff: "honest d \<Longrightarrow> failure_of (reader d at) = NoError \<longleftrightarrow> isl (reader d at) = False"
  by (cases "reader d at") (auto dest: honestD)

lemma value_here_error: "value_here here = Inl e \<Longrightarrow> e \<noteq> NoError \<and> proper_error e"
  by (auto simp: value_here_def split: sum.splits option.splits)

lemma gather_eq:
  "gather rs = (foldl and_error NoError (map failure_of rs), List.map_filter (\<lambda>r. case r of Inl _ \<Rightarrow> None | Inr v \<Rightarrow> Some v) rs)"
proof -
  have "foldl (\<lambda>(failure, values) r.
       (and_error failure (failure_of r), case r of Inl _ \<Rightarrow> values | Inr v \<Rightarrow> values @ [v])) (f, vs) rs =
     (foldl and_error f (map failure_of rs),
      vs @ List.map_filter (\<lambda>r. case r of Inl _ \<Rightarrow> None | Inr v \<Rightarrow> Some v) rs)" for f vs
    by (induction rs arbitrary: f vs) (auto simp: List.map_filter_def split: sum.splits)
  then show ?thesis by (simp add: gather_def)
qed

lemma settle_error: "settle (e, x) = Inl e' \<Longrightarrow> proper_error e \<Longrightarrow> e' \<noteq> NoError \<and> proper_error e'"
  by (auto simp: settle_def split: if_splits)

lemma foldl_and_proper: "\<forall>e\<in>set es. proper_error e \<Longrightarrow> proper_error (foldl and_error NoError es)"
  by (rule and_alg.valid_foldl) simp_all

lemma honest_of: "honest (of_config n t parse)"
  by (auto simp: honest_def of_config_def Let_def value_here_def split: sum.splits option.splits)

lemma honest_map: "honest d \<Longrightarrow> honest (map_config d f)"
  by (auto simp: honest_def map_config_def split: sum.splits)

lemma honest_map_or_fail: "honest d \<Longrightarrow> honest (map_or_fail d f)"
  by (auto simp: honest_def map_or_fail_def split: sum.splits)

lemma honest_nested: "honest d \<Longrightarrow> honest (nested n d)"
  by (auto simp: honest_def nested_def)

lemma honest_with_default: "honest d \<Longrightarrow> honest (with_default shown d v)"
  by (auto simp: honest_def with_default_def split: sum.splits if_splits)

lemma honest_or_else: "honest d \<Longrightarrow> honest e \<Longrightarrow> honest (or_else d e)"
  by (auto simp: honest_def or_else_def or_alg.compose_empty_iff split: sum.splits)

lemma honest_optional: "honest d \<Longrightarrow> honest (optional_config d f g)"
  by (auto simp: honest_def optional_config_def split: sum.splits if_splits)

lemma honest_zip: "honest d \<Longrightarrow> honest e \<Longrightarrow> honest (zip_with d e f)"
  by (auto simp: honest_def zip_with_def Let_def honest_failure [unfolded honest_def] split: if_splits)

lemma honest_all: "\<forall>d\<in>set ds. honest d \<Longrightarrow> honest (all_config ds)"
  unfolding honest_def [of "all_config ds"]
  by (auto simp: all_config_def gather_eq comp_def dest!: settle_error intro!: foldl_and_proper honest_failure)

lemma honest_many: "honest d \<Longrightarrow> honest (many n sep d)"
  unfolding honest_def [of "many n sep d"]
  by (auto simp: many_def Let_def gather_eq comp_def split: sum.splits
      dest: value_here_error dest!: settle_error intro!: foldl_and_proper honest_failure)

lemma honest_zero: "honest \<lparr>read = None, expects = es\<rparr>"
  by (simp add: honest_def reader_def err_zero_description_def)

subsection \<open>Everything that is wrong is reported\<close>

lemma map_filter_all_Inr:
  "map f xs = map Inr vs \<Longrightarrow>
   List.map_filter (\<lambda>r. case r of Inl _ \<Rightarrow> None | Inr v \<Rightarrow> Some v) (map f xs) = vs"
proof (induction xs arbitrary: vs)
  case Nil
  then show ?case by (simp add: List.map_filter_simps)
next
  case (Cons x xs)
  then show ?case by (cases vs) (auto simp: List.map_filter_simps)
qed

lemma all_Inr_iff: "(\<exists>vs. map f xs = map Inr vs) \<longleftrightarrow> (\<forall>x\<in>set xs. \<not> isl (f x))"
proof
  assume "\<forall>x\<in>set xs. \<not> isl (f x)"
  then have "map f xs = map Inr (map (projr \<circ> f) xs)" by auto
  then show "\<exists>vs. map f xs = map Inr vs" by blast
next
  assume "\<exists>vs. map f xs = map Inr vs"
  then obtain vs where "set (map f xs) = set (map Inr vs)" by metis
  then show "\<forall>x\<in>set xs. \<not> isl (f x)" by (auto simp: isl_def) (metis Inl_Inr_False image_iff)
qed

lemma settle_gather_leaves:
  "error_leaves (failure_of (settle (gather rs))) = concat (map (error_leaves \<circ> failure_of) rs)"
proof -
  have "failure_of (settle (gather rs)) = foldl and_error NoError (map failure_of rs)"
    by (simp add: settle_def gather_eq)
  then show ?thesis by (simp add: and_alg.leaves_foldl comp_def)
qed

lemma settle_gather_Inr:
  assumes "\<forall>r\<in>set rs. proper_error (failure_of r) \<and> (isl r \<longrightarrow> failure_of r \<noteq> NoError)"
  shows "settle (gather rs) = Inr vs \<longleftrightarrow> rs = map Inr vs"
proof -
  have "foldl and_error NoError (map failure_of rs) = NoError \<longleftrightarrow> (\<forall>r\<in>set rs. failure_of r = NoError)"
    using assms by (subst and_alg.foldl_empty_iff) auto
  also have "\<dots> \<longleftrightarrow> (\<forall>r\<in>set rs. \<not> isl r)"
    using assms by (metis failure_of.simps(2) isl_def obj_sumE)
  also have "\<dots> \<longleftrightarrow> (\<exists>vs. map id rs = map Inr vs)" by (simp only: all_Inr_iff id_apply)
  finally have eq: "foldl and_error NoError (map failure_of rs) = NoError \<longleftrightarrow> (\<exists>vs. rs = map Inr vs)" by simp
  show ?thesis
  proof
    assume l: "settle (gather rs) = Inr vs"
    then obtain us where "rs = map Inr us" using eq by (auto simp: settle_def gather_eq split: if_splits)
    then show "rs = map Inr vs"
      using l map_filter_all_Inr [of id rs us] by (auto simp: settle_def gather_eq split: if_splits)
  next
    assume "rs = map Inr vs"
    then show "settle (gather rs) = Inr vs"
      using eq map_filter_all_Inr [of id rs vs] by (auto simp: settle_def gather_eq)
  qed
qed

lemma table_loop:
  "foldl (\<lambda>(failure, entries) child. case r child of
       Inl e \<Rightarrow> (and_error failure e, entries)
     | Inr v \<Rightarrow> (failure, entries(child \<mapsto> v))) (f, m) cs =
   (foldl and_error f (map (failure_of \<circ> r) cs),
    m ++ map_of (rev (List.map_filter (\<lambda>c. case r c of Inl _ \<Rightarrow> None | Inr v \<Rightarrow> Some (c, v)) cs)))"
proof (induction cs arbitrary: f m)
  case (Cons c cs)
  then show ?case
    by (cases "r c")
       (simp_all add: List.map_filter_simps comp_def map_add_assoc fun_upd_def [symmetric] del: fun_upd_apply)
qed (simp add: List.map_filter_simps)



subsection \<open>Stand-ins apply to absence only\<close>

text \<open>
  A default, and an optional value's stand-in, is used exactly when the source answers that it
  does not carry the path. A value that is there and refused is reported as invalid at its path, an
  unreachable source as unavailable, whatever the default.
\<close>

theorem default_only_for_absence:
  "reader (with_default shown (of_config n t parse) v) at =
    (case value_at (at_source (under n at)) (at_path (under n at)) of
       Inr None \<Rightarrow> Inr v
     | Inl e \<Rightarrow> Inl (Unavailable e (at_path (under n at)))
     | Inr (Some raw) \<Rightarrow>
         (case parse raw of Inl m \<Rightarrow> Inl (Invalid m (at_path (under n at))) | Inr a \<Rightarrow> Inr a))
   \<and> reader (optional_config (of_config n t parse) present absent) at =
    (case value_at (at_source (under n at)) (at_path (under n at)) of
       Inr None \<Rightarrow> Inr (absent ())
     | Inl e \<Rightarrow> Inl (Unavailable e (at_path (under n at)))
     | Inr (Some raw) \<Rightarrow>
         (case parse raw of Inl m \<Rightarrow> Inl (Invalid m (at_path (under n at))) | Inr a \<Rightarrow> Inr (present a)))"
  by (auto simp: with_default_def optional_config_def of_config_def Let_def value_here_def is_missing_only_def
      split: sum.splits option.splits)

text \<open>
  A composite is absent when every failure in it is an absence, so a default stands in for a
  composite of which one part was supplied, and what was supplied is dropped.
\<close>

lemma default_drops_supplied_part:
  assumes "value_at s [''host''] = Inr (Some h)" "value_at s [''name''] = Inr None"
  shows "reader (with_default shown (zip_with (text_config ''host'') (text_config ''name'') Pair) v)
      \<lparr>at_source = s, at_path = []\<rparr> = Inr v"
  using assms
  by (simp add: with_default_def zip_with_def text_config_def of_config_def Let_def value_here_def under_def
      is_missing_only_def and_error_def compose_error_def)

text \<open>
  A refused transformation is reported against the first expectation's path, also when the value
  came from the alternative of an \<open>OrElse\<close>.
\<close>

lemma refusal_blames_first_alternative:
  assumes "value_at s [''new''] = Inr None" "value_at s [''old''] = Inr (Some raw)"
  shows "reader (validate (or_else (text_config ''new'') (text_config ''old'')) m (\<lambda>_. False))
      \<lparr>at_source = s, at_path = []\<rparr> = Inl (Invalid m [''new''])"
  using assms
  by (simp add: validate_def map_or_fail_def or_else_def text_config_def of_config_def Let_def value_here_def
      under_def subject_path_def expectation_of_def path_of_def)

subsection \<open>Reading beneath a path\<close>

text \<open>
  \<open>relocatable\<close>: reading a description at a path inside a source is reading it at the root of that
  source's subtree, every path in the failure prefixed.
\<close>

definition relocatable :: "'a config \<Rightarrow> bool" where
  "relocatable d \<longleftrightarrow>
     (\<forall>s pre p. reader d \<lparr>at_source = s, at_path = pre @ p\<rparr> =
        map_sum (with_prefix pre) id (reader d \<lparr>at_source = subtree s pre, at_path = p\<rparr>))"

lemma relocatableD:
  "relocatable d \<Longrightarrow> reader d \<lparr>at_source = s, at_path = pre @ p\<rparr> =
     map_sum (with_prefix pre) id (reader d \<lparr>at_source = subtree s pre, at_path = p\<rparr>)"
  by (simp add: relocatable_def)

lemma under_append: "under n \<lparr>at_source = s, at_path = pre @ p\<rparr> =
    \<lparr>at_source = s, at_path = pre @ at_path (under n \<lparr>at_source = s, at_path = p\<rparr>)\<rparr>"
  by (simp add: under_def)

lemma value_here_relocates:
  "value_here \<lparr>at_source = s, at_path = pre @ p\<rparr> =
     map_sum (with_prefix pre) id (value_here \<lparr>at_source = subtree s pre, at_path = p\<rparr>)"
  by (simp add: value_here_def subtree_def split: sum.splits option.splits)

lemma at_path_under: "at_path (under n \<lparr>at_source = s, at_path = p\<rparr>) = (if n = [] then p else p @ [n])"
  by (simp add: under_def)

lemma under_eq: "under n \<lparr>at_source = s, at_path = p\<rparr> = \<lparr>at_source = s, at_path = (if n = [] then p else p @ [n])\<rparr>"
  by (simp add: under_def)

text \<open>A cursor and its counterpart in the subtree, moved under a name.\<close>

lemma under_relocates:
  "\<exists>q. (\<forall>s pre. under n \<lparr>at_source = s, at_path = pre @ p\<rparr> = \<lparr>at_source = s, at_path = pre @ q\<rparr>)
     \<and> (\<forall>s. under n \<lparr>at_source = s, at_path = p\<rparr> = \<lparr>at_source = s, at_path = q\<rparr>)"
  by (intro exI [of _ "if n = [] then p else p @ [n]"]) (simp add: under_def)

lemma relocatable_of: "relocatable (of_config n t parse)"
  unfolding relocatable_def
proof (intro allI)
  fix s pre p
  obtain q where q: "\<And>s pre. under n \<lparr>at_source = s, at_path = pre @ p\<rparr> = \<lparr>at_source = s, at_path = pre @ q\<rparr>"
    "\<And>s. under n \<lparr>at_source = s, at_path = p\<rparr> = \<lparr>at_source = s, at_path = q\<rparr>"
    using under_relocates [of n p] by blast
  show "reader (of_config n t parse) \<lparr>at_source = s, at_path = pre @ p\<rparr> =
      map_sum (with_prefix pre) id (reader (of_config n t parse) \<lparr>at_source = subtree s pre, at_path = p\<rparr>)"
    unfolding of_config_def reader_simp q Let_def value_here_relocates
    by (cases "value_here \<lparr>at_source = subtree s pre, at_path = q\<rparr>") (auto split: sum.splits)
qed

lemma relocatable_nested:
  assumes "relocatable d"
  shows "relocatable (nested n d)"
proof -
  have "reader d \<lparr>at_source = s, at_path = pre @ p @ [n]\<rparr> =
      map_sum (with_prefix pre) id (reader d \<lparr>at_source = subtree s pre, at_path = p @ [n]\<rparr>)" for s pre p
    by (rule relocatableD [OF assms])
  then show ?thesis
    using relocatableD [OF assms] by (auto simp: relocatable_def nested_def under_eq)
qed

lemma relocatable_map: "relocatable d \<Longrightarrow> relocatable (map_config d f)"
  by (auto simp: relocatable_def map_config_def split: sum.splits)

lemma relocatable_map_or_fail: "relocatable d \<Longrightarrow> relocatable (map_or_fail d f)"
  by (auto simp: relocatable_def map_or_fail_def split: sum.splits)

lemma relocatable_with_default: "relocatable d \<Longrightarrow> relocatable (with_default shown d v)"
  by (auto simp: relocatable_def with_default_def split: sum.splits)

lemma relocatable_optional: "relocatable d \<Longrightarrow> relocatable (optional_config d f g)"
  by (auto simp: relocatable_def optional_config_def split: sum.splits)

lemma relocatable_or_else: "relocatable d \<Longrightarrow> relocatable e \<Longrightarrow> relocatable (or_else d e)"
  by (auto simp: relocatable_def or_else_def split: sum.splits)

lemma failure_of_map_sum [simp]: "failure_of (map_sum (with_prefix pre) id r) = with_prefix pre (failure_of r)"
  by (cases r) simp_all

lemma relocatable_zip:
  assumes "honest d" "honest e" "relocatable d" "relocatable e"
  shows "relocatable (zip_with d e f)"
  using assms(3,4) unfolding relocatable_def zip_with_def reader_simp Let_def
proof (intro allI)
  fix s pre p
  assume d: "\<forall>s pre p. reader d \<lparr>at_source = s, at_path = pre @ p\<rparr> =
        map_sum (with_prefix pre) id (reader d \<lparr>at_source = subtree s pre, at_path = p\<rparr>)"
    and e: "\<forall>s pre p. reader e \<lparr>at_source = s, at_path = pre @ p\<rparr> =
        map_sum (with_prefix pre) id (reader e \<lparr>at_source = subtree s pre, at_path = p\<rparr>)"
  let ?l = "reader d \<lparr>at_source = subtree s pre, at_path = p\<rparr>"
  let ?r = "reader e \<lparr>at_source = subtree s pre, at_path = p\<rparr>"
  have "?l = Inl x \<Longrightarrow> and_error x y \<noteq> NoError" "?r = Inl x \<Longrightarrow> and_error y x \<noteq> NoError" for x y
    using honestD [OF assms(1)] honestD [OF assms(2)] by (auto simp: and_error_def compose_error_def)
  then show "(if and_error (failure_of (reader d \<lparr>at_source = s, at_path = pre @ p\<rparr>))
           (failure_of (reader e \<lparr>at_source = s, at_path = pre @ p\<rparr>)) \<noteq> NoError
      then Inl (and_error (failure_of (reader d \<lparr>at_source = s, at_path = pre @ p\<rparr>))
           (failure_of (reader e \<lparr>at_source = s, at_path = pre @ p\<rparr>)))
      else Inr (f (projr (reader d \<lparr>at_source = s, at_path = pre @ p\<rparr>))
           (projr (reader e \<lparr>at_source = s, at_path = pre @ p\<rparr>)))) =
      map_sum (with_prefix pre) id
       (if and_error (failure_of ?l) (failure_of ?r) \<noteq> NoError then Inl (and_error (failure_of ?l) (failure_of ?r))
        else Inr (f (projr ?l) (projr ?r)))"
    unfolding d [rule_format] e [rule_format]
    by (cases ?l; cases ?r) (auto simp flip: with_prefix_and)
qed

lemma settle_gather_relocates:
  "settle (gather (map (map_sum (with_prefix pre) id) rs)) = map_sum (with_prefix pre) id (settle (gather rs))"
proof -
  have "foldl and_error (with_prefix pre e) (map (failure_of \<circ> map_sum (with_prefix pre) id) rs) =
      with_prefix pre (foldl and_error e (map failure_of rs))" for e
    by (induction rs arbitrary: e) (simp_all flip: with_prefix_and)
  from this [of NoError]
  have "foldl and_error NoError (map failure_of (map (map_sum (with_prefix pre) id) rs)) =
      with_prefix pre (foldl and_error NoError (map failure_of rs))" by simp
  moreover have "List.map_filter (\<lambda>r. case r of Inl _ \<Rightarrow> None | Inr v \<Rightarrow> Some v) (map (map_sum (with_prefix pre) id) rs) =
      List.map_filter (\<lambda>r. case r of Inl _ \<Rightarrow> None | Inr v \<Rightarrow> Some v) rs"
    by (induction rs) (auto simp: List.map_filter_simps split: sum.splits)
  ultimately show ?thesis by (simp add: settle_def gather_eq)
qed

lemma relocatable_all: "\<forall>d\<in>set ds. relocatable d \<Longrightarrow> relocatable (all_config ds)"
proof -
  assume ds: "\<forall>d\<in>set ds. relocatable d"
  have "map (\<lambda>d. reader d \<lparr>at_source = s, at_path = pre @ p\<rparr>) ds =
      map (map_sum (with_prefix pre) id) (map (\<lambda>d. reader d \<lparr>at_source = subtree s pre, at_path = p\<rparr>) ds)" for s pre p
    using ds by (auto simp: relocatableD)
  then show ?thesis
    by (simp add: relocatable_def all_config_def settle_gather_relocates del: map_map)
qed

lemma subtree_single: "subtree (single v) pre = single v"
  by (simp add: subtree_def single_def)

lemma relocatable_many:
  assumes "relocatable d"
  shows "relocatable (many n sep d)"
  unfolding relocatable_def
proof (intro allI)
  fix s pre p
  obtain q where q: "\<And>s pre. under n \<lparr>at_source = s, at_path = pre @ p\<rparr> = \<lparr>at_source = s, at_path = pre @ q\<rparr>"
    "\<And>s. under n \<lparr>at_source = s, at_path = p\<rparr> = \<lparr>at_source = s, at_path = q\<rparr>"
    using under_relocates [of n p] by blast
  have "map (\<lambda>piece. reader d \<lparr>at_source = single (trim_space piece), at_path = pre @ q\<rparr>) ps =
      map (map_sum (with_prefix pre) id)
        (map (\<lambda>piece. reader d \<lparr>at_source = single (trim_space piece), at_path = q\<rparr>) ps)" for ps
    using relocatableD [OF assms] by (simp add: subtree_single)
  then show "reader (many n sep d) \<lparr>at_source = s, at_path = pre @ p\<rparr> =
      map_sum (with_prefix pre) id (reader (many n sep d) \<lparr>at_source = subtree s pre, at_path = p\<rparr>)"
    unfolding many_def reader_simp q Let_def value_here_relocates
    by (cases "value_here \<lparr>at_source = subtree s pre, at_path = q\<rparr>")
       (simp_all add: settle_gather_relocates del: map_map)
qed

lemma relocatable_table:
  assumes "relocatable d"
  shows "relocatable (table n d)"
  unfolding relocatable_def
proof (intro allI)
  fix s pre p
  obtain q where q: "\<And>s pre. under n \<lparr>at_source = s, at_path = pre @ p\<rparr> = \<lparr>at_source = s, at_path = pre @ q\<rparr>"
    "\<And>s. under n \<lparr>at_source = s, at_path = p\<rparr> = \<lparr>at_source = s, at_path = q\<rparr>"
    using under_relocates [of n p] by blast
  let ?r = "\<lambda>c. reader d (under c \<lparr>at_source = s, at_path = pre @ q\<rparr>)"
  let ?t = "\<lambda>c. reader d (under c \<lparr>at_source = subtree s pre, at_path = q\<rparr>)"
  have r: "?r c = map_sum (with_prefix pre) id (?t c)" for c
    using relocatableD [OF assms, of s pre "if c = [] then q else q @ [c]"] by (auto simp: under_eq)
  have f: "foldl and_error (with_prefix pre e) (map (failure_of \<circ> ?r) cs) =
      with_prefix pre (foldl and_error e (map (failure_of \<circ> ?t) cs))" for e cs
    by (induction cs arbitrary: e) (simp_all add: r flip: with_prefix_and)
  have m: "List.map_filter (\<lambda>c. case ?r c of Inl _ \<Rightarrow> None | Inr v \<Rightarrow> Some (c, v)) cs =
      List.map_filter (\<lambda>c. case ?t c of Inl _ \<Rightarrow> None | Inr v \<Rightarrow> Some (c, v)) cs" for cs
    by (induction cs) (auto simp: List.map_filter_simps r split: sum.splits)
  have c: "children_at s (pre @ q) = children_at (subtree s pre) q" by (simp add: subtree_def)
  show "reader (table n d) \<lparr>at_source = s, at_path = pre @ p\<rparr> =
      map_sum (with_prefix pre) id (reader (table n d) \<lparr>at_source = subtree s pre, at_path = p\<rparr>)"
  proof (cases "children_at (subtree s pre) q")
    case (Inl e)
    then show ?thesis by (simp add: table_def q Let_def c)
  next
    case (Inr cs)
    then show ?thesis
      using f [of NoError cs] by (simp add: table_def q Let_def c table_loop m settle_def)
  qed
qed

text \<open>
  Every description reads the same wherever it is mounted: read at a path inside a source it
  gives what it gives at the root of that source's subtree, with each failure's path prefixed. It
  holds of every primitive, and every combinator keeps it.
\<close>

theorem descriptions_relocate:
  assumes "relocatable d" "relocatable e" "honest d" "honest e" "\<forall>x\<in>set ds. relocatable x"
  shows "relocatable (of_config n t parse) \<and> relocatable (map_config d f) \<and> relocatable (map_or_fail d g)
    \<and> relocatable (nested n d) \<and> relocatable (with_default shown d v) \<and> relocatable (or_else d e)
    \<and> relocatable (optional_config d present absent) \<and> relocatable (zip_with d e combine)
    \<and> relocatable (all_config ds) \<and> relocatable (table n d) \<and> relocatable (many n sep d)
    \<and> (pre \<noteq> [] \<longrightarrow> read_config (beneath (Some s) pre) d = Inr r \<longrightarrow>
        reader d \<lparr>at_source = s, at_path = pre\<rparr> = Inr r)"
  using assms relocatableD [OF assms(1), of s pre "[]"]
  by (auto simp: relocatable_of relocatable_map relocatable_map_or_fail relocatable_nested
      relocatable_with_default relocatable_or_else relocatable_optional relocatable_zip relocatable_all
      relocatable_table relocatable_many read_config_def beneath_def)

theorem descriptions_relocate_witness:
  "reader (text_config ''host'') \<lparr>at_source = from_map [''db.host'' \<mapsto> ''h''], at_path = [''db'']\<rparr> = Inr ''h''"
proof -
  have r: "relocatable (text_config ''host'')" "relocatable (non_empty_text ''name'')"
    and h: "honest (text_config ''host'')" "honest (non_empty_text ''name'')"
    and none: "\<forall>x\<in>set ([] :: string config list). relocatable x"
    by (simp_all add: primitive_defs relocatable_of honest_of)
  have there: "read_config (beneath (Some (from_map [''db.host'' \<mapsto> ''h''])) [''db'']) (text_config ''host'') = Inr ''h''"
    by (simp add: read_config_def beneath_def text_config_def of_config_def Let_def value_here_def under_def
        subtree_def from_map_def render_path_def)
  have "[''db''] \<noteq> [] \<longrightarrow>
      read_config (beneath (Some (from_map [''db.host'' \<mapsto> ''h''])) [''db'']) (text_config ''host'') = Inr ''h'' \<longrightarrow>
      reader (text_config ''host'') \<lparr>at_source = from_map [''db.host'' \<mapsto> ''h''], at_path = [''db'']\<rparr> = Inr ''h''"
    using descriptions_relocate [OF r h none] by blast
  with there show ?thesis by simp
qed

end
