(* ===== verification/Runtime_State.thy ===== *)
theory Runtime_State
  imports Outcome Config_Source "HOL-Library.Word"
begin

section \<open>Runtime state and observation\<close>

text \<open>
  Models \<^verbatim>\<open>effect/internal/runtime/state.go\<close> and \<^verbatim>\<open>events.go\<close>: the services and metadata
  that travel with an interpretation, the states derived from one, the identities shared by every
  state of a runtime, and the delivery of events to an observer whose panics are contained.

  The observer, the diagnostics sink and the clock are services the runtime is given. Each is a
  function on the world \<open>'w\<close> it acts on; a call that panics answers the panic value's text, one
  that returns answers \<open>None\<close>. A wait of the clock answers the error it reports, or \<open>None\<close> when
  it never returns. A pointer to a scope or a ledger is its address, a structured
  attribute its key and text, and the shared counters are threaded explicitly, at their width.
\<close>

named_theorems state_defs \<open>definitions of derived states and events\<close>

datatype event_kind =
    FiberStarted | FiberCompleted | ScopeOpened | ScopeIsClosing | ScopeHasClosed
  | ResourceAcquired | ResourceReleased | RuntimeClosing | RuntimeClosed | SpanStarted | SpanEnded
  | RetryScheduled | RetryExhausted | RetrySucceeded | RepeatScheduled | RepeatCompleted | LogEmitted

fun event_kind_string :: "event_kind \<Rightarrow> string" where
  "event_kind_string FiberStarted = ''fiber_started''"
| "event_kind_string FiberCompleted = ''fiber_completed''"
| "event_kind_string ScopeOpened = ''scope_opened''"
| "event_kind_string ScopeIsClosing = ''scope_closing''"
| "event_kind_string ScopeHasClosed = ''scope_closed''"
| "event_kind_string ResourceAcquired = ''resource_acquired''"
| "event_kind_string ResourceReleased = ''resource_released''"
| "event_kind_string RuntimeClosing = ''runtime_closing''"
| "event_kind_string RuntimeClosed = ''runtime_closed''"
| "event_kind_string SpanStarted = ''span_started''"
| "event_kind_string SpanEnded = ''span_ended''"
| "event_kind_string RetryScheduled = ''retry_scheduled''"
| "event_kind_string RetryExhausted = ''retry_exhausted''"
| "event_kind_string RetrySucceeded = ''retry_succeeded''"
| "event_kind_string RepeatScheduled = ''repeat_scheduled''"
| "event_kind_string RepeatCompleted = ''repeat_completed''"
| "event_kind_string LogEmitted = ''log_emitted''"

type_synonym attr = "string \<times> string"

record runtime_event =
  ev_kind :: event_kind
  ev_timestamp :: int
  ev_duration :: int
  ev_operation :: string
  ev_source :: string
  ev_fiber :: "64 word"
  ev_parent_fiber :: "64 word"
  ev_span :: "64 word"
  ev_parent :: "64 word"
  ev_attempt :: nat
  ev_delay :: int
  ev_status :: event_status
  ev_attributes :: "attr list"

datatype fault_component = FaultLogger | FaultObserver | FaultRuntime

record runtime_fault =
  component :: fault_component
  fault_operation :: string
  fault_err :: string

record ('c, 'w) capabilities =
  clock_now :: "'w \<Rightarrow> int \<times> 'w"
  clock_sleep :: "'c \<Rightarrow> int \<Rightarrow> 'w \<Rightarrow> (nilable_err \<times> 'w) option"
  observer :: "('c \<Rightarrow> runtime_event \<Rightarrow> 'w \<Rightarrow> string option \<times> 'w) option"
  diagnostics :: "('c \<Rightarrow> runtime_fault \<Rightarrow> 'w \<Rightarrow> string option \<times> 'w) option"
  config_source :: "source option"

record metadata =
  operation_name :: string
  source_site :: string
  fiber_id :: "64 word"
  parent_fiber :: "64 word"
  span_id :: "64 word"
  parent_id :: "64 word"
  attributes :: "attr list"

record identifiers =
  next_span :: "64 word"
  next_fiber :: "64 word"

record ('c, 'w) state =
  services :: "('c, 'w) capabilities"
  meta :: metadata
  scope_at :: nat
  root_at :: nat
  ledger_at :: "nat option"

definition no_metadata :: metadata where
  "no_metadata = \<lparr>operation_name = [], source_site = [], fiber_id = 0, parent_fiber = 0, span_id = 0, parent_id = 0,
     attributes = []\<rparr>"

definition new_state :: "('c, 'w) capabilities \<Rightarrow> nat \<Rightarrow> nat option \<Rightarrow> ('c, 'w) state \<times> identifiers" where
  "new_state caps root l =
     (\<lparr>services = caps, meta = no_metadata, scope_at = root, root_at = root, ledger_at = l\<rparr>,
      \<lparr>next_span = 0, next_fiber = 0\<rparr>)"

definition with_scope :: "nat \<Rightarrow> ('c, 'w) state \<Rightarrow> ('c, 'w) state" where
  [state_defs]: "with_scope s st = st\<lparr>scope_at := s\<rparr>"

definition with_config_source :: "source option \<Rightarrow> ('c, 'w) state \<Rightarrow> ('c, 'w) state" where
  [state_defs]: "with_config_source src st = st\<lparr>services := (services st)\<lparr>config_source := src\<rparr>\<rparr>"

definition with_name :: "string \<Rightarrow> ('c, 'w) state \<Rightarrow> ('c, 'w) state" where
  [state_defs]: "with_name name st = st\<lparr>meta := (meta st)\<lparr>operation_name := name\<rparr>\<rparr>"

definition with_attributes :: "attr list \<Rightarrow> ('c, 'w) state \<Rightarrow> ('c, 'w) state" where
  [state_defs]: "with_attributes as st = st\<lparr>meta := (meta st)\<lparr>attributes := attributes (meta st) @ as\<rparr>\<rparr>"

record span_boundary =
  boundary_name :: string
  boundary_source :: string
  boundary_attributes :: "attr list"

definition with_span :: "span_boundary \<Rightarrow> ('c, 'w) state \<Rightarrow> identifiers \<Rightarrow> ('c, 'w) state \<times> identifiers" where
  [state_defs]: "with_span b st ids =
     (let fresh = next_span ids + 1 in
      (st\<lparr>meta := (meta st)\<lparr>parent_id := span_id (meta st), span_id := fresh,
          operation_name := boundary_name b, source_site := boundary_source b,
          attributes := attributes (meta st) @ boundary_attributes b\<rparr>\<rparr>,
       ids\<lparr>next_span := fresh\<rparr>))"

definition next_fiber_id :: "identifiers \<Rightarrow> 64 word \<times> identifiers" where
  [state_defs]: "next_fiber_id ids = (let fresh = next_fiber ids + 1 in (fresh, ids\<lparr>next_fiber := fresh\<rparr>))"

definition for_child :: "nat \<Rightarrow> 64 word \<Rightarrow> ('c, 'w) state \<Rightarrow> ('c, 'w) state" where
  [state_defs]: "for_child s fid st =
     st\<lparr>scope_at := s, meta := (meta st)\<lparr>parent_fiber := fiber_id (meta st), fiber_id := fid\<rparr>\<rparr>"

subsection \<open>Events\<close>

definition has_observer :: "('c, 'w) state \<Rightarrow> bool" where
  "has_observer st \<longleftrightarrow> observer (services st) \<noteq> None"

definition event :: "event_kind \<Rightarrow> ('c, 'w) state \<Rightarrow> 'w \<Rightarrow> runtime_event \<times> 'w" where
  "event k st w =
     (case clock_now (services st) w of
        (now, w') \<Rightarrow>
          (\<lparr>ev_kind = k, ev_timestamp = now, ev_duration = 0, ev_operation = operation_name (meta st),
            ev_source = source_site (meta st), ev_fiber = fiber_id (meta st),
            ev_parent_fiber = parent_fiber (meta st), ev_span = span_id (meta st),
            ev_parent = parent_id (meta st), ev_attempt = 0, ev_delay = 0, ev_status = StatusNone,
            ev_attributes = attributes (meta st)\<rparr>, w'))"

definition report :: "'c \<Rightarrow> runtime_fault \<Rightarrow> ('c, 'w) state \<Rightarrow> 'w \<Rightarrow> 'w" where
  "report ctx f st w = (case diagnostics (services st) of None \<Rightarrow> w | Some d \<Rightarrow> snd (d ctx f w))"

definition emit :: "'c \<Rightarrow> runtime_event \<Rightarrow> ('c, 'w) state \<Rightarrow> 'w \<Rightarrow> 'w" where
  "emit ctx ev st w =
     (case observer (services st) of
        None \<Rightarrow> w
      | Some observe \<Rightarrow>
          (case observe ctx ev w of
             (None, w') \<Rightarrow> w'
           | (Some panic, w') \<Rightarrow>
               report ctx \<lparr>component = FaultObserver, fault_operation = event_kind_string (ev_kind ev),
                 fault_err = ''effect: observer panicked: '' @ panic\<rparr> st w'))"

definition emit_start :: "'c \<Rightarrow> event_kind \<Rightarrow> ('c, 'w) state \<Rightarrow> 'w \<Rightarrow> int \<times> 'w" where
  "emit_start ctx k st w =
     (if \<not> has_observer st then clock_now (services st) w
      else case event k st w of (ev, w') \<Rightarrow> (ev_timestamp ev, emit ctx ev st w'))"

definition non_negative :: "int \<Rightarrow> int" where
  "non_negative d = (if d < 0 then 0 else d)"

definition emit_end :: "'c \<Rightarrow> event_kind \<Rightarrow> int \<Rightarrow> event_status \<Rightarrow> ('c, 'w) state \<Rightarrow> 'w \<Rightarrow> 'w" where
  "emit_end ctx k start status st w =
     (if \<not> has_observer st then w
      else case event k st w of
        (ev, w') \<Rightarrow> emit ctx (ev\<lparr>ev_duration := non_negative (time_sub (ev_timestamp ev) start),
          ev_status := status\<rparr>) st w')"

definition emit_mark :: "'c \<Rightarrow> event_kind \<Rightarrow> ('c, 'w) state \<Rightarrow> 'w \<Rightarrow> 'w" where
  "emit_mark ctx k st w =
     (if \<not> has_observer st then w
      else case event k st w of (ev, w') \<Rightarrow> emit ctx ev st w')"

text \<open>Without an observer no event is built, and nothing is read or written.\<close>

lemma no_observer_no_event:
  "\<not> has_observer st \<Longrightarrow> emit ctx ev st w = w \<and> emit_mark ctx k st w = w \<and> emit_end ctx k start status st w = w"
  by (simp add: has_observer_def emit_def emit_mark_def emit_end_def)

text \<open>The duration of a closing boundary is a valid one, whatever the clock does.\<close>

lemma closing_duration: "0 \<le> non_negative (time_sub t start)" "non_negative (time_sub t start) \<le> max_duration"
  using time_sub_in_int64 [of t start] by (auto simp: non_negative_def in_int64_def)

subsection \<open>Identities\<close>

text \<open>Opening spans one after another from the states and counters left by the one before.\<close>

fun open_spans :: "span_boundary list \<Rightarrow> ('c, 'w) state \<Rightarrow> identifiers \<Rightarrow> ('c, 'w) state list \<times> identifiers" where
  "open_spans [] st ids = ([], ids)"
| "open_spans (b # bs) st ids =
     (case with_span b st ids of
        (st1, ids1) \<Rightarrow> (case open_spans bs st1 ids1 of (sts, ids2) \<Rightarrow> (st1 # sts, ids2)))"

lemma open_spans_length [simp]: "length (fst (open_spans bs st ids)) = length bs"
proof (induction bs arbitrary: st ids)
  case (Cons b bs)
  then show ?case
    by (cases "with_span b st ids"; cases "open_spans bs (fst (with_span b st ids)) (snd (with_span b st ids))")
       (simp, metis fst_conv)
qed simp

lemma open_spans_ids:
  "i < length bs \<Longrightarrow>
   span_id (meta (fst (open_spans bs st ids) ! i)) = next_span ids + of_nat (Suc i)"
proof (induction bs arbitrary: st ids i)
  case (Cons b bs)
  obtain st1 ids1 where s: "with_span b st ids = (st1, ids1)" by (cases "with_span b st ids")
  then have n: "next_span ids1 = next_span ids + 1" "span_id (meta st1) = next_span ids + 1"
    by (auto simp: with_span_def Let_def)
  show ?case
  proof (cases i)
    case 0
    with s n show ?thesis by (simp split: prod.splits)
  next
    case (Suc j)
    with Cons.prems have "j < length bs" by simp
    from Cons.IH [OF this, of st1 ids1] s n Suc show ?thesis by (auto split: prod.splits simp: add.assoc)
  qed
qed simp

definition derived_span :: "('c, 'w) state \<Rightarrow> span_boundary \<Rightarrow> ('c, 'w) state \<Rightarrow> bool" where
  "derived_span st b st' \<longleftrightarrow> parent_id (meta st') = span_id (meta st) \<and> operation_name (meta st') = boundary_name b
     \<and> source_site (meta st') = boundary_source b
     \<and> attributes (meta st') = attributes (meta st) @ boundary_attributes b
     \<and> services st' = services st \<and> scope_at st' = scope_at st \<and> fiber_id (meta st') = fiber_id (meta st)"

lemma with_span_derives: "with_span b st ids = (st', ids') \<Longrightarrow> derived_span st b st'"
  by (auto simp: with_span_def Let_def derived_span_def)

lemma open_spans_derive:
  "i < length bs \<Longrightarrow> derived_span ((st # fst (open_spans bs st ids)) ! i) (bs ! i) (fst (open_spans bs st ids) ! i)"
proof (induction bs arbitrary: st ids i)
  case (Cons b bs)
  obtain st1 ids1 where s: "with_span b st ids = (st1, ids1)" by (cases "with_span b st ids")
  then have e: "fst (open_spans (b # bs) st ids) = st1 # fst (open_spans bs st1 ids1)"
    by (simp split: prod.splits)
  show ?case
    unfolding e using Cons.prems Cons.IH [of "i - 1" st1 ids1] with_span_derives [OF s] by (cases i) simp_all
qed simp

lemma open_spans_inherit:
  "i < length bs \<Longrightarrow>
   attributes (meta (fst (open_spans bs st ids) ! i)) =
     attributes (meta st) @ concat (map boundary_attributes (take (Suc i) bs))
   \<and> services (fst (open_spans bs st ids) ! i) = services st
   \<and> scope_at (fst (open_spans bs st ids) ! i) = scope_at st
   \<and> fiber_id (meta (fst (open_spans bs st ids) ! i)) = fiber_id (meta st)"
proof (induction i)
  case 0
  then show ?case
    using open_spans_derive [of 0 bs st ids] by (simp add: derived_span_def take_Suc_conv_app_nth)
next
  case (Suc i)
  then show ?case
    using open_spans_derive [of "Suc i" bs st ids] by (simp add: derived_span_def take_Suc_conv_app_nth)
qed

text \<open>
  Spans opened one inside the other carry identities that are distinct for as long as fewer
  than \<open>2 ^ 64\<close> of them were opened by the runtime, name the enclosing span as their parent,
  inherit its attributes before their own, and leave the services, the scope and the fiber's
  identity as they were.
\<close>

theorem spans_nest_with_fresh_identities:
  assumes "open_spans bs st ids = (sts, ids')" "length bs < 2 ^ 64"
  shows "distinct (map (\<lambda>s. span_id (meta s)) sts)
    \<and> (\<forall>i < length bs.
        parent_id (meta (sts ! i)) = span_id (meta ((st # sts) ! i))
        \<and> operation_name (meta (sts ! i)) = boundary_name (bs ! i)
        \<and> attributes (meta (sts ! i)) =
            attributes (meta st) @ concat (map boundary_attributes (take (Suc i) bs))
        \<and> services (sts ! i) = services st \<and> scope_at (sts ! i) = scope_at st
        \<and> fiber_id (meta (sts ! i)) = fiber_id (meta st))"
proof (intro conjI)
  have sts: "sts = fst (open_spans bs st ids)" using assms(1) by simp
  then have len: "length sts = length bs" by simp
  have inj: "i = j" if "i < length bs" "j < length bs" "span_id (meta (sts ! i)) = span_id (meta (sts ! j))" for i j
  proof -
    from that open_spans_ids [of i bs st ids] open_spans_ids [of j bs st ids]
    have "(of_nat (Suc i) :: 64 word) = of_nat (Suc j)" by (simp add: sts)
    then have "unat (of_nat i :: 64 word) = unat (of_nat j :: 64 word)" by simp
    with that assms(2) show "i = j" by (simp add: unat_of_nat)
  qed
  then show "distinct (map (\<lambda>s. span_id (meta s)) sts)"
    by (auto simp: distinct_conv_nth len)
  show "\<forall>i < length bs. parent_id (meta (sts ! i)) = span_id (meta ((st # sts) ! i))
        \<and> operation_name (meta (sts ! i)) = boundary_name (bs ! i)
        \<and> attributes (meta (sts ! i)) = attributes (meta st) @ concat (map boundary_attributes (take (Suc i) bs))
        \<and> services (sts ! i) = services st \<and> scope_at (sts ! i) = scope_at st
        \<and> fiber_id (meta (sts ! i)) = fiber_id (meta st)"
    using open_spans_derive open_spans_inherit unfolding sts derived_span_def by blast
qed

text \<open>Two spans opened from a fresh state.\<close>

definition silent :: "(unit, unit) capabilities" where
  "silent = \<lparr>clock_now = (\<lambda>w. (0, w)), clock_sleep = (\<lambda>_ _ w. Some (None, w)), observer = None, diagnostics = None, config_source = None\<rparr>"

definition two_spans :: "span_boundary list" where
  "two_spans = [\<lparr>boundary_name = ''outer'', boundary_source = [], boundary_attributes = [(''k'', ''1'')]\<rparr>,
     \<lparr>boundary_name = ''inner'', boundary_source = [], boundary_attributes = [(''k'', ''2'')]\<rparr>]"

theorem spans_nest_with_fresh_identities_witness:
  "attributes (meta (fst (open_spans two_spans (fst (new_state silent 0 None)) (snd (new_state silent 0 None))) ! 1)) =
     [(''k'', ''1''), (''k'', ''2'')]"
  using spans_nest_with_fresh_identities
    [of two_spans "fst (new_state silent 0 None)" "snd (new_state silent 0 None)", OF prod.collapse [symmetric]]
  by (auto simp: two_spans_def new_state_def no_metadata_def)

end
