(* ===== verification/Interpreter.thy ===== *)
theory Interpreter
  imports Runtime_State
begin

section \<open>The interpreter\<close>

text \<open>
  Models \<^verbatim>\<open>effect/internal/runtime/node.go\<close>, \<^verbatim>\<open>interpret.go\<close> and \<^verbatim>\<open>interpret_guard.go\<close>:
  the instructions of an erased program, the machine that evaluates them with continuation frames
  on the heap, and the guard around every call back into user code.

  Erased values, environments and panic values are all \<open>'v\<close> (Go's \<open>any\<close>); \<open>'c\<close> is the type
  of contexts and \<open>'w\<close> the world that callbacks act on. A callback answers \<open>Inl p\<close> when it
  panics with \<open>p\<close> and \<open>Inr\<close> otherwise. Programs are a codatatype: a continuation may answer the
  program it belongs to, so a program need not be well-founded, and the machine's loops are
  \<open>partial_function\<close>s whose value \<open>None\<close> means that they never return.
\<close>

subsection \<open>Instructions\<close>

record ('v, 'c, 'w) interp =
  context_of :: 'c
  state_of :: "('c, 'w) state"
  environment :: 'v

type_synonym ('v, 'w, 'a) callback = "'w \<Rightarrow> (('v + 'a) \<times> 'w) option"

codatatype ('v, 'c, 'w) node =
    Succeed 'v
  | FailNode "'v cause"
  | Eval "('v, 'c, 'w) interp \<Rightarrow> ('v, 'w, 'v exit) callback"
  | Suspend "('v, 'c, 'w) interp \<Rightarrow> 'w \<Rightarrow> (('v + ('v, 'c, 'w) node) \<times> 'w) option"
  | Transform "('v, 'c, 'w) node" "'v \<Rightarrow> ('v, 'w, 'v) callback"
  | Bind "('v, 'c, 'w) node" "'v \<Rightarrow> 'w \<Rightarrow> (('v + ('v, 'c, 'w) node) \<times> 'w) option"
  | TransformCause "('v, 'c, 'w) node" "'v cause \<Rightarrow> ('v, 'w, 'v cause) callback"
  | Recover "('v, 'c, 'w) node" "'v cause \<Rightarrow> 'w \<Rightarrow> (('v + ('v, 'c, 'w) node) \<times> 'w) option"
  | WithEnvironment "('v, 'c, 'w) node" "'v \<Rightarrow> ('v, 'w, 'v) callback"
  | WithState "('v, 'c, 'w) node" "('c, 'w) state \<Rightarrow> ('v, 'w, ('c, 'w) state) callback"
  | WithContext "('v, 'c, 'w) node" "'c \<Rightarrow> ('v, 'w, 'c) callback"
  | OnExit "('v, 'c, 'w) node" "('v, 'c, 'w) interp \<Rightarrow> 'v exit \<Rightarrow> ('v, 'w, 'v exit) callback"
  | OtherNode string

subsection \<open>What the Go runtime answers\<close>

text \<open>
  The context library's \<open>ctx.Err()\<close> and \<open>context.Cause(ctx)\<close>, read together: a cancellation may
  arrive between any two reads, so the answer depends on the world and reading it may move the
  world on. \<open>stack_trace\<close> is the text of the stack where a panic was recovered, and
  \<open>error_value\<close> and \<open>string_value\<close> the erased forms of an error made with \<open>fmt.Errorf\<close> and of a
  string. \<open>without_cancel\<close> is the
  library's \<open>context.WithoutCancel\<close>.
\<close>

record ('v, 'c, 'w) host =
  ctx_err :: "'c \<Rightarrow> 'w \<Rightarrow> (nilable_err \<times> nilable_err) \<times> 'w"
  stack_trace :: "'w \<Rightarrow> string"
  error_value :: "string \<Rightarrow> 'v"
  string_value :: "string \<Rightarrow> 'v"
  without_cancel :: "'c \<Rightarrow> 'c"

definition cancellation_reason :: "nilable_err \<Rightarrow> nilable_err \<Rightarrow> nilable_err" where
  "cancellation_reason err reason = (case reason of Some r \<Rightarrow> Some r | None \<Rightarrow> err)"

definition interruption_reason :: "('v, 'c, 'w) host \<Rightarrow> 'c \<Rightarrow> 'w \<Rightarrow> nilable_err \<times> 'w" where
  "interruption_reason h ctx w =
     (case ctx_err h ctx w of
        ((None, _), w') \<Rightarrow> (None, w')
      | ((Some e, reason), w') \<Rightarrow> (cancellation_reason (Some e) reason, w'))"

definition machine_interrupt :: "('v, 'c, 'w) host \<Rightarrow> 'c \<Rightarrow> 'w \<Rightarrow> 'v cause option \<times> 'w" where
  "machine_interrupt h ctx w =
     (case ctx_err h ctx w of
        ((None, _), w') \<Rightarrow> (None, w')
      | ((Some e, reason), w') \<Rightarrow> (Some (interrupt_cause (cancellation_reason (Some e) reason)), w'))"

subsection \<open>Guards\<close>

definition capture :: "('v, 'c, 'w) host \<Rightarrow> (('v + 'a) \<times> 'w) option \<Rightarrow> (('v defect + 'a) \<times> 'w) option" where
  "capture h r =
     (case r of
        None \<Rightarrow> None
      | Some (Inl p, w) \<Rightarrow> Some (Inl (capture_defect p (stack_trace h w)), w)
      | Some (Inr a, w) \<Rightarrow> Some (Inr a, w))"

definition capture_exit :: "('v, 'c, 'w) host \<Rightarrow> (('v + 'v exit) \<times> 'w) option \<Rightarrow> ('v exit \<times> 'w) option" where
  "capture_exit h r =
     (case capture h r of
        None \<Rightarrow> None
      | Some (Inl d, w) \<Rightarrow> Some (Failed (die_cause d), w)
      | Some (Inr x, w) \<Rightarrow> Some (x, w))"

definition transform_exit ::
  "('v, 'c, 'w) host \<Rightarrow> ('v \<Rightarrow> ('v, 'w, 'v) callback) \<Rightarrow> 'v \<Rightarrow> 'w \<Rightarrow> ('v exit \<times> 'w) option" where
  "transform_exit h apply_to v w = capture_exit h (map_option (map_prod (map_sum id Succeeded) id) (apply_to v w))"

definition transform_cause ::
  "('v, 'c, 'w) host \<Rightarrow> ('v cause \<Rightarrow> ('v, 'w, 'v cause) callback) \<Rightarrow> 'v cause \<Rightarrow> 'w
     \<Rightarrow> ('v exit \<times> 'w) option" where
  "transform_cause h apply_to c w = capture_exit h (map_option (map_prod (map_sum id Failed) id) (apply_to c w))"

definition eval_leaf ::
  "('v, 'c, 'w) host \<Rightarrow> (('v, 'c, 'w) interp \<Rightarrow> ('v, 'w, 'v exit) callback)
     \<Rightarrow> ('v, 'c, 'w) interp \<Rightarrow> 'w \<Rightarrow> ('v exit \<times> 'w) option" where
  "eval_leaf h run_it I w = capture_exit h (run_it I w)"

definition observe_exit ::
  "('v, 'c, 'w) host \<Rightarrow> (('v, 'c, 'w) interp \<Rightarrow> 'v exit \<Rightarrow> ('v, 'w, 'v exit) callback)
     \<Rightarrow> ('v, 'c, 'w) interp \<Rightarrow> 'v exit \<Rightarrow> 'w \<Rightarrow> ('v exit \<times> 'w) option" where
  "observe_exit h observe I x w =
     (case capture h (observe I x w) of
        None \<Rightarrow> None
      | Some (Inr result, w') \<Rightarrow> Some (result, w')
      | Some (Inl d, w') \<Rightarrow> Some (Failed (then_cause (exit_cause x) (die_cause d)), w'))"

subsection \<open>The machine\<close>

datatype ('v, 'c, 'w) frame =
    TransformFrame "'v \<Rightarrow> ('v, 'w, 'v) callback"
  | BindFrame "'v \<Rightarrow> 'w \<Rightarrow> (('v + ('v, 'c, 'w) node) \<times> 'w) option"
  | TransformCauseFrame "'v cause \<Rightarrow> ('v, 'w, 'v cause) callback"
  | RecoverFrame "'v cause \<Rightarrow> 'w \<Rightarrow> (('v + ('v, 'c, 'w) node) \<times> 'w) option"
  | EnvironmentFrame 'v
  | StateFrame "('c, 'w) state"
  | ContextFrame 'c
  | ExitHookFrame "('v, 'c, 'w) interp \<Rightarrow> 'v exit \<Rightarrow> ('v, 'w, 'v exit) callback"

record ('v, 'c, 'w) interpreter =
  ambient :: "('v, 'c, 'w) interp"
  frames :: "('v, 'c, 'w) frame list"

definition push :: "('v, 'c, 'w) frame \<Rightarrow> ('v, 'c, 'w) interpreter \<Rightarrow> ('v, 'c, 'w) interpreter" where
  "push f m = m\<lparr>frames := f # frames m\<rparr>"

text \<open>Everything that is not a composition settles, after the interruption checkpoint.\<close>

definition settle ::
  "('v, 'c, 'w) host \<Rightarrow> ('v, 'c, 'w) interp \<Rightarrow> ('v, 'c, 'w) node \<Rightarrow> 'w
     \<Rightarrow> ('v exit \<times> 'w) option" where
  "settle h I n w =
     (case machine_interrupt h (context_of I) w of
        (Some c, w') \<Rightarrow> Some (Failed c, w')
      | (None, w') \<Rightarrow>
          (case n of
             Succeed v \<Rightarrow> Some (Succeeded v, w')
           | FailNode c \<Rightarrow>
               Some (Failed (with_origin c \<lparr>source = [], operation = operation_name (meta (state_of I))\<rparr>), w')
           | Eval run_it \<Rightarrow> eval_leaf h run_it I w'
           | OtherNode name \<Rightarrow>
               Some (Failed (die_cause \<lparr>defect_value = error_value h (''effect: unsupported instruction '' @ name),
                  defect_stack = []\<rparr>), w')
           | _ \<Rightarrow> Some (Failed (die_cause \<lparr>defect_value = error_value h ''effect: unsupported instruction'',
                  defect_stack = []\<rparr>), w')))"

partial_function (option) evaluate ::
  "('v, 'c, 'w) host \<Rightarrow> ('v, 'c, 'w) interpreter \<Rightarrow> ('v, 'c, 'w) node \<Rightarrow> 'w
     \<Rightarrow> ('v exit \<times> ('v, 'c, 'w) interpreter \<times> 'w) option" where
  "evaluate h m n w =
     (case n of
        Transform s f \<Rightarrow> evaluate h (push (TransformFrame f) m) s w
      | Bind s k \<Rightarrow> evaluate h (push (BindFrame k) m) s w
      | TransformCause s f \<Rightarrow> evaluate h (push (TransformCauseFrame f) m) s w
      | Recover s k \<Rightarrow> evaluate h (push (RecoverFrame k) m) s w
      | OnExit s f \<Rightarrow> evaluate h (push (ExitHookFrame f) m) s w
      | WithEnvironment s f \<Rightarrow>
          (case capture h (f (environment (ambient m)) w) of
             None \<Rightarrow> None
             | Some (Inl d, w') \<Rightarrow>
               Some (Failed (die_cause d), push (EnvironmentFrame (environment (ambient m))) m, w')
           | Some (Inr e, w') \<Rightarrow>
               evaluate h ((push (EnvironmentFrame (environment (ambient m))) m)
                 \<lparr>ambient := (ambient m)\<lparr>environment := e\<rparr>\<rparr>) s w')
      | WithContext s f \<Rightarrow>
          (case capture h (f (context_of (ambient m)) w) of
             None \<Rightarrow> None
             | Some (Inl d, w') \<Rightarrow>
               Some (Failed (die_cause d), push (ContextFrame (context_of (ambient m))) m, w')
           | Some (Inr c, w') \<Rightarrow>
               evaluate h ((push (ContextFrame (context_of (ambient m))) m)
                 \<lparr>ambient := (ambient m)\<lparr>context_of := c\<rparr>\<rparr>) s w')
      | WithState s f \<Rightarrow>
          (case capture h (f (state_of (ambient m)) w) of
             None \<Rightarrow> None
             | Some (Inl d, w') \<Rightarrow>
               Some (Failed (die_cause d), push (StateFrame (state_of (ambient m))) m, w')
           | Some (Inr st, w') \<Rightarrow>
               evaluate h ((push (StateFrame (state_of (ambient m))) m)
                 \<lparr>ambient := (ambient m)\<lparr>state_of := st\<rparr>\<rparr>) s w')
      | Suspend create \<Rightarrow>
          (case capture h (create (ambient m) w) of
             None \<Rightarrow> None
             | Some (Inl d, w') \<Rightarrow> Some (Failed (die_cause d), m, w')
           | Some (Inr n', w') \<Rightarrow> evaluate h m n' w')
      | leaf \<Rightarrow> (case settle h (ambient m) leaf w of None \<Rightarrow> None | Some (x, w') \<Rightarrow> Some (x, m, w')))"

text \<open>
  Pending continuations are applied to an exit until one produces another instruction. The answer
  is that instruction with the machine to run it on, or the final exit.
\<close>

fun resume_frames ::
  "('v, 'c, 'w) host \<Rightarrow> ('v, 'c, 'w) interp \<Rightarrow> ('v, 'c, 'w) frame list \<Rightarrow> 'v exit \<Rightarrow> 'w
     \<Rightarrow> ((('v, 'c, 'w) node + 'v exit) \<times> ('v, 'c, 'w) interpreter \<times> 'w) option" where
  "resume_frames h I [] x w = Some (Inr x, \<lparr>ambient = I, frames = []\<rparr>, w)"
| "resume_frames h I (EnvironmentFrame e # fs) x w = resume_frames h (I\<lparr>environment := e\<rparr>) fs x w"
| "resume_frames h I (StateFrame st # fs) x w = resume_frames h (I\<lparr>state_of := st\<rparr>) fs x w"
| "resume_frames h I (ContextFrame c # fs) x w = resume_frames h (I\<lparr>context_of := c\<rparr>) fs x w"
| "resume_frames h I (TransformFrame f # fs) x w =
     (case x of
        Succeeded v \<Rightarrow> (case transform_exit h f v w of None \<Rightarrow> None | Some (x', w') \<Rightarrow> resume_frames h I fs x' w')
      | Failed _ \<Rightarrow> resume_frames h I fs x w)"
| "resume_frames h I (TransformCauseFrame f # fs) x w =
     (case x of
        Failed c \<Rightarrow> (case transform_cause h f c w of None \<Rightarrow> None | Some (x', w') \<Rightarrow> resume_frames h I fs x' w')
      | Succeeded _ \<Rightarrow> resume_frames h I fs x w)"
| "resume_frames h I (ExitHookFrame f # fs) x w =
     (case observe_exit h f I x w of None \<Rightarrow> None | Some (x', w') \<Rightarrow> resume_frames h I fs x' w')"
| "resume_frames h I (BindFrame k # fs) x w =
     (case x of
        Failed _ \<Rightarrow> resume_frames h I fs x w
      | Succeeded v \<Rightarrow>
          (case capture h (k v w) of
             None \<Rightarrow> None
             | Some (Inl d, w') \<Rightarrow> resume_frames h I fs (Failed (die_cause d)) w'
           | Some (Inr n, w') \<Rightarrow> Some (Inl n, \<lparr>ambient = I, frames = fs\<rparr>, w')))"
| "resume_frames h I (RecoverFrame k # fs) x w =
     (case x of
        Succeeded _ \<Rightarrow> resume_frames h I fs x w
      | Failed c \<Rightarrow>
          (case capture h (k c w) of
             None \<Rightarrow> None
             | Some (Inl d, w') \<Rightarrow> resume_frames h I fs (Failed (then_cause c (die_cause d))) w'
           | Some (Inr n, w') \<Rightarrow> Some (Inl n, \<lparr>ambient = I, frames = fs\<rparr>, w')))"

definition resume ::
  "('v, 'c, 'w) host \<Rightarrow> ('v, 'c, 'w) interpreter \<Rightarrow> 'v exit \<Rightarrow> 'w
     \<Rightarrow> ((('v, 'c, 'w) node + 'v exit) \<times> ('v, 'c, 'w) interpreter \<times> 'w) option" where
  "resume h m x w = resume_frames h (ambient m) (frames m) x w"

partial_function (option) run ::
  "('v, 'c, 'w) host \<Rightarrow> ('v, 'c, 'w) interpreter \<Rightarrow> ('v, 'c, 'w) node \<Rightarrow> 'w
     \<Rightarrow> ('v exit \<times> ('v, 'c, 'w) interpreter \<times> 'w) option" where
  "run h m n w =
     (case evaluate h m n w of
        None \<Rightarrow> None
      | Some (x, m1, w1) \<Rightarrow>
          (case resume h m1 x w1 of
             None \<Rightarrow> None
           | Some (Inl n', m2, w2) \<Rightarrow> run h m2 n' w2
           | Some (Inr x', m2, w2) \<Rightarrow> Some (x', m2, w2)))"

definition interpret_node ::
  "('v, 'c, 'w) host \<Rightarrow> ('v, 'c, 'w) interp \<Rightarrow> ('v, 'c, 'w) node \<Rightarrow> 'w \<Rightarrow> ('v exit \<times> 'w) option" where
  "interpret_node h I n w =
     map_option (\<lambda>(x, m, w'). (x, w')) (run h \<lparr>ambient = I, frames = []\<rparr> n w)"

subsection \<open>What a program does\<close>

text \<open>
  The meaning of a program, instruction by instruction and without a machine: \<open>executes h I n w x w'\<close>
  when \<open>n\<close>, run with the ambient \<open>I\<close>, takes the world from \<open>w\<close> to \<open>w'\<close> and ends with \<open>x\<close>. The
  ambient of an instruction is an argument, so what a source was given cannot outlast it.
\<close>

fun composed :: "('v, 'c, 'w) node \<Rightarrow> bool" where
  "composed (Succeed _) = False"
| "composed (FailNode _) = False"
| "composed (Eval _) = False"
| "composed (OtherNode _) = False"
| "composed _ = True"

definition on_success ::
  "('v \<Rightarrow> 'w \<Rightarrow> ('v exit \<times> 'w) option) \<Rightarrow> 'v exit \<Rightarrow> 'w \<Rightarrow> ('v exit \<times> 'w) option" where
  "on_success f x w = (case x of Succeeded v \<Rightarrow> f v w | Failed _ \<Rightarrow> Some (x, w))"

definition on_failure ::
  "('v cause \<Rightarrow> 'w \<Rightarrow> ('v exit \<times> 'w) option) \<Rightarrow> 'v exit \<Rightarrow> 'w \<Rightarrow> ('v exit \<times> 'w) option" where
  "on_failure f x w = (case x of Failed c \<Rightarrow> f c w | Succeeded _ \<Rightarrow> Some (x, w))"

inductive executes ::
  "('v, 'c, 'w) host \<Rightarrow> ('v, 'c, 'w) interp \<Rightarrow> ('v, 'c, 'w) node \<Rightarrow> 'w \<Rightarrow> 'v exit \<Rightarrow> 'w \<Rightarrow> bool"
  for h :: "('v, 'c, 'w) host" where
  leaf: "\<not> composed n \<Longrightarrow> settle h I n w = Some (x, w') \<Longrightarrow> executes h I n w x w'"
| transform: "executes h I s w x w1 \<Longrightarrow> on_success (transform_exit h f) x w1 = Some (y, w2) \<Longrightarrow>
    executes h I (Transform s f) w y w2"
| transform_failure: "executes h I s w x w1 \<Longrightarrow> on_failure (transform_cause h f) x w1 = Some (y, w2) \<Longrightarrow>
    executes h I (TransformCause s f) w y w2"
| hook: "executes h I s w x w1 \<Longrightarrow> observe_exit h f I x w1 = Some (y, w2) \<Longrightarrow> executes h I (OnExit s f) w y w2"
| bind_failed: "executes h I s w (Failed c) w1 \<Longrightarrow> executes h I (Bind s k) w (Failed c) w1"
| bind_panicked: "executes h I s w (Succeeded v) w1 \<Longrightarrow> capture h (k v w1) = Some (Inl d, w2) \<Longrightarrow>
    executes h I (Bind s k) w (Failed (die_cause d)) w2"
| bind_continued: "executes h I s w (Succeeded v) w1 \<Longrightarrow> capture h (k v w1) = Some (Inr n, w2) \<Longrightarrow>
    executes h I n w2 x w3 \<Longrightarrow> executes h I (Bind s k) w x w3"
| recover_succeeded: "executes h I s w (Succeeded v) w1 \<Longrightarrow> executes h I (Recover s k) w (Succeeded v) w1"
| recover_panicked: "executes h I s w (Failed c) w1 \<Longrightarrow> capture h (k c w1) = Some (Inl d, w2) \<Longrightarrow>
    executes h I (Recover s k) w (Failed (then_cause c (die_cause d))) w2"
| recover_continued: "executes h I s w (Failed c) w1 \<Longrightarrow> capture h (k c w1) = Some (Inr n, w2) \<Longrightarrow>
    executes h I n w2 x w3 \<Longrightarrow> executes h I (Recover s k) w x w3"
| environment_panicked: "capture h (f (environment I) w) = Some (Inl d, w1) \<Longrightarrow>
    executes h I (WithEnvironment s f) w (Failed (die_cause d)) w1"
| environment_given: "capture h (f (environment I) w) = Some (Inr e, w1) \<Longrightarrow>
    executes h (I\<lparr>environment := e\<rparr>) s w1 x w2 \<Longrightarrow> executes h I (WithEnvironment s f) w x w2"
| context_panicked: "capture h (f (context_of I) w) = Some (Inl d, w1) \<Longrightarrow>
    executes h I (WithContext s f) w (Failed (die_cause d)) w1"
| context_given: "capture h (f (context_of I) w) = Some (Inr c, w1) \<Longrightarrow>
    executes h (I\<lparr>context_of := c\<rparr>) s w1 x w2 \<Longrightarrow> executes h I (WithContext s f) w x w2"
| state_panicked: "capture h (f (state_of I) w) = Some (Inl d, w1) \<Longrightarrow>
    executes h I (WithState s f) w (Failed (die_cause d)) w1"
| state_given: "capture h (f (state_of I) w) = Some (Inr st, w1) \<Longrightarrow>
    executes h (I\<lparr>state_of := st\<rparr>) s w1 x w2 \<Longrightarrow> executes h I (WithState s f) w x w2"
| suspend_panicked: "capture h (create I w) = Some (Inl d, w1) \<Longrightarrow>
    executes h I (Suspend create) w (Failed (die_cause d)) w1"
| suspend_created: "capture h (create I w) = Some (Inr n, w1) \<Longrightarrow> executes h I n w1 x w2 \<Longrightarrow>
    executes h I (Suspend create) w x w2"

inductive_simps executes_simps:
  "executes h I (Succeed v) w x w'"
  "executes h I (FailNode c) w x w'"
  "executes h I (Eval f) w x w'"
  "executes h I (OtherNode t) w x w'"
  "executes h I (Transform s f) w x w'"
  "executes h I (TransformCause s f) w x w'"
  "executes h I (OnExit s g) w x w'"
  "executes h I (Bind s k) w x w'"
  "executes h I (Recover s r) w x w'"
  "executes h I (WithEnvironment s e) w x w'"
  "executes h I (WithContext s i) w x w'"
  "executes h I (WithState s t) w x w'"
  "executes h I (Suspend create) w x w'"

subsection \<open>The machine does what the program does\<close>

text \<open>
  What is left to do after an exit: resume the frames, and run on when one of them continues.
\<close>

definition finish ::
  "('v, 'c, 'w) host \<Rightarrow> ('v, 'c, 'w) interp \<Rightarrow> ('v, 'c, 'w) frame list \<Rightarrow> 'v exit \<Rightarrow> 'w
     \<Rightarrow> ('v exit \<times> ('v, 'c, 'w) interpreter \<times> 'w) option" where
  "finish h I fs x w =
     (case resume_frames h I fs x w of
        None \<Rightarrow> None
      | Some (Inl n, m, w') \<Rightarrow> run h m n w'
      | Some (Inr y, m, w') \<Rightarrow> Some (y, m, w'))"

lemma run_finish:
  "run h m n w = (case evaluate h m n w of None \<Rightarrow> None | Some (x, m1, w1) \<Rightarrow> finish h (ambient m1) (frames m1) x w1)"
  by (subst run.simps) (simp add: finish_def resume_def split: option.split)

lemma machine_given: "m\<lparr>frames := fs, ambient := I\<rparr> = (\<lparr>ambient = I, frames = fs\<rparr> :: ('v, 'c, 'w) interpreter)"
  by (cases m) simp

lemma run_step:
  "run h m (Transform s f) w = run h (push (TransformFrame f) m) s w"
  "run h m (Bind s k) w = run h (push (BindFrame k) m) s w"
  "run h m (TransformCause s g) w = run h (push (TransformCauseFrame g) m) s w"
  "run h m (Recover s r) w = run h (push (RecoverFrame r) m) s w"
  "run h m (OnExit s ob) w = run h (push (ExitHookFrame ob) m) s w"
  by (simp_all add: run_finish evaluate.simps [of h m])

lemma run_leaf:
  "\<not> composed n \<Longrightarrow> run h m n w =
     (case settle h (ambient m) n w of None \<Rightarrow> None | Some (x, w') \<Rightarrow> finish h (ambient m) (frames m) x w')"
  by (cases n) (simp_all add: run_finish evaluate.simps [of h m] split: prod.split option.split)

lemma run_ambient:
  "run h m (Suspend create) w =
     (case capture h (create (ambient m) w) of
        None \<Rightarrow> None
        | Some (Inl d, w') \<Rightarrow> finish h (ambient m) (frames m) (Failed (die_cause d)) w'
      | Some (Inr n', w') \<Rightarrow> run h m n' w')"
  "run h m (WithEnvironment s f) w =
     (case capture h (f (environment (ambient m)) w) of
        None \<Rightarrow> None
        | Some (Inl d, w') \<Rightarrow> finish h (ambient m) (frames m) (Failed (die_cause d)) w'
      | Some (Inr e, w') \<Rightarrow> run h \<lparr>ambient = (ambient m)\<lparr>environment := e\<rparr>,
            frames = EnvironmentFrame (environment (ambient m)) # frames m\<rparr> s w')"
  "run h m (WithContext s g) w =
     (case capture h (g (context_of (ambient m)) w) of
        None \<Rightarrow> None
        | Some (Inl d, w') \<Rightarrow> finish h (ambient m) (frames m) (Failed (die_cause d)) w'
      | Some (Inr c, w') \<Rightarrow> run h \<lparr>ambient = (ambient m)\<lparr>context_of := c\<rparr>,
            frames = ContextFrame (context_of (ambient m)) # frames m\<rparr> s w')"
  "run h m (WithState s d) w =
     (case capture h (d (state_of (ambient m)) w) of
        None \<Rightarrow> None
        | Some (Inl d, w') \<Rightarrow> finish h (ambient m) (frames m) (Failed (die_cause d)) w'
      | Some (Inr st, w') \<Rightarrow> run h \<lparr>ambient = (ambient m)\<lparr>state_of := st\<rparr>,
            frames = StateFrame (state_of (ambient m)) # frames m\<rparr> s w')"
  by (simp_all add: run_finish evaluate.simps [of h m] finish_def push_def machine_given split: prod.split sum.split option.split)

lemmas run_simps = run_step run_leaf run_ambient

lemma executes_run:
  "executes h I n w x w' \<Longrightarrow> run h \<lparr>ambient = I, frames = fs\<rparr> n w = finish h I fs x w'"
proof (induction arbitrary: fs rule: executes.induct)
  case (transform I s w x w1 f y w2)
  then show ?case by (cases x) (auto simp: run_simps push_def finish_def on_success_def)
next
  case (transform_failure I s w x w1 f y w2)
  then show ?case by (cases x) (auto simp: run_simps push_def finish_def on_failure_def)
qed (simp_all add: run_simps push_def finish_def)

definition executes_bind ::
  "('v, 'c, 'w) host \<Rightarrow> ('v, 'c, 'w) interp \<Rightarrow> ('v \<Rightarrow> 'w \<Rightarrow> (('v + ('v, 'c, 'w) node) \<times> 'w) option)
     \<Rightarrow> 'v exit \<Rightarrow> 'w \<Rightarrow> 'v exit \<Rightarrow> 'w \<Rightarrow> bool" where
  "executes_bind h I k x w y w' \<longleftrightarrow>
     (case x of
        Failed _ \<Rightarrow> y = x \<and> w' = w
      | Succeeded v \<Rightarrow>
          (case capture h (k v w) of
             None \<Rightarrow> False
             | Some (Inl d, w1) \<Rightarrow> y = Failed (die_cause d) \<and> w' = w1
           | Some (Inr n, w1) \<Rightarrow> executes h I n w1 y w'))"

definition executes_recover ::
  "('v, 'c, 'w) host \<Rightarrow> ('v, 'c, 'w) interp \<Rightarrow> ('v cause \<Rightarrow> 'w \<Rightarrow> (('v + ('v, 'c, 'w) node) \<times> 'w) option)
     \<Rightarrow> 'v exit \<Rightarrow> 'w \<Rightarrow> 'v exit \<Rightarrow> 'w \<Rightarrow> bool" where
  "executes_recover h I k x w y w' \<longleftrightarrow>
     (case x of
        Succeeded _ \<Rightarrow> y = x \<and> w' = w
      | Failed c \<Rightarrow>
          (case capture h (k c w) of
             None \<Rightarrow> False
             | Some (Inl d, w1) \<Rightarrow> y = Failed (then_cause c (die_cause d)) \<and> w' = w1
           | Some (Inr n, w1) \<Rightarrow> executes h I n w1 y w'))"

lemma executes_Bind: "executes h I (Bind s k) w y w' \<longleftrightarrow>
    (\<exists>x w1. executes h I s w x w1 \<and> executes_bind h I k x w1 y w')" (is "?l \<longleftrightarrow> ?r")
proof
  assume ?l
  then show ?r by cases (fastforce simp: executes_bind_def)+
next
  assume ?r
  then obtain x w1 where e: "executes h I s w x w1" and k: "executes_bind h I k x w1 y w'" by blast
  show ?l
  proof (cases x)
    case (Failed c)
    with e k show ?thesis by (auto simp: executes_bind_def intro: bind_failed)
  next
    case (Succeeded v)
    with e k show ?thesis
      by (cases "capture h (k v w1)"; cases "fst (the (capture h (k v w1)))")
         (auto simp: executes_bind_def intro: bind_panicked bind_continued)
  qed
qed

lemma executes_Recover: "executes h I (Recover s k) w y w' \<longleftrightarrow>
    (\<exists>x w1. executes h I s w x w1 \<and> executes_recover h I k x w1 y w')" (is "?l \<longleftrightarrow> ?r")
proof
  assume ?l
  then show ?r by cases (fastforce simp: executes_recover_def)+
next
  assume ?r
  then obtain x w1 where e: "executes h I s w x w1" and k: "executes_recover h I k x w1 y w'" by blast
  show ?l
  proof (cases x)
    case (Succeeded v)
    with e k show ?thesis by (auto simp: executes_recover_def intro: recover_succeeded)
  next
    case (Failed c)
    with e k show ?thesis
      by (cases "capture h (k c w1)"; cases "fst (the (capture h (k c w1)))")
         (auto simp: executes_recover_def intro: recover_panicked recover_continued)
  qed
qed

text \<open>Frames, read the same way: what they do to an exit, with programs given their meaning.\<close>

fun unwinds ::
  "('v, 'c, 'w) host \<Rightarrow> ('v, 'c, 'w) interp \<Rightarrow> ('v, 'c, 'w) frame list \<Rightarrow> 'v exit \<Rightarrow> 'w \<Rightarrow> 'v exit \<times> 'w \<Rightarrow> bool" where
  "unwinds h I [] x w r = (r = (x, w))"
| "unwinds h I (EnvironmentFrame e # fs) x w r = unwinds h (I\<lparr>environment := e\<rparr>) fs x w r"
| "unwinds h I (StateFrame st # fs) x w r = unwinds h (I\<lparr>state_of := st\<rparr>) fs x w r"
| "unwinds h I (ContextFrame c # fs) x w r = unwinds h (I\<lparr>context_of := c\<rparr>) fs x w r"
| "unwinds h I (TransformFrame f # fs) x w r =
     (case on_success (transform_exit h f) x w of None \<Rightarrow> False | Some (x', w') \<Rightarrow> unwinds h I fs x' w' r)"
| "unwinds h I (TransformCauseFrame f # fs) x w r =
     (case on_failure (transform_cause h f) x w of None \<Rightarrow> False | Some (x', w') \<Rightarrow> unwinds h I fs x' w' r)"
| "unwinds h I (ExitHookFrame f # fs) x w r =
     (case observe_exit h f I x w of None \<Rightarrow> False | Some (x', w') \<Rightarrow> unwinds h I fs x' w' r)"
| "unwinds h I (BindFrame k # fs) x w r =
     (\<exists>x' w'. executes_bind h I k x w x' w' \<and> unwinds h I fs x' w' r)"
| "unwinds h I (RecoverFrame k # fs) x w r =
     (\<exists>x' w'. executes_recover h I k x w x' w' \<and> unwinds h I fs x' w' r)"

lemma resume_unwinds:
  "resume_frames h I fs x w = Some (Inr y, m, w') \<Longrightarrow> unwinds h I fs x w (y, w')"
  "resume_frames h I fs x w = Some (Inl n, m, w') \<Longrightarrow> executes h (ambient m) n w' z w1 \<Longrightarrow>
   unwinds h (ambient m) (frames m) z w1 r \<Longrightarrow> unwinds h I fs x w r"
proof (induction h I fs x w rule: resume_frames.induct)
qed (auto simp: on_success_def on_failure_def executes_bind_def executes_recover_def
    split: exit.splits prod.splits sum.splits option.splits, blast+)

lemma leaf_unwinds:
  "\<not> composed n \<Longrightarrow> settle h I n w = Some (x, w') \<Longrightarrow> unwinds h I fs x w' r \<Longrightarrow>
   \<exists>x w'. executes h I n w x w' \<and> unwinds h I fs x w' r"
  by (blast intro: executes.leaf)

lemma evaluate_executes:
  fixes h :: "('v, 'c, 'w) host" and m m1 :: "('v, 'c, 'w) interpreter"
  assumes "evaluate h m n w = Some (x1, m1, w1)" "unwinds h (ambient m1) (frames m1) x1 w1 r"
  shows "\<exists>x w'. executes h (ambient m) n w x w' \<and> unwinds h (ambient m) (frames m) x w' r"
proof -
  let ?P = "\<lambda>h (m :: ('v, 'c, 'w) interpreter) n w (y :: 'v exit \<times> ('v, 'c, 'w) interpreter \<times> 'w). unwinds h (ambient (fst (snd y))) (frames (fst (snd y))) (fst y) (snd (snd y)) r \<longrightarrow>
    (\<exists>x w'. executes h (ambient m) n w x w' \<and> unwinds h (ambient m) (frames m) x w' r)"
  have "?P h m n w y" if "evaluate h m n w = Some y" for y
  proof (rule evaluate.raw_induct [where P = ?P, OF _ that], goal_cases)
    case (1 ev h m n w y)
    note IH = 1(1) and body = 1(2)
    show ?case
    proof (cases n)
      case (Transform s f)
      with body IH [of h "push (TransformFrame f) m" s w y] show ?thesis
        by (simp add: push_def case_prod_beta split: option.splits) (metis executes.transform prod.collapse)
    next
      case (TransformCause s f)
      with body IH [of h "push (TransformCauseFrame f) m" s w y] show ?thesis
        by (simp add: push_def case_prod_beta split: option.splits) (metis executes.transform_failure prod.collapse)
    next
      case (OnExit s f)
      with body IH [of h "push (ExitHookFrame f) m" s w y] show ?thesis
        by (simp add: push_def case_prod_beta split: option.splits) (metis executes.hook prod.collapse)
    next
      case (Bind s k)
      with body IH [of h "push (BindFrame k) m" s w y] show ?thesis
        by (simp add: push_def executes_Bind) blast
    next
      case (Recover s k)
      with body IH [of h "push (RecoverFrame k) m" s w y] show ?thesis
        by (simp add: push_def executes_Recover) blast
    next
      case (WithEnvironment s f)
      show ?thesis
      proof (cases "capture h (f (environment (ambient m)) w)")
        case (Some answer)
        obtain given w' where "answer = (given, w')" by (cases answer)
        with Some WithEnvironment body
          IH [of h "\<lparr>ambient = (ambient m)\<lparr>environment := projr given\<rparr>,
            frames = EnvironmentFrame (environment (ambient m)) # frames m\<rparr>" s w' y]
          executes.environment_panicked [of h f "ambient m" w _ w' s]
          executes.environment_given [of h f "ambient m" w _ w' s]
        show ?thesis by (cases given) (auto simp: push_def machine_given, blast+)
      qed (use body WithEnvironment in simp)
    next
      case (WithState s f)
      show ?thesis
      proof (cases "capture h (f (state_of (ambient m)) w)")
        case (Some answer)
        obtain given w' where "answer = (given, w')" by (cases answer)
        with Some WithState body
          IH [of h "\<lparr>ambient = (ambient m)\<lparr>state_of := projr given\<rparr>,
            frames = StateFrame (state_of (ambient m)) # frames m\<rparr>" s w' y]
          executes.state_panicked [of h f "ambient m" w _ w' s]
          executes.state_given [of h f "ambient m" w _ w' s]
        show ?thesis by (cases given) (auto simp: push_def machine_given, blast+)
      qed (use body WithState in simp)
    next
      case (WithContext s f)
      show ?thesis
      proof (cases "capture h (f (context_of (ambient m)) w)")
        case (Some answer)
        obtain given w' where "answer = (given, w')" by (cases answer)
        with Some WithContext body
          IH [of h "\<lparr>ambient = (ambient m)\<lparr>context_of := projr given\<rparr>,
            frames = ContextFrame (context_of (ambient m)) # frames m\<rparr>" s w' y]
          executes.context_panicked [of h f "ambient m" w _ w' s]
          executes.context_given [of h f "ambient m" w _ w' s]
        show ?thesis by (cases given) (auto simp: push_def machine_given, blast+)
      qed (use body WithContext in simp)
    next
      case (Suspend create)
      show ?thesis
      proof (cases "capture h (create (ambient m) w)")
        case (Some answer)
        obtain given w' where "answer = (given, w')" by (cases answer)
        with Some Suspend body IH [of h m "projr given" w' y]
          executes.suspend_panicked [of h create "ambient m" w _ w']
          executes.suspend_created [of h create "ambient m" w _ w']
        show ?thesis by (cases given) (auto, blast+)
      qed (use body Suspend in simp)
    qed (use body leaf_unwinds [of n h "ambient m" w "fst y" "snd (snd y)" "frames m" r] in \<open>auto split: prod.splits option.splits\<close>)
  qed
  from this [OF assms(1)] assms(2) show ?thesis by simp
qed

lemma run_executes:
  fixes h :: "('v, 'c, 'w) host" and m m1 :: "('v, 'c, 'w) interpreter"
  assumes "run h m n w = Some (y, m1, w1)"
  shows "\<exists>x w'. executes h (ambient m) n w x w' \<and> unwinds h (ambient m) (frames m) x w' (y, w1)"
proof -
  let ?P = "\<lambda>h (m :: ('v, 'c, 'w) interpreter) n w (r :: 'v exit \<times> ('v, 'c, 'w) interpreter \<times> 'w).
    \<exists>x w'. executes h (ambient m) n w x w' \<and> unwinds h (ambient m) (frames m) x w' (fst r, snd (snd r))"
  have "?P h m n w (y, m1, w1)"
  proof (rule run.raw_induct [where P = ?P, OF _ assms], goal_cases)
    case (1 rn h m n w r)
    note IH = 1(1) and body = 1(2)
    then obtain x m1 w1 where e: "evaluate h m n w = Some (x, m1, w1)" by (auto split: option.splits)
    have "unwinds h (ambient m1) (frames m1) x w1 (fst r, snd (snd r))"
    proof (cases "resume_frames h (ambient m1) (frames m1) x w1")
      case None
      with body e show ?thesis by (simp add: resume_def)
    next
      case (Some resumed)
      obtain answer m2 w2 where "resumed = (answer, m2, w2)" by (cases resumed)
      note fields = Some this
      show ?thesis
      proof (cases answer)
        case (Inl n')
        with body e fields IH [of h m2 n' w2 r] resume_unwinds(2) [of h "ambient m1" "frames m1" x w1 n' m2 w2]
        show ?thesis by (auto simp: resume_def)
      next
        case (Inr x')
        with body e fields resume_unwinds(1) [of h "ambient m1" "frames m1" x w1 x' m2 w2]
        show ?thesis by (auto simp: resume_def)
      qed
    qed
    with evaluate_executes [OF e] show ?case by blast
  qed
  then show ?thesis by simp
qed

lemma executes_deterministic:
  "executes h I n w x w' \<Longrightarrow> executes h I n w y w'' \<Longrightarrow> y = x \<and> w'' = w'"
  using executes_run [of h I n w x w' "[]"] executes_run [of h I n w y w'' "[]"] by (simp add: finish_def)

lemma interpret_executes: "interpret_node h I n w = Some (x, w') \<longleftrightarrow> executes h I n w x w'"
proof
  assume "interpret_node h I n w = Some (x, w')"
  then obtain m where "run h \<lparr>ambient = I, frames = []\<rparr> n w = Some (x, m, w')"
    by (auto simp: interpret_node_def)
  from run_executes [OF this] show "executes h I n w x w'" by auto
next
  assume "executes h I n w x w'"
  from executes_run [OF this, of "[]"] show "interpret_node h I n w = Some (x, w')"
    by (simp add: interpret_node_def finish_def)
qed

lemma run_restores:
  "run h \<lparr>ambient = I, frames = []\<rparr> n w =
     map_option (\<lambda>(x, w'). (x, \<lparr>ambient = I, frames = []\<rparr>, w')) (interpret_node h I n w)"
proof (cases "run h \<lparr>ambient = I, frames = []\<rparr> n w")
  case (Some r)
  obtain x m w' where r: "r = (x, m, w')" by (cases r)
  from run_executes [OF Some [unfolded r]] have "executes h I n w x w'" by auto
  from executes_run [OF this, of "[]"] Some r show ?thesis by (simp add: interpret_node_def finish_def)
qed (simp add: interpret_node_def)

text \<open>
  C1: interpreting a program with continuation frames on the heap gives exactly the meaning of its
  instructions, composed: the machine returns an exit and a world if and only if the program
  executes to them (so it also loops exactly when the program has no execution). Whatever the
  program replaced on the way -- the context, the runtime state, the environment -- is restored, and
  no frame is left.
\<close>

theorem interpret_is_compositional:
  "(interpret_node h I n w = Some (x, w') \<longleftrightarrow> executes h I n w x w')
   \<and> run h \<lparr>ambient = I, frames = []\<rparr> n w =
       map_option (\<lambda>(x, w'). (x, \<lparr>ambient = I, frames = []\<rparr>, w')) (interpret_node h I n w)"
  by (intro conjI interpret_executes run_restores)

end
