(* ===== verification/Effects.thy ===== *)
theory Effects
  imports Interpreter
begin

section \<open>Effects and their composition\<close>

text \<open>
  Models the typed combinators of \<^verbatim>\<open>effect/effect.go\<close>, \<^verbatim>\<open>effect_sequential.go\<close>,
  \<^verbatim>\<open>effect_recovery.go\<close>, \<^verbatim>\<open>effect_composition.go\<close>, \<^verbatim>\<open>finalization.go\<close> and the erasing helpers they
  share in \<^verbatim>\<open>erasure.go\<close>. An effect is what running its instructions does: given the ambient
  interpretation and the world it either never returns (\<open>None\<close>) or ends with a cause or a value.
  Typed values stay typed; causes keep the erased failure and panic values \<open>'v\<close>.

  The first group of lemmas shows that each combinator is what the interpreter makes of the
  instruction the code builds for it, so what follows about effects is about interpreted programs.
\<close>

named_theorems fx_defs \<open>definitions of the effect combinators\<close>

type_synonym ('v, 'c, 'w, 'a) fx = "('v, 'c, 'w) interp \<Rightarrow> 'w \<Rightarrow> (('v cause + 'a) \<times> 'w) option"

text \<open>A callback that returns and touches nothing.\<close>

definition pure :: "('a \<Rightarrow> 'b) \<Rightarrow> 'a \<Rightarrow> ('v, 'w, 'b) callback" where
  [simp]: "pure f a w = Some (Inr (f a), w)"

fun cause_part :: "'v cause + 'a \<Rightarrow> 'v cause" where
  "cause_part (Inl c) = c"
| "cause_part (Inr _) = Empty"

text \<open>Continue with what a guarded callback produced, or with its panic as a defect.\<close>

definition guarded ::
  "('v, 'c, 'w) host \<Rightarrow> (('v + 'b) \<times> 'w) option \<Rightarrow> ('b \<Rightarrow> 'w \<Rightarrow> (('v cause + 'a) \<times> 'w) option)
     \<Rightarrow> (('v cause + 'a) \<times> 'w) option" where
  [fx_defs]: "guarded h r use =
     (case capture h r of
        None \<Rightarrow> None
      | Some (Inl d, w) \<Rightarrow> Some (Inl (die_cause d), w)
      | Some (Inr b, w) \<Rightarrow> use b w)"

definition at_checkpoint ::
  "('v, 'c, 'w) host \<Rightarrow> (('v, 'c, 'w) interp \<Rightarrow> 'w \<Rightarrow> (('v cause + 'a) \<times> 'w) option) \<Rightarrow> ('v, 'c, 'w, 'a) fx" where
  [fx_defs]: "at_checkpoint h settle_with I w =
     (case machine_interrupt h (context_of I) w of
        (Some c, w') \<Rightarrow> Some (Inl c, w')
      | (None, w') \<Rightarrow> settle_with I w')"

subsection \<open>Constructors\<close>

definition succeed :: "('v, 'c, 'w) host \<Rightarrow> 'a \<Rightarrow> ('v, 'c, 'w, 'a) fx" where
  [fx_defs]: "succeed h a = at_checkpoint h (\<lambda>I w. Some (Inr a, w))"

definition fail_with_cause :: "('v, 'c, 'w) host \<Rightarrow> 'v cause \<Rightarrow> ('v, 'c, 'w, 'a) fx" where
  [fx_defs]: "fail_with_cause h c = at_checkpoint h
     (\<lambda>I w. Some (Inl (with_origin c \<lparr>source = [], operation = operation_name (meta (state_of I))\<rparr>), w))"

definition fail_at :: "('v, 'c, 'w) host \<Rightarrow> string \<Rightarrow> 'v \<Rightarrow> ('v, 'c, 'w, 'a) fx" where
  "fail_at h site e = fail_with_cause h (with_origin (fail_cause e) \<lparr>source = site, operation = []\<rparr>)"

definition from_runtime ::
  "('v, 'c, 'w) host \<Rightarrow> (('v, 'c, 'w) interp \<Rightarrow> ('v, 'w, 'v cause + 'a) callback) \<Rightarrow> ('v, 'c, 'w, 'a) fx" where
  [fx_defs]: "from_runtime h f = at_checkpoint h (\<lambda>I w. guarded h (f I w) (\<lambda>x w'. Some (x, w')))"

definition try_fx ::
  "('v, 'c, 'w) host \<Rightarrow> (('v, 'c, 'w) interp \<Rightarrow> ('v, 'w, 'x + 'a) callback) \<Rightarrow> ('x \<Rightarrow> 'v) \<Rightarrow> ('v, 'c, 'w, 'a) fx" where
  "try_fx h f classify =
     from_runtime h (\<lambda>I w. map_option (map_prod (map_sum id (map_sum (fail_cause \<circ> classify) id)) id) (f I w))"

definition suspend_runtime ::
  "('v, 'c, 'w) host \<Rightarrow> (('v, 'c, 'w) interp \<Rightarrow> ('v, 'w, ('v, 'c, 'w, 'a) fx) callback) \<Rightarrow> ('v, 'c, 'w, 'a) fx" where
  [fx_defs]: "suspend_runtime h create I w = guarded h (create I w) (\<lambda>fx. fx I)"

definition suspend ::
  "('v, 'c, 'w) host \<Rightarrow> ('v, 'w, ('v, 'c, 'w, 'a) fx) callback \<Rightarrow> ('v, 'c, 'w, 'a) fx" where
  [fx_defs]: "suspend h create = suspend_runtime h (\<lambda>_. create)"

subsection \<open>Sequencing\<close>

definition map_fx ::
  "('v, 'c, 'w) host \<Rightarrow> ('v, 'c, 'w, 'a) fx \<Rightarrow> ('a \<Rightarrow> ('v, 'w, 'b) callback) \<Rightarrow> ('v, 'c, 'w, 'b) fx" where
  [fx_defs]: "map_fx h fx f I w =
     (case fx I w of
        None \<Rightarrow> None
      | Some (Inl c, w') \<Rightarrow> Some (Inl c, w')
      | Some (Inr a, w') \<Rightarrow> guarded h (f a w') (\<lambda>b w. Some (Inr b, w)))"

definition flat_map ::
  "('v, 'c, 'w) host \<Rightarrow> ('v, 'c, 'w, 'a) fx \<Rightarrow> ('a \<Rightarrow> ('v, 'w, ('v, 'c, 'w, 'b) fx) callback) \<Rightarrow> ('v, 'c, 'w, 'b) fx" where
  [fx_defs]: "flat_map h fx k I w =
     (case fx I w of
        None \<Rightarrow> None
      | Some (Inl c, w') \<Rightarrow> Some (Inl c, w')
      | Some (Inr a, w') \<Rightarrow> guarded h (k a w') (\<lambda>next_fx. next_fx I))"

definition as_fx :: "('v, 'c, 'w) host \<Rightarrow> ('v, 'c, 'w, 'a) fx \<Rightarrow> 'b \<Rightarrow> ('v, 'c, 'w, 'b) fx" where
  "as_fx h fx b = map_fx h fx (pure (\<lambda>_. b))"

definition tap ::
  "('v, 'c, 'w) host \<Rightarrow> ('v, 'c, 'w, 'a) fx \<Rightarrow> ('a \<Rightarrow> ('v, 'w, ('v, 'c, 'w, 'b) fx) callback) \<Rightarrow> ('v, 'c, 'w, 'a) fx" where
  "tap h fx inspect =
     flat_map h fx (\<lambda>a w. map_option (map_prod (map_sum id (\<lambda>seen. as_fx h seen a)) id) (inspect a w))"

definition and_then :: "('v, 'c, 'w) host \<Rightarrow> ('v, 'c, 'w, 'a) fx \<Rightarrow> ('v, 'c, 'w, 'b) fx \<Rightarrow> ('v, 'c, 'w, 'b) fx" where
  [fx_defs]: "and_then h fx that = flat_map h fx (pure (\<lambda>_. that))"

definition flatten :: "('v, 'c, 'w) host \<Rightarrow> ('v, 'c, 'w, ('v, 'c, 'w, 'a) fx) fx \<Rightarrow> ('v, 'c, 'w, 'a) fx" where
  "flatten h fx = flat_map h fx (pure (\<lambda>inner. inner))"

definition zip_fx ::
  "('v, 'c, 'w) host \<Rightarrow> ('v, 'c, 'w, 'a) fx \<Rightarrow> ('v, 'c, 'w, 'b) fx \<Rightarrow> ('v, 'c, 'w, 'a \<times> 'b) fx" where
  "zip_fx h fx that = flat_map h fx (pure (\<lambda>a. map_fx h that (pure (\<lambda>b. (a, b)))))"

definition check_interrupt :: "('v, 'c, 'w) host \<Rightarrow> ('v, 'c, 'w, unit) fx" where
  "check_interrupt h = succeed h ()"

subsection \<open>Failure\<close>

definition map_cause ::
  "('v, 'c, 'w) host \<Rightarrow> ('v, 'c, 'w, 'a) fx \<Rightarrow> ('v cause \<Rightarrow> ('v, 'w, 'v cause) callback) \<Rightarrow> ('v, 'c, 'w, 'a) fx" where
  [fx_defs]: "map_cause h fx f I w =
     (case fx I w of
        None \<Rightarrow> None
      | Some (Inr a, w') \<Rightarrow> Some (Inr a, w')
      | Some (Inl c, w') \<Rightarrow> guarded h (f c w') (\<lambda>c' w. Some (Inl c', w)))"

definition map_error ::
  "('v, 'c, 'w) host \<Rightarrow> ('v, 'c, 'w, 'a) fx \<Rightarrow> ('v \<Rightarrow> 'v) \<Rightarrow> ('v, 'c, 'w, 'a) fx" where
  "map_error h fx f = map_cause h fx (pure (map_cause_failure f))"

definition or_die :: "('v, 'c, 'w) host \<Rightarrow> ('v, 'c, 'w, 'a) fx \<Rightarrow> ('v, 'c, 'w, 'a) fx" where
  "or_die h fx = map_cause h fx (pure failures_as_defects)"

definition catch_cause ::
  "('v, 'c, 'w) host \<Rightarrow> ('v, 'c, 'w, 'a) fx \<Rightarrow> ('v cause \<Rightarrow> ('v, 'w, ('v, 'c, 'w, 'a) fx) callback)
     \<Rightarrow> ('v, 'c, 'w, 'a) fx" where
  [fx_defs]: "catch_cause h fx k I w =
     (case fx I w of
        None \<Rightarrow> None
      | Some (Inr a, w') \<Rightarrow> Some (Inr a, w')
      | Some (Inl c, w') \<Rightarrow>
          (case capture h (k c w') of
             None \<Rightarrow> None
           | Some (Inl d, w'') \<Rightarrow> Some (Inl (then_cause c (die_cause d)), w'')
           | Some (Inr next_fx, w'') \<Rightarrow> next_fx I w''))"

definition catch_all ::
  "('v, 'c, 'w) host \<Rightarrow> ('v, 'c, 'w, 'a) fx \<Rightarrow> ('v \<Rightarrow> ('v, 'w, ('v, 'c, 'w, 'a) fx) callback)
     \<Rightarrow> ('v, 'c, 'w, 'a) fx" where
  "catch_all h fx handler =
     catch_cause h fx (\<lambda>c w. case failure_of c of
        None \<Rightarrow> Some (Inr (fail_with_cause h c), w)
      | Some e \<Rightarrow> handler e w)"

subsection \<open>Exits\<close>

definition with_exit_observer ::
  "('v, 'c, 'w) host \<Rightarrow> ('v, 'c, 'w, 'a) fx
     \<Rightarrow> (('v, 'c, 'w) interp \<Rightarrow> 'v cause + 'a \<Rightarrow> ('v, 'w, 'v cause + 'b) callback) \<Rightarrow> ('v, 'c, 'w, 'b) fx" where
  [fx_defs]: "with_exit_observer h fx observe I w =
     (case fx I w of
        None \<Rightarrow> None
      | Some (x, w') \<Rightarrow>
          (case capture h (observe I x w') of
             None \<Rightarrow> None
           | Some (Inl d, w'') \<Rightarrow> Some (Inl (then_cause (cause_part x) (die_cause d)), w'')
           | Some (Inr y, w'') \<Rightarrow> Some (y, w'')))"

definition exit_of :: "('v, 'c, 'w) host \<Rightarrow> ('v, 'c, 'w, 'a) fx \<Rightarrow> ('v, 'c, 'w, 'v cause + 'a) fx" where
  "exit_of h fx = with_exit_observer h fx (\<lambda>_. pure Inr)"

definition fold_fx ::
  "('v, 'c, 'w) host \<Rightarrow> ('v, 'c, 'w, 'a) fx \<Rightarrow> ('v cause \<Rightarrow> ('v, 'w, 'b) callback) \<Rightarrow> ('a \<Rightarrow> ('v, 'w, 'b) callback)
     \<Rightarrow> ('v, 'c, 'w, 'b) fx" where
  "fold_fx h fx failure success = map_fx h (exit_of h fx) (case_sum failure success)"

definition finalize_exit ::
  "('v, 'c, 'w) host \<Rightarrow> ('v, 'c, 'w) interp \<Rightarrow> ('v cause + 'a \<Rightarrow> ('v, 'w, ('v, 'c, 'w, unit) fx) callback)
     \<Rightarrow> 'v cause + 'a \<Rightarrow> ('v, 'w, 'v cause) callback" where
  "finalize_exit h I finalize x w =
     (case finalize x w of
        None \<Rightarrow> None
      | Some (Inl p, w') \<Rightarrow> Some (Inl p, w')
      | Some (Inr fx, w') \<Rightarrow>
          map_option (\<lambda>(result, w''). (Inr (cause_part result), w''))
            (fx (I\<lparr>context_of := without_cancel h (context_of I)\<rparr>) w'))"

definition on_exit ::
  "('v, 'c, 'w) host \<Rightarrow> ('v, 'c, 'w, 'a) fx \<Rightarrow> ('v cause + 'a \<Rightarrow> ('v, 'w, ('v, 'c, 'w, unit) fx) callback)
     \<Rightarrow> ('v, 'c, 'w, 'a) fx" where
  "on_exit h fx finalize =
     with_exit_observer h fx (\<lambda>I x w.
       map_option (\<lambda>(r, w'). (map_sum id (\<lambda>cleanup. if is_empty cleanup then x
            else Inl (then_cause (cause_part x) cleanup)) r, w'))
         (finalize_exit h I finalize x w))"

definition ensuring ::
  "('v, 'c, 'w) host \<Rightarrow> ('v, 'c, 'w, 'a) fx \<Rightarrow> ('v, 'c, 'w, unit) fx \<Rightarrow> ('v, 'c, 'w, 'a) fx" where
  "ensuring h fx finalizer = on_exit h fx (pure (\<lambda>_. finalizer))"

subsection \<open>The ambient interpretation\<close>

definition contramap_env ::
  "('v, 'c, 'w) host \<Rightarrow> ('v, 'c, 'w, 'a) fx \<Rightarrow> ('v \<Rightarrow> ('v, 'w, 'v) callback) \<Rightarrow> ('v, 'c, 'w, 'a) fx" where
  [fx_defs]: "contramap_env h fx f I w = guarded h (f (environment I) w) (\<lambda>e. fx (I\<lparr>environment := e\<rparr>))"

definition provide :: "('v, 'c, 'w) host \<Rightarrow> ('v, 'c, 'w, 'a) fx \<Rightarrow> 'v \<Rightarrow> ('v, 'c, 'w, 'a) fx" where
  "provide h fx env = contramap_env h fx (pure (\<lambda>_. env))"

definition with_state ::
  "('v, 'c, 'w) host \<Rightarrow> ('v, 'c, 'w, 'a) fx \<Rightarrow> (('c, 'w) state \<Rightarrow> ('v, 'w, ('c, 'w) state) callback)
     \<Rightarrow> ('v, 'c, 'w, 'a) fx" where
  [fx_defs]: "with_state h fx derive I w = guarded h (derive (state_of I) w) (\<lambda>st. fx (I\<lparr>state_of := st\<rparr>))"

definition with_context ::
  "('v, 'c, 'w) host \<Rightarrow> ('v, 'c, 'w, 'a) fx \<Rightarrow> ('c \<Rightarrow> ('v, 'w, 'c) callback) \<Rightarrow> ('v, 'c, 'w, 'a) fx" where
  [fx_defs]: "with_context h fx derive I w = guarded h (derive (context_of I) w) (\<lambda>c. fx (I\<lparr>context_of := c\<rparr>))"

definition name_fx :: "('v, 'c, 'w) host \<Rightarrow> ('v, 'c, 'w, 'a) fx \<Rightarrow> string \<Rightarrow> ('v, 'c, 'w, 'a) fx" where
  "name_fx h fx name = with_state h fx (pure (with_name name))"

definition annotate :: "('v, 'c, 'w) host \<Rightarrow> ('v, 'c, 'w, 'a) fx \<Rightarrow> attr list \<Rightarrow> ('v, 'c, 'w, 'a) fx" where
  "annotate h fx attrs = with_state h fx (pure (with_attributes attrs))"

subsection \<open>Combinators and instructions\<close>

definition typed_exit :: "'v exit \<Rightarrow> 'v cause + 'v" where
  "typed_exit x = (case x of Failed c \<Rightarrow> Inl c | Succeeded v \<Rightarrow> Inr v)"

definition erased_exit :: "'v cause + 'v \<Rightarrow> 'v exit" where
  "erased_exit x = (case x of Inl c \<Rightarrow> Failed c | Inr v \<Rightarrow> Succeeded v)"

definition denote :: "('v, 'c, 'w) host \<Rightarrow> ('v, 'c, 'w) node \<Rightarrow> ('v, 'c, 'w, 'v) fx" where
  "denote h n I w = map_option (map_prod typed_exit id) (interpret_node h I n w)"

abbreviation denoted ::
  "('v, 'c, 'w) host \<Rightarrow> (('v + ('v, 'c, 'w) node) \<times> 'w) option \<Rightarrow> (('v + ('v, 'c, 'w, 'v) fx) \<times> 'w) option" where
  "denoted h r \<equiv> map_option (map_prod (map_sum id (denote h)) id) r"

lemma typed_erased [simp]: "typed_exit (erased_exit x) = x" "erased_exit (typed_exit y) = y"
  by (auto simp: typed_exit_def erased_exit_def split: sum.splits exit.splits)

lemma typed_exit_simps [simp]: "typed_exit (Failed c) = Inl c" "typed_exit (Succeeded v) = Inr v"
  by (simp_all add: typed_exit_def)

lemma denote_executes: "denote h n I w = Some (x, w') \<longleftrightarrow> executes h I n w (erased_exit x) w'"
proof -
  have "denote h n I w = Some (x, w') \<longleftrightarrow> interpret_node h I n w = Some (erased_exit x, w')"
    by (cases "interpret_node h I n w") (auto simp: denote_def split: prod.splits)
  then show ?thesis by (simp add: interpret_executes)
qed

lemma denote_cases:
  obtains (diverges) "denote h n I w = None" "\<And>x w'. \<not> executes h I n w x w'"
  | (returns) x w' where "denote h n I w = Some (x, w')"
      "\<And>y w''. executes h I n w y w'' \<longleftrightarrow> y = erased_exit x \<and> w'' = w'"
proof (cases "denote h n I w")
  case None
  moreover have "\<not> executes h I n w x w'" for x w'
    using denote_executes [of h n I w "typed_exit x" w'] None by simp
  ultimately show ?thesis by (rule diverges)
next
  case (Some r)
  obtain x w' where r: "r = (x, w')" by (cases r)
  then have e: "executes h I n w (erased_exit x) w'" using Some by (simp add: denote_executes)
  show ?thesis
    using Some r e by (intro returns [of x w']) (auto dest: executes_deterministic)
qed

lemma fx_eqI: "(\<And>I w x w'. f I w = Some (x, w') \<longleftrightarrow> g I w = Some (x, w')) \<Longrightarrow> f = g"
  for f g :: "('v, 'c, 'w, 'a) fx"
proof (rule ext, rule ext)
  fix I w assume eq: "\<And>I w x w'. f I w = Some (x, w') \<longleftrightarrow> g I w = Some (x, w')"
  show "f I w = g I w"
    by (metis eq not_Some_eq surj_pair)
qed

lemma erased_exit_iff [simp]:
  "erased_exit x = Failed c \<longleftrightarrow> x = Inl c" "erased_exit x = Succeeded v \<longleftrightarrow> x = Inr v"
  "Failed c = erased_exit x \<longleftrightarrow> x = Inl c" "Succeeded v = erased_exit x \<longleftrightarrow> x = Inr v"
  "erased_exit (Inl c) = Failed c" "erased_exit (Inr v) = Succeeded v"
  by (auto simp: erased_exit_def split: sum.splits)

lemma denote_leaves:
  "denote h (Succeed v) = succeed h v"
  "denote h (FailNode c) = fail_with_cause h c"
  "denote h (Eval f) = from_runtime h (\<lambda>I w. map_option (map_prod (map_sum id typed_exit) id) (f I w))"
  by (rule fx_eqI; auto simp: denote_executes executes_simps fx_defs settle_def eval_leaf_def capture_exit_def
      capture_def split: prod.splits option.splits sum.splits)+

lemma map_sum_cases: "map_sum f g s = (case s of Inl a \<Rightarrow> Inl (f a) | Inr b \<Rightarrow> Inr (g b))"
  by (cases s) simp_all

lemmas guard_defs = capture_def capture_exit_def transform_exit_def transform_cause_def observe_exit_def
  on_success_def on_failure_def executes_bind_def executes_recover_def

lemma exit_cause_erased [simp]: "exit_cause (erased_exit x) = cause_part x"
  by (cases x) simp_all

text \<open>An instruction with one source means its combinator when both do the same to every exit.\<close>

lemma denote_source:
  assumes "\<And>I w x w'. executes h I n w x w' \<longleftrightarrow> (\<exists>y w1. executes h I s w y w1 \<and> after I y w1 x w')"
    and "\<And>I w. denote h s I w = None \<Longrightarrow> f I w = None"
    and "\<And>I w y w1 x w'. denote h s I w = Some (y, w1) \<Longrightarrow>
      f I w = Some (x, w') \<longleftrightarrow> after I (erased_exit y) w1 (erased_exit x) w'"
  shows "denote h n = f"
proof (rule fx_eqI)
  fix I w x w'
  show "denote h n I w = Some (x, w') \<longleftrightarrow> f I w = Some (x, w')"
    by (rule denote_cases [of h s I w]) (simp_all add: denote_executes [of h n] assms)
qed

lemma executes_Transform: "executes h I (Transform s f) w y w' \<longleftrightarrow>
    (\<exists>x w1. executes h I s w x w1 \<and> on_success (transform_exit h f) x w1 = Some (y, w'))"
  by (auto simp: executes_simps)

lemma executes_TransformCause: "executes h I (TransformCause s f) w y w' \<longleftrightarrow>
    (\<exists>x w1. executes h I s w x w1 \<and> on_failure (transform_cause h f) x w1 = Some (y, w'))"
  by (auto simp: executes_simps)

lemma executes_OnExit: "executes h I (OnExit s f) w y w' \<longleftrightarrow>
    (\<exists>x w1. executes h I s w x w1 \<and> observe_exit h f I x w1 = Some (y, w'))"
  by (auto simp: executes_simps)

lemma denote_sources:
  "denote h (Bind s k) = flat_map h (denote h s) (\<lambda>v w. denoted h (k v w))"
  "denote h (Recover s r) = catch_cause h (denote h s) (\<lambda>c w. denoted h (r c w))"
  "denote h (Transform s f) = map_fx h (denote h s) f"
  "denote h (TransformCause s g) = map_cause h (denote h s) g"
  "denote h (OnExit s ob) = with_exit_observer h (denote h s)
     (\<lambda>I x w. map_option (map_prod (map_sum id typed_exit) id) (ob I (erased_exit x) w))"
  by (rule denote_source [OF executes_Bind] denote_source [OF executes_Recover] denote_source [OF executes_Transform]
        denote_source [OF executes_TransformCause] denote_source [OF executes_OnExit],
      simp add: fx_defs, simp add: fx_defs,
      auto simp: denote_executes guard_defs guarded_def map_sum_cases split: sum.splits option.splits prod.splits)+

lemma denote_ambient:
  "denote h (WithEnvironment s f) = contramap_env h (denote h s) f"
  "denote h (WithState s g) = with_state h (denote h s) g"
  "denote h (WithContext s i) = with_context h (denote h s) i"
  "denote h (Suspend create) = suspend_runtime h (\<lambda>I w. denoted h (create I w))"
  by (rule fx_eqI; auto simp: denote_executes executes_simps fx_defs capture_def
      split: prod.splits option.splits sum.splits)+

text \<open>
  C11: every combinator is exactly what the interpreter makes of the instruction it is compiled to,
  for every program and every world: constructors, sequencing, recovery, exit hooks and the three
  ways of deriving the ambient.
\<close>

theorem combinators_match_instructions:
  "denote h (Succeed v) = succeed h v \<and> denote h (FailNode c) = fail_with_cause h c
   \<and> denote h (Eval e) = from_runtime h (\<lambda>I w. map_option (map_prod (map_sum id typed_exit) id) (e I w))
   \<and> denote h (Suspend create) = suspend_runtime h (\<lambda>I w. denoted h (create I w))
   \<and> denote h (Bind s k) = flat_map h (denote h s) (\<lambda>v w. denoted h (k v w))
   \<and> denote h (Recover s r) = catch_cause h (denote h s) (\<lambda>c w. denoted h (r c w))
   \<and> denote h (Transform s f) = map_fx h (denote h s) f
   \<and> denote h (TransformCause s g) = map_cause h (denote h s) g
   \<and> denote h (OnExit s ob) = with_exit_observer h (denote h s)
       (\<lambda>I x w. map_option (map_prod (map_sum id typed_exit) id) (ob I (erased_exit x) w))
   \<and> denote h (WithEnvironment s a) = contramap_env h (denote h s) a
   \<and> denote h (WithState s st) = with_state h (denote h s) st
   \<and> denote h (WithContext s ct) = with_context h (denote h s) ct"
  by (intro conjI denote_leaves denote_sources denote_ambient)

subsection \<open>Laws of sequencing\<close>

definition continue_with ::
  "('v, 'c, 'w) host \<Rightarrow> ('b \<Rightarrow> ('v, 'w, ('v, 'c, 'w, 'd) fx) callback) \<Rightarrow> ('a \<Rightarrow> ('v, 'w, ('v, 'c, 'w, 'b) fx) callback)
     \<Rightarrow> 'a \<Rightarrow> ('v, 'w, ('v, 'c, 'w, 'd) fx) callback" where
  "continue_with h g f a w = map_option (map_prod (map_sum id (\<lambda>fx. flat_map h fx g)) id) (f a w)"


subsection \<open>Recovery\<close>

text \<open>
  \<open>CatchAll\<close> hands exactly a single typed failure to its handler, and a panic of the handler is
  appended to the failure it was handling. Every other cause -- composite, defect, interruption -- is
  raised again at an interruption checkpoint: it keeps its structure and its leaves and gains at most
  the name of the operation it passed, unless the context has been cancelled meanwhile, in which case
  that interruption takes its place.
\<close>

theorem catch_all_handles_single_failures:
  "catch_all h fx handler I w =
     (case fx I w of
        None \<Rightarrow> None
      | Some (Inr a, w') \<Rightarrow> Some (Inr a, w')
      | Some (Inl (Fail e site), w') \<Rightarrow>
          (case handler e w' of
             None \<Rightarrow> None
           | Some (Inr fx', w'') \<Rightarrow> fx' I w''
           | Some (Inl p, w'') \<Rightarrow>
               Some (Inl (Then (Fail e site) (Die (capture_defect p (stack_trace h w'')) no_origin)), w''))
      | Some (Inl c, w') \<Rightarrow>
          (case machine_interrupt h (context_of I) w' of
             (None, w'') \<Rightarrow>
               Some (Inl (with_origin c \<lparr>source = [], operation = operation_name (meta (state_of I))\<rparr>), w'')
           | (Some r, w'') \<Rightarrow> Some (Inl r, w'')))"
  by (auto simp: catch_all_def fx_defs capture_def outcome_defs is_empty_def
      split: option.splits sum.splits prod.splits cause.splits)

text \<open>
  So a defect is not always propagated: once the context is cancelled, passing through
  \<open>CatchAll\<close> replaces it by the interruption, and nothing reports the panic.
\<close>

lemma catch_all_drops_defect_when_cancelled:
  assumes "fx I w = Some (Inl (die_cause d), w')" "machine_interrupt h (context_of I) w' = (Some r, w'')"
  shows "catch_all h fx handler I w = Some (Inl r, w'')"
  using assms by (simp add: catch_all_def fx_defs capture_def die_cause_def)

subsection \<open>Finalization\<close>

definition plain_host :: "(string, bool, string list) host" where
  "plain_host = \<lparr>ctx_err = (\<lambda>cancelled log. ((if cancelled then Some (GoErr 0 ''cancelled'' []) else None, None), log)),
     stack_trace = (\<lambda>_. []), error_value = (\<lambda>t. t), string_value = (\<lambda>t. t), without_cancel = (\<lambda>_. False)\<rparr>"

definition log_line :: "string \<Rightarrow> (string, bool, string list, unit) fx" where
  "log_line line = from_runtime plain_host (\<lambda>_ log. Some (Inr (Inr ()), log @ [line]))"

definition panicking :: "(string, bool, string list, unit) fx" where
  "panicking = from_runtime plain_host (\<lambda>_ log. Some (Inl ''boom'', log))"

definition plain_interp :: "(string, bool, string list) interp" where
  "plain_interp = \<lparr>context_of = False,
     state_of = fst (new_state \<lparr>clock_now = (\<lambda>w. (0, w)), clock_sleep = (\<lambda>_ _ w. Some (None, w)),
       observer = None, diagnostics = None, config_source = None\<rparr> 0 None),
     environment = []\<rparr>"

text \<open>
  C7: a finalizer runs once, after the effect, whatever its outcome was, and with a context that
  was detached from the caller's cancellation. When it ends without a cause the outcome is kept;
  otherwise its cause comes after the outcome's own, and no leaf of either is lost. A panic while
  choosing the finalizer is kept as a defect after the outcome's cause.
\<close>

theorem on_exit_finalizes_every_outcome:
  assumes "fx I w = Some (x, w1)"
  shows "(finalize x w1 = Some (Inr fin, w2) \<and>
      fin (I\<lparr>context_of := without_cancel h (context_of I)\<rparr>) w2 = Some (r, w3) \<longrightarrow>
        on_exit h fx finalize I w =
          Some (if cause_part r = Empty then x else Inl (then_cause (cause_part x) (cause_part r)), w3)
        \<and> leaves (cause_part (fst (the (on_exit h fx finalize I w)))) = leaves (cause_part x) @ leaves (cause_part r))
    \<and> (finalize x w1 = Some (Inl p, w2) \<longrightarrow>
        on_exit h fx finalize I w =
          Some (Inl (then_cause (cause_part x) (die_cause (capture_defect p (stack_trace h w2)))), w2))"
  using assms by (auto simp: on_exit_def finalize_exit_def with_exit_observer_def capture_def)

theorem on_exit_finalizes_every_outcome_witness:
  "ensuring plain_host panicking (log_line ''closed'') plain_interp [] =
     Some (Inl (die_cause (capture_defect ''boom'' [])), [''closed''])"
proof -
  have p: "panicking plain_interp [] = Some (Inl (die_cause (capture_defect ''boom'' [])), [])"
    and l: "log_line ''closed'' (plain_interp\<lparr>context_of := without_cancel plain_host (context_of plain_interp)\<rparr>) [] =
      Some (Inr (), [''closed''])"
    by (simp_all add: panicking_def log_line_def fx_defs machine_interrupt_def plain_host_def plain_interp_def capture_def)
  show ?thesis
    using on_exit_finalizes_every_outcome [of panicking plain_interp "[]", OF p,
        of "pure (\<lambda>_. log_line ''closed'')" "log_line ''closed''" "[]" plain_host "Inr ()" "[''closed'']" "[]"] l
    by (simp add: ensuring_def)
qed

end
