(* ===== verification/Scoped_Effects.thy ===== *)
theory Scoped_Effects
  imports Effects Resource_Scope
begin

section \<open>Scopes as effects\<close>

text \<open>
  \<^verbatim>\<open>effect/scope.go\<close> and the spans of \<^verbatim>\<open>effect/effect_observation.go\<close>: \<open>Scoped\<close> opens a scope,
  runs its body inside it and closes it with the body's exit; \<open>AcquireRelease\<close> registers a release
  with the acquisition. The scopes themselves are those of theory \<open>Resource_Scope\<close>, kept in a heap:
  the world an effect acts on is an extension of \<open>heap\<close>, and a handle is an address in it.

  Finalizers are closures. A closure cannot be a value of a world that closures act on, so a scope
  holds names \<open>'f\<close>, and \<open>perform\<close> is what calling the closure of that name does.
\<close>

record ('f, 'v) scope_cell =
  cell_scope :: "'f scope"
  close_exit :: "'v exit"

record ('f, 'v) heap =
  scope_heap :: "nat \<Rightarrow> ('f, 'v) scope_cell"
  next_scope :: nat
  ledger_heap :: "nat \<Rightarrow> ledger"
  identity_cell :: identifiers

text \<open>
  What scopes take from outside: the context derived for a scope with \<open>context.WithCancelCause\<close>, the
  named closures, the wait for the goroutines of a scope (\<open>None\<close> when it never ends) and the sentinel.
\<close>

record ('v, 'c, 'w, 'f) scope_host =
  child_context :: "'c \<Rightarrow> nat \<Rightarrow> 'c"
  perform :: "'f \<Rightarrow> 'c \<Rightarrow> 'v exit \<Rightarrow> ('v, 'w, 'v cause) callback"
  children_wait :: "nat \<Rightarrow> 'w \<Rightarrow> 'w option"
  scope_closed :: nilable_err

subsection \<open>The heap\<close>

definition scope_in :: "nat \<Rightarrow> ('f, 'v, 'z) heap_scheme \<Rightarrow> 'f scope" where
  [simp]: "scope_in k w = cell_scope (scope_heap w k)"

definition put_scope :: "nat \<Rightarrow> 'f scope \<Rightarrow> ('f, 'v, 'z) heap_scheme \<Rightarrow> ('f, 'v, 'z) heap_scheme" where
  "put_scope k s w = w\<lparr>scope_heap := (scope_heap w)(k := (scope_heap w k)\<lparr>cell_scope := s\<rparr>)\<rparr>"

definition put_close_exit :: "nat \<Rightarrow> 'v exit \<Rightarrow> ('f, 'v, 'z) heap_scheme \<Rightarrow> ('f, 'v, 'z) heap_scheme" where
  "put_close_exit k x w = w\<lparr>scope_heap := (scope_heap w)(k := (scope_heap w k)\<lparr>close_exit := x\<rparr>)\<rparr>"

definition count_in_ledger ::
  "(ledger option \<Rightarrow> ledger option) \<Rightarrow> ('c, ('f, 'v, 'z) heap_scheme) state
     \<Rightarrow> ('f, 'v, 'z) heap_scheme \<Rightarrow> ('f, 'v, 'z) heap_scheme" where
  "count_in_ledger f st w =
     (case ledger_at st of
        None \<Rightarrow> w
      | Some l \<Rightarrow> w\<lparr>ledger_heap := (ledger_heap w)(l := the (f (Some (ledger_heap w l))))\<rparr>)"

definition new_scope_at ::
  "('v, 'c, ('f, 'v, 'z) heap_scheme) host \<Rightarrow> 'c \<Rightarrow> ('f, 'v, 'z) heap_scheme \<Rightarrow> nat \<times> ('f, 'v, 'z) heap_scheme" where
  "new_scope_at h parent w =
     (case ctx_err h parent w of
        ((err, reason), w1) \<Rightarrow>
          (next_scope w1,
           w1\<lparr>next_scope := Suc (next_scope w1),
              scope_heap := (scope_heap w1)(next_scope w1 :=
                \<lparr>cell_scope = new_scope (map_option (\<lambda>e. cancellation_reason (Some e) reason) err),
                 close_exit = Failed Empty\<rparr>)\<rparr>))"

subsection \<open>Running finalizers\<close>

definition run_closure ::
  "('v, 'c, 'w) host \<Rightarrow> ('v, 'c, 'w, 'f) scope_host \<Rightarrow> 'c \<Rightarrow> 'f \<Rightarrow> 'v exit \<Rightarrow> 'w \<Rightarrow> ('v cause \<times> 'w) option" where
  "run_closure h S ctx f x w =
     (case capture h (perform S f ctx x w) of
        None \<Rightarrow> None
      | Some (Inl d, w') \<Rightarrow> Some (die_cause d, w')
      | Some (Inr c, w') \<Rightarrow> Some (c, w'))"

fun release_closures ::
  "('v, 'c, 'w) host \<Rightarrow> ('v, 'c, 'w, 'f) scope_host \<Rightarrow> 'c \<Rightarrow> 'f list \<Rightarrow> nat \<Rightarrow> 'v exit \<Rightarrow> 'v cause \<Rightarrow> 'w
     \<Rightarrow> ('v cause \<times> 'w) option" where
  "release_closures h S ctx fs 0 x c w = Some (c, w)"
| "release_closures h S ctx fs (Suc i) x c w =
     (case run_closure h S ctx (fs ! i) x w of
        None \<Rightarrow> None
      | Some (d, w') \<Rightarrow> release_closures h S ctx fs i x (then_cause c d) w')"

definition close_at ::
  "('v, 'c, ('f, 'v, 'z) heap_scheme) host \<Rightarrow> ('v, 'c, ('f, 'v, 'z) heap_scheme, 'f) scope_host \<Rightarrow> nat \<Rightarrow> 'c
     \<Rightarrow> 'v exit \<Rightarrow> nilable_err \<Rightarrow> ('f, 'v, 'z) heap_scheme \<Rightarrow> ('v cause \<times> ('f, 'v, 'z) heap_scheme) option" where
  "close_at h S k ctx x reason w =
     (case begin_close (scope_in k w) of
        (None, s) \<Rightarrow> Some (Empty, put_scope k s w)
      | (Some fs, s) \<Rightarrow>
          (case children_wait S k (put_scope k (interrupt_scope reason s) (put_close_exit k x w)) of
             None \<Rightarrow> None
           | Some w1 \<Rightarrow>
               map_option (\<lambda>(c, w2). (c, put_scope k (finish_close (scope_in k w2)) w2))
                 (release_closures h S (without_cancel h ctx) fs (length fs) x Empty w1)))"

definition add_finalizer_at ::
  "('v, 'c, ('f, 'v, 'z) heap_scheme) host \<Rightarrow> ('v, 'c, ('f, 'v, 'z) heap_scheme, 'f) scope_host \<Rightarrow> nat \<Rightarrow> 'c
     \<Rightarrow> 'f \<Rightarrow> ('f, 'v, 'z) heap_scheme \<Rightarrow> ((bool \<times> 'v cause) \<times> ('f, 'v, 'z) heap_scheme) option" where
  "add_finalizer_at h S k ctx f w =
     (case register f (scope_in k w) of
        (True, s) \<Rightarrow> Some ((True, Empty), put_scope k s w)
      | (False, s) \<Rightarrow>
          map_option (\<lambda>(c, w'). ((False, c), w'))
            (run_closure h S (without_cancel h ctx) f (close_exit (scope_heap w k)) w))"

subsection \<open>Scoped\<close>

text \<open>\<open>any_of\<close> is the conversion of a typed value to \<^verbatim>\<open>any\<close>, which is how finalizers see an exit.\<close>

definition erase_exit :: "('a \<Rightarrow> 'v) \<Rightarrow> 'v cause + 'a \<Rightarrow> 'v exit" where
  "erase_exit any_of x = (case x of Inl c \<Rightarrow> Failed c | Inr a \<Rightarrow> Succeeded (any_of a))"

definition close_observer ::
  "('v, 'c, ('f, 'v, 'z) heap_scheme) host \<Rightarrow> ('v, 'c, ('f, 'v, 'z) heap_scheme, 'f) scope_host \<Rightarrow> ('a \<Rightarrow> 'v)
     \<Rightarrow> nat \<Rightarrow> int \<Rightarrow> ('v, 'c, ('f, 'v, 'z) heap_scheme) interp \<Rightarrow> 'v cause + 'a
     \<Rightarrow> ('v, ('f, 'v, 'z) heap_scheme, 'v cause + 'a) callback" where
  "close_observer h S any_of k start I x w =
     (let ctx = context_of I; st = state_of I in
      map_option (\<lambda>(cleanup, w').
          (Inr (if is_empty cleanup then x else Inl (then_cause (cause_part x) cleanup)),
           emit_end ctx ScopeHasClosed start (cleanup_status cleanup) st w'))
        (close_at h S k ctx (erase_exit any_of x) (scope_closed S) (emit_mark ctx ScopeIsClosing st w)))"

definition scoped ::
  "('v, 'c, ('f, 'v, 'z) heap_scheme) host \<Rightarrow> ('v, 'c, ('f, 'v, 'z) heap_scheme, 'f) scope_host \<Rightarrow> ('a \<Rightarrow> 'v)
     \<Rightarrow> (nat \<Rightarrow> ('v, ('f, 'v, 'z) heap_scheme, ('v, 'c, ('f, 'v, 'z) heap_scheme, 'a) fx) callback)
     \<Rightarrow> ('v, 'c, ('f, 'v, 'z) heap_scheme, 'a) fx" where
  "scoped h S any_of use = suspend_runtime h (\<lambda>I w.
     case new_scope_at h (context_of I) w of
       (k, w1) \<Rightarrow>
         (case emit_start (context_of I) ScopeOpened (state_of I) w1 of
            (start, w2) \<Rightarrow>
              Some (Inr (with_context h
                 (with_state h
                    (with_exit_observer h (suspend_runtime h (\<lambda>_. use k)) (close_observer h S any_of k start))
                    (pure (\<lambda>_. with_scope k (state_of I))))
                 (pure (\<lambda>_. child_context S (context_of I) k))), w2)))"

subsection \<open>Acquisition\<close>

definition release_closure ::
  "('v, 'c, ('f, 'v, 'z) heap_scheme) interp \<Rightarrow> ('a \<Rightarrow> ('v, ('f, 'v, 'z) heap_scheme, ('v, 'c, ('f, 'v, 'z) heap_scheme, unit) fx) callback)
     \<Rightarrow> 'a \<Rightarrow> 'c \<Rightarrow> 'v exit \<Rightarrow> ('v, ('f, 'v, 'z) heap_scheme, 'v cause) callback" where
  "release_closure I release a ctx x w =
     (case release a w of
        None \<Rightarrow> None
      | Some (Inl p, w') \<Rightarrow> Some (Inl p, w')
      | Some (Inr fx, w') \<Rightarrow>
          map_option (\<lambda>(r, w''). (Inr (cause_part r),
              emit_mark ctx ResourceReleased (state_of I) (count_in_ledger record_release (state_of I) w'')))
            (fx (I\<lparr>context_of := ctx\<rparr>) w'))"

definition register_observer ::
  "('v, 'c, ('f, 'v, 'z) heap_scheme) host \<Rightarrow> ('v, 'c, ('f, 'v, 'z) heap_scheme, 'f) scope_host \<Rightarrow> nat
     \<Rightarrow> (('v, 'c, ('f, 'v, 'z) heap_scheme) interp \<Rightarrow> 'a \<Rightarrow> 'f)
     \<Rightarrow> ('v, 'c, ('f, 'v, 'z) heap_scheme) interp \<Rightarrow> 'v cause + 'a
     \<Rightarrow> ('v, ('f, 'v, 'z) heap_scheme, 'v cause + 'a) callback" where
  "register_observer h S k closure I x w =
     (case x of
        Inl c \<Rightarrow> Some (Inr (Inl c), w)
      | Inr a \<Rightarrow>
          map_option (\<lambda>((accepted, cleanup), w').
              if accepted
              then (Inr (Inr a), emit_mark (context_of I) ResourceAcquired (state_of I)
                      (count_in_ledger record_acquisition (state_of I) w'))
              else (Inr (Inl (then_cause (interrupt_cause (scope_closed S)) cleanup)), w'))
            (add_finalizer_at h S k (context_of I) (closure I a) w))"

definition acquire_release ::
  "('v, 'c, ('f, 'v, 'z) heap_scheme) host \<Rightarrow> ('v, 'c, ('f, 'v, 'z) heap_scheme, 'f) scope_host \<Rightarrow> nat
     \<Rightarrow> ('v, 'c, ('f, 'v, 'z) heap_scheme, 'a) fx \<Rightarrow> (('v, 'c, ('f, 'v, 'z) heap_scheme) interp \<Rightarrow> 'a \<Rightarrow> 'f)
     \<Rightarrow> ('v, 'c, ('f, 'v, 'z) heap_scheme, 'a) fx" where
  "acquire_release h S k acquire closure = with_exit_observer h acquire (register_observer h S k closure)"

text \<open>\<open>AddFinalizer\<close> of the package: a Go release function, whose error is a defect.\<close>

definition finalizer_fx ::
  "('v, 'c, 'w) host \<Rightarrow> ('c \<Rightarrow> ('v, 'w, 'v option) callback) \<Rightarrow> ('v, 'c, 'w, unit) fx" where
  "finalizer_fx h release = from_runtime h (\<lambda>I w.
     map_option (map_prod (map_sum id (\<lambda>e. case e of
         Some err \<Rightarrow> Inl (die_cause \<lparr>defect_value = err, defect_stack = []\<rparr>)
       | None \<Rightarrow> Inr ())) id) (release (context_of I) w))"

subsection \<open>Spans\<close>

definition end_span ::
  "('a \<Rightarrow> 'v) \<Rightarrow> int \<Rightarrow> ('v, 'c, 'w) interp \<Rightarrow> 'v cause + 'a \<Rightarrow> ('v, 'w, 'v cause + 'a) callback" where
  "end_span any_of start I x w =
     Some (Inr x, emit_end (context_of I) SpanEnded start (exit_status (erase_exit any_of x)) (state_of I) w)"

definition span_fx ::
  "('v, 'c, ('f, 'v, 'z) heap_scheme) host \<Rightarrow> ('a \<Rightarrow> 'v) \<Rightarrow> span_boundary
     \<Rightarrow> ('v, 'c, ('f, 'v, 'z) heap_scheme, 'a) fx \<Rightarrow> ('v, 'c, ('f, 'v, 'z) heap_scheme, 'a) fx" where
  "span_fx h any_of boundary fx = suspend_runtime h (\<lambda>I w.
     case with_span boundary (state_of I) (identity_cell w) of
       (span, ids) \<Rightarrow>
         let w1 = w\<lparr>identity_cell := ids\<rparr> in
         if \<not> has_observer span then Some (Inr (with_state h fx (pure (\<lambda>_. span))), w1)
         else case event SpanStarted span w1 of
           (started, w2) \<Rightarrow>
             Some (Inr (with_state h (with_exit_observer h fx (end_span any_of (ev_timestamp started))) (pure (\<lambda>_. span))),
               emit (context_of I) started span w2))"

subsection \<open>What scopes guarantee\<close>

text \<open>The finalizer loop over the reversed list, with the causes kept apart.\<close>

fun release_chain ::
  "('v, 'c, 'w) host \<Rightarrow> ('v, 'c, 'w, 'f) scope_host \<Rightarrow> 'c \<Rightarrow> 'f list \<Rightarrow> 'v exit \<Rightarrow> 'w \<Rightarrow> ('v cause list \<times> 'w) option" where
  "release_chain h S ctx [] x w = Some ([], w)"
| "release_chain h S ctx (f # fs) x w =
     (case run_closure h S ctx f x w of
        None \<Rightarrow> None
      | Some (c, w') \<Rightarrow> map_option (\<lambda>(cs, w''). (c # cs, w'')) (release_chain h S ctx fs x w'))"

lemma release_closures_chain:
  "n \<le> length fs \<Longrightarrow>
   release_closures h S ctx fs n x c w =
     map_option (\<lambda>(cs, w'). (foldl then_cause c cs, w')) (release_chain h S ctx (rev (take n fs)) x w)"
  by (induction n arbitrary: c w)
     (auto simp: take_Suc_conv_app_nth option.map_comp o_def case_prod_unfold split: option.split)

lemma put_scope_simps [simp]:
  "cell_scope (scope_heap (put_scope k s w) k) = s" "close_exit (scope_heap (put_scope k s w) j) = close_exit (scope_heap w j)"
  "cell_scope (scope_heap (put_close_exit k x w) j) = cell_scope (scope_heap w j)"
  "close_exit (scope_heap (put_close_exit k x w) k) = x"
  by (simp_all add: put_scope_def put_close_exit_def)

lemma count_in_ledger_scopes [simp]: "scope_heap (count_in_ledger f st w) = scope_heap w"
  by (simp add: count_in_ledger_def split: option.split)

text \<open>What closing hands to the finalizers: the scope cancelled, its finalizers taken.\<close>

definition closing_world ::
  "('v, 'c, ('f, 'v, 'z) heap_scheme, 'f) scope_host \<Rightarrow> nat \<Rightarrow> 'v exit \<Rightarrow> ('f, 'v, 'z) heap_scheme \<Rightarrow> ('f, 'v, 'z) heap_scheme" where
  "closing_world S k x w =
     put_scope k (interrupt_scope (scope_closed S) ((scope_in k w)\<lparr>status := ScopeClosing, finalizers := []\<rparr>))
       (put_close_exit k x w)"

lemma close_at_open:
  assumes "status (scope_in k w) = ScopeOpen" "finalizers (scope_in k w) = fs"
    and "children_wait S k (closing_world S k x w) = Some w1"
    and "release_chain h S (without_cancel h ctx) (rev fs) x w1 = Some (cs, w2)"
  shows "close_at h S k ctx x (scope_closed S) w =
    Some (foldl then_cause Empty cs, put_scope k (finish_close (scope_in k w2)) w2)"
  using assms by (simp add: close_at_def begin_close_def closing_world_def release_closures_chain)

lemma scoped_runs:
  assumes quiet: "\<not> has_observer (state_of I)"
    and opened: "new_scope_at h (context_of I) w = (k, w1)" "clock_now (services (state_of I)) w1 = (start, w2)"
    and inside: "I' = I\<lparr>context_of := child_context S (context_of I) k, state_of := with_scope k (state_of I)\<rparr>"
    and body: "suspend_runtime h (\<lambda>_. use k) I' w2 = Some (x, w3)"
    and closed: "close_at h S k (context_of I') (erase_exit any_of x) (scope_closed S) w3 = Some (cleanup, w4)"
  shows "scoped h S any_of use I w =
    Some (if cleanup = Empty then x else Inl (then_cause (cause_part x) cleanup), w4)"
proof -
  have q: "\<not> has_observer (state_of I')" using quiet inside by (simp add: has_observer_def with_scope_def)
  have "close_observer h S any_of k start I' x w3 =
      Some (Inr (if cleanup = Empty then x else Inl (then_cause (cause_part x) cleanup)), w4)"
    using q closed by (simp add: close_observer_def no_observer_no_event)
  then have "with_exit_observer h (suspend_runtime h (\<lambda>_. use k)) (close_observer h S any_of k start) I' w2 =
      Some (if cleanup = Empty then x else Inl (then_cause (cause_part x) cleanup), w4)"
    by (simp add: with_exit_observer_def body capture_def)
  then show ?thesis
    using quiet opened inside
    by (simp add: scoped_def suspend_runtime_def guarded_def capture_def with_context_def with_state_def emit_start_def)
qed

lemma scoped_closes:
  assumes "\<not> has_observer (state_of I)"
    and "new_scope_at h (context_of I) w = (k, w1)" "clock_now (services (state_of I)) w1 = (start, w2)"
    and "I' = I\<lparr>context_of := child_context S (context_of I) k, state_of := with_scope k (state_of I)\<rparr>"
    and "suspend_runtime h (\<lambda>_. use k) I' w2 = Some (x, w3)"
    and still: "status (scope_in k w3) = ScopeOpen" "finalizers (scope_in k w3) = fs"
    and joined: "children_wait S k (closing_world S k (erase_exit any_of x) w3) = Some w4"
    and released: "release_chain h S (without_cancel h (context_of I')) (rev fs) (erase_exit any_of x) w4 = Some (cs, w5)"
  shows "scoped h S any_of use I w =
      Some (if foldl then_cause Empty cs = Empty then x
            else Inl (then_cause (cause_part x) (foldl then_cause Empty cs)),
        put_scope k (finish_close (scope_in k w5)) w5)"
  by (rule scoped_runs [where use = use, OF assms(1-5) close_at_open [OF still joined released]])

text \<open>The world in which a body runs once the scope has accepted the release of a resource.\<close>

definition holding ::
  "nat \<Rightarrow> 'f \<Rightarrow> ('c, ('f, 'v, 'z) heap_scheme) state \<Rightarrow> ('f, 'v, 'z) heap_scheme \<Rightarrow> ('f, 'v, 'z) heap_scheme" where
  "holding k f st w = count_in_ledger record_acquisition st
     (put_scope k ((scope_in k w)\<lparr>finalizers := finalizers (scope_in k w) @ [f]\<rparr>) w)"

lemma acquire_release_accepted:
  assumes "\<not> has_observer (state_of I)" "acquire I w = Some (Inr a, w1)" "status (scope_in k w1) = ScopeOpen"
  shows "acquire_release h S k acquire closure I w = Some (Inr a, holding k (closure I a) (state_of I) w1)"
  using assms
  by (simp add: acquire_release_def with_exit_observer_def capture_def register_observer_def add_finalizer_at_def
      register_def holding_def no_observer_no_event)

lemma release_closure_runs:
  assumes "\<not> has_observer (state_of I)" "perform S f = release_closure I release a"
    and "release a w = Some (Inr fin, w1)" "fin (I\<lparr>context_of := ctx\<rparr>) w1 = Some (r, w2)"
  shows "run_closure h S ctx f x w = Some (cause_part r, count_in_ledger record_release (state_of I) w2)"
  using assms by (simp add: run_closure_def release_closure_def capture_def no_observer_no_event)

lemma scoped_bracket:
  fixes use :: "'a \<Rightarrow> ('v, 'c, ('f, 'v, 'z) heap_scheme, 'b) fx"
  assumes quiet: "\<not> has_observer (state_of I)"
    and opened: "new_scope_at h (context_of I) w = (k, w1)" "clock_now (services (state_of I)) w1 = (start, w2)"
    and inside: "I' = I\<lparr>context_of := child_context S (context_of I) k, state_of := with_scope k (state_of I)\<rparr>"
    and acquired: "acquire I' w2 = Some (Inr a, w3)"
    and fresh: "status (scope_in k w3) = ScopeOpen" "finalizers (scope_in k w3) = []"
    and program: "suspend_runtime h (\<lambda>_. program k) I' w2 =
      flat_map h (acquire_release h S k acquire closure) (pure use) I' w2"
    and f: "perform S (closure I' a) = release_closure I' release a"
    and u: "use a I' (holding k (closure I' a) (state_of I') w3) = Some (x, w4)"
    and s: "status (scope_in k w4) = ScopeOpen" "finalizers (scope_in k w4) = [closure I' a]"
    and j: "children_wait S k (closing_world S k (erase_exit any_of x) w4) = Some w5"
    and r: "release a w5 = Some (Inr fin, w6)"
      "fin (I'\<lparr>context_of := without_cancel h (context_of I')\<rparr>) w6 = Some (r, w7)"
    and w8: "w8 = count_in_ledger record_release (state_of I') w7"
  shows "scoped h S any_of program I w =
      Some (if cause_part r = Empty then x else Inl (then_cause (cause_part x) (cause_part r)),
        put_scope k ((scope_in k w8)\<lparr>status := ScopeClosed\<rparr>) w8)"
proof -
  have q: "\<not> has_observer (state_of I')" using quiet inside by (simp add: has_observer_def with_scope_def)
  have "suspend_runtime h (\<lambda>_. program k) I' w2 = Some (x, w4)"
    unfolding program
    using acquire_release_accepted [where acquire = acquire and h = h and S = S and closure = closure,
        OF q acquired fresh(1)] u
    by (simp add: fx_defs capture_def)
  moreover have "release_chain h S (without_cancel h (context_of I')) (rev [closure I' a]) (erase_exit any_of x) w5 =
      Some ([cause_part r], w8)"
    using release_closure_runs [where release = release and fin = fin, OF q f r] by (simp add: w8)
  ultimately show ?thesis
    using scoped_closes [where use = program and any_of = any_of, OF quiet opened inside _ s j]
    by (simp add: finish_close_def)
qed

text \<open>
  C2: a resource acquired in a scope is released exactly once, after the body that uses it and
  whatever its outcome: in the world the body's children left, with a context detached from
  cancellation, counted in the ledger, before the effect completes; the scope is closed then. The body's
  outcome is kept when the release has no cause, and otherwise the release's cause comes after the
  body's own. When acquiring fails, neither the body nor a release runs, and the failure is the outcome.
\<close>

theorem scoped_resource_is_released:
  fixes use :: "'a \<Rightarrow> ('v, 'c, ('f, 'v, 'z) heap_scheme, 'b) fx"
  assumes quiet: "\<not> has_observer (state_of I)"
    and opened: "new_scope_at h (context_of I) w = (k, w1)" "clock_now (services (state_of I)) w1 = (start, w2)"
    and inside: "I' = I\<lparr>context_of := child_context S (context_of I) k, state_of := with_scope k (state_of I)\<rparr>"
    and acquired: "acquire I' w2 = Some (acq, w3)"
    and fresh: "status (scope_in k w3) = ScopeOpen" "finalizers (scope_in k w3) = []"
    and program: "program = (\<lambda>k w. Some (Inr (flat_map h (acquire_release h S k acquire closure) (pure use)), w))"
  shows "case acq of
      Inr a \<Rightarrow> perform S (closure I' a) = release_closure I' release a
        \<and> use a I' (holding k (closure I' a) (state_of I') w3) = Some (x, w4)
        \<and> status (scope_in k w4) = ScopeOpen \<and> finalizers (scope_in k w4) = [closure I' a]
        \<and> children_wait S k (closing_world S k (erase_exit any_of x) w4) = Some w5
        \<and> release a w5 = Some (Inr fin, w6)
        \<and> fin (I'\<lparr>context_of := without_cancel h (context_of I')\<rparr>) w6 = Some (r, w7) \<longrightarrow>
        (let w8 = count_in_ledger record_release (state_of I') w7 in
         scoped h S any_of program I w =
           Some (if cause_part r = Empty then x else Inl (then_cause (cause_part x) (cause_part r)),
             put_scope k ((scope_in k w8)\<lparr>status := ScopeClosed\<rparr>) w8))
    | Inl c \<Rightarrow> children_wait S k (closing_world S k (Failed c) w3) = Some w5 \<longrightarrow>
        scoped h S any_of program I w = Some (Inl c, put_scope k ((scope_in k w5)\<lparr>status := ScopeClosed\<rparr>) w5)"
proof -
  have q: "\<not> has_observer (state_of I')" using quiet inside by (simp add: has_observer_def with_scope_def)
  show ?thesis
  proof (cases acq)
    case (Inl c)
    have body: "suspend_runtime h (\<lambda>_. program k) I' w2 = Some (Inl c, w3)"
      using acquired Inl by (simp add: program fx_defs capture_def acquire_release_def register_observer_def)
    show ?thesis
      using scoped_closes [where use = program and any_of = any_of and ?w4.0 = w5 and cs = "[]" and ?w5.0 = w5,
          OF quiet opened inside body fresh] Inl
      by (simp add: erase_exit_def finish_close_def)
  next
    case (Inr a)
    have p: "suspend_runtime h (\<lambda>_. program k) I' w2 = flat_map h (acquire_release h S k acquire closure) (pure use) I' w2"
      by (simp add: program fx_defs capture_def)
    show ?thesis
      using scoped_bracket [where use = use and program = program and closure = closure and acquire = acquire,
          OF quiet opened inside acquired [unfolded Inr] fresh p]
      by (simp add: Inr Let_def del: scope_in_def)
  qed
qed

text \<open>A world with a log: a resource that is opened, used by a body that panics, and closed.\<close>

record logged = "(string, string) heap" +
  log :: "string list"

definition logged_host :: "(string, bool, logged) host" where
  "logged_host = \<lparr>ctx_err = (\<lambda>cancelled w. ((if cancelled then Some (GoErr 0 ''cancelled'' []) else None, None), w)),
     stack_trace = (\<lambda>_. []), error_value = (\<lambda>t. t), string_value = (\<lambda>t. t), without_cancel = (\<lambda>_. False)\<rparr>"

definition logged_state :: "(bool, logged) state" where
  "logged_state = fst (new_state \<lparr>clock_now = (\<lambda>w. (0, w)), clock_sleep = (\<lambda>_ _ w. Some (None, w)),
     observer = None, diagnostics = None, config_source = None\<rparr> 0 (Some 0))"

definition logged_interp :: "(string, bool, logged) interp" where
  "logged_interp = \<lparr>context_of = False, state_of = logged_state, environment = []\<rparr>"

definition logging :: "string \<Rightarrow> 'a \<Rightarrow> (string, bool, logged, 'a) fx" where
  "logging line a = from_runtime logged_host (\<lambda>_ w. Some (Inr (Inr a), w\<lparr>log := log w @ [line]\<rparr>))"

definition logged_panic :: "(string, bool, logged, unit) fx" where
  "logged_panic = from_runtime logged_host (\<lambda>_ w. Some (Inl ''boom'', w))"

definition logged_release :: "string \<Rightarrow> (string, logged, (string, bool, logged, unit) fx) callback" where
  "logged_release name w = Some (Inr (logging (''close '' @ name) ()), w)"

definition logged_scopes :: "(string, bool, logged, string) scope_host" where
  "logged_scopes = \<lparr>child_context = (\<lambda>ctx _. ctx),
     perform = release_closure (logged_interp\<lparr>state_of := with_scope 0 logged_state\<rparr>) logged_release,
     children_wait = (\<lambda>_ w. Some w), scope_closed = Some (GoErr 1 ''effect: scope closed'' [])\<rparr>"

definition logged_world :: logged where
  "logged_world = \<lparr>scope_heap = (\<lambda>_. \<lparr>cell_scope = new_scope None, close_exit = Failed Empty\<rparr>), next_scope = 0,
     ledger_heap = (\<lambda>_. \<lparr>fiber_starts = 0, fiber_completions = 0, acquisitions = 0, releases = 0\<rparr>),
     identity_cell = \<lparr>next_span = 0, next_fiber = 0\<rparr>, log = []\<rparr>"

lemmas logged_defs = logged_host_def logged_state_def logged_interp_def logging_def logged_panic_def
  logged_release_def logged_scopes_def logged_world_def new_state_def

text \<open>The worlds it goes through: inside the scope, with the file, and closing.\<close>

definition inside_interp :: "(string, bool, logged) interp" where
  "inside_interp = logged_interp\<lparr>context_of := False, state_of := with_scope 0 logged_state\<rparr>"

definition entered_world :: logged where
  "entered_world = logged_world\<lparr>next_scope := 1\<rparr>"

definition opened_world :: logged where
  "opened_world = entered_world\<lparr>log := [''open file'']\<rparr>"

definition holding_world :: logged where
  "holding_world = holding 0 ''file'' (state_of inside_interp) opened_world"

definition boom :: "string cause + unit" where
  "boom = Inl (die_cause (capture_defect ''boom'' []))"

definition closing_file :: logged where
  "closing_file = closing_world logged_scopes 0 (erase_exit (\<lambda>_. []) boom) holding_world"

definition closed_file :: logged where
  "closed_file = closing_file\<lparr>log := log closing_file @ [''close file'']\<rparr>"

lemma logged_entry:
  "\<not> has_observer (state_of logged_interp)"
  "new_scope_at logged_host (context_of logged_interp) logged_world = (0, entered_world)"
  "clock_now (services (state_of logged_interp)) entered_world = (0, entered_world)"
  "inside_interp = logged_interp\<lparr>context_of := child_context logged_scopes (context_of logged_interp) 0,
     state_of := with_scope 0 (state_of logged_interp)\<rparr>"
  by (simp_all add: logged_defs has_observer_def new_scope_at_def entered_world_def inside_interp_def fun_eq_iff)

lemma logged_acquires:
  "logging ''open file'' ''file'' inside_interp entered_world = Some (Inr ''file'', opened_world)"
  "status (scope_in 0 opened_world) = ScopeOpen" "finalizers (scope_in 0 opened_world) = []"
  by (simp_all add: logged_defs fx_defs machine_interrupt_def capture_def inside_interp_def opened_world_def
      entered_world_def new_scope_def)

lemma logged_uses:
  "logged_panic inside_interp holding_world = Some (boom, holding_world)"
  "status (scope_in 0 holding_world) = ScopeOpen" "finalizers (scope_in 0 holding_world) = [''file'']"
  by (simp_all add: logged_defs fx_defs machine_interrupt_def capture_def boom_def inside_interp_def)
     (simp_all add: holding_def holding_world_def opened_world_def entered_world_def logged_world_def new_scope_def)

lemma logged_closes:
  "perform logged_scopes ''file'' = release_closure inside_interp logged_release ''file''"
  "children_wait logged_scopes 0 (closing_world logged_scopes 0 (erase_exit (\<lambda>_. []) boom) holding_world) = Some closing_file"
  "logged_release ''file'' closing_file = Some (Inr (logging ''close file'' ()), closing_file)"
  "logging ''close file'' () (inside_interp\<lparr>context_of := without_cancel logged_host (context_of inside_interp)\<rparr>) closing_file
     = Some (Inr (), closed_file)"
  by (simp_all add: logged_defs fx_defs machine_interrupt_def capture_def inside_interp_def closing_file_def
      closed_file_def)

lemma logged_closed:
  "log (put_scope 0 s (count_in_ledger record_release st closed_file)) = [''open file'', ''close file'']"
  by (simp add: put_scope_def put_close_exit_def closing_world_def holding_def count_in_ledger_def closed_file_def
      closing_file_def holding_world_def opened_world_def split: option.split)

theorem scoped_resource_is_released_witness:
  "map_option (map_prod id log) (scoped logged_host logged_scopes (\<lambda>_. [])
     (\<lambda>k w. Some (Inr (flat_map logged_host
        (acquire_release logged_host logged_scopes k (logging ''open file'' ''file'') (\<lambda>_ a. a))
        (pure (\<lambda>_. logged_panic))), w)) logged_interp logged_world)
   = Some (boom, [''open file'', ''close file''])"
  using scoped_resource_is_released [where use = "\<lambda>_. logged_panic" and closure = "\<lambda>_ a. a" and any_of = "\<lambda>_. []"
      and x = boom and release = logged_release and ?w4.0 = holding_world and ?w5.0 = closing_file and ?w6.0 = closing_file
      and ?w7.0 = closed_file and r = "Inr ()" and fin = "logging ''close file'' ()"
      and acquire = "logging ''open file'' ''file''", OF logged_entry logged_acquires refl]
    logged_uses logged_closes
  by (simp add: Let_def holding_world_def [symmetric] logged_closed del: scope_in_def)

end
