(* ===== verification/Retry.thy ===== *)
theory Retry
  imports Effects Recurrence
begin

section \<open>Retrying and repeating\<close>

text \<open>
  Models \<^verbatim>\<open>effect/retry.go\<close>, \<^verbatim>\<open>retry_driver.go\<close>, \<^verbatim>\<open>schedule_events.go\<close> and \<^verbatim>\<open>clock.go\<close>: an effect run
  again under the control of a schedule's driver, with waits on the runtime clock and an event per
  attempt. The driver and the attempt's progress are allocated per run and written only by the loop,
  so they are its arguments; the exit observer reads the progress the loop ended with. A policy may
  recur for ever, so both loops are \<open>partial_function\<close>s, and that they return is a theorem.
\<close>

subsection \<open>The clock\<close>

definition now_fx :: "('v, 'c, 'w) host \<Rightarrow> ('v, 'c, 'w, int) fx" where
  "now_fx h = from_runtime h (\<lambda>I w. case clock_now (services (state_of I)) w of (t, w') \<Rightarrow> Some (Inr (Inr t), w'))"

definition sleep :: "('v, 'c, 'w) host \<Rightarrow> int \<Rightarrow> ('v, 'c, 'w, unit) fx" where
  "sleep h d = from_runtime h (\<lambda>I w.
     case clock_sleep (services (state_of I)) (context_of I) d w of
       None \<Rightarrow> None
     | Some (err, w1) \<Rightarrow>
         (case interruption_reason h (context_of I) w1 of
            (Some r, w2) \<Rightarrow> Some (Inr (Inl (interrupt_cause (Some r))), w2)
          | (None, w2) \<Rightarrow>
              (case err of
                 Some e \<Rightarrow> Some (Inl (error_value h (''effect: Clock.Sleep failed: '' @ err_text e)), w2)
               | None \<Rightarrow> Some (Inr (Inr ()), w2))))"

definition delay_fx :: "('v, 'c, 'w) host \<Rightarrow> ('v, 'c, 'w, 'a) fx \<Rightarrow> int \<Rightarrow> ('v, 'c, 'w, 'a) fx" where
  "delay_fx h fx d = and_then h (sleep h d) fx"

subsection \<open>Attempt events\<close>

type_synonym ('c, 'w) attempt_event = "('c, 'w) state \<Rightarrow> 'w \<Rightarrow> runtime_event \<times> 'w"

definition attempt_event_of :: "event_kind \<Rightarrow> nat \<Rightarrow> int \<Rightarrow> event_status \<Rightarrow> ('c, 'w) attempt_event" where
  "attempt_event_of k n d status st w =
     (case event k st w of (ev, w') \<Rightarrow> (ev\<lparr>ev_attempt := n, ev_delay := d, ev_status := status\<rparr>, w'))"

definition retry_scheduled_event :: "nat \<Rightarrow> int \<Rightarrow> ('c, 'w) attempt_event" where
  "retry_scheduled_event n d = attempt_event_of RetryScheduled n d StatusFailure"

definition retry_exhausted_event :: "nat \<Rightarrow> ('c, 'w) attempt_event" where
  "retry_exhausted_event n = attempt_event_of RetryExhausted n 0 StatusFailure"

definition retry_succeeded_event :: "nat \<Rightarrow> ('c, 'w) attempt_event" where
  "retry_succeeded_event n = attempt_event_of RetrySucceeded n 0 StatusSuccess"

definition repeat_scheduled_event :: "nat \<Rightarrow> int \<Rightarrow> ('c, 'w) attempt_event" where
  "repeat_scheduled_event n d = attempt_event_of RepeatScheduled n d StatusSuccess"

definition repeat_completed_event :: "nat \<Rightarrow> ('c, 'w) attempt_event" where
  "repeat_completed_event n = attempt_event_of RepeatCompleted n 0 StatusSuccess"

definition emit_attempt :: "'c \<Rightarrow> ('c, 'w) state \<Rightarrow> ('c, 'w) attempt_event \<Rightarrow> 'w \<Rightarrow> 'w" where
  "emit_attempt ctx st describe w =
     (if \<not> has_observer st then w else case describe st w of (ev, w') \<Rightarrow> emit ctx ev st w')"

subsection \<open>Retry\<close>

record attempt_progress =
  number :: nat
  repeated :: bool

text \<open>What one failed attempt leads to: another attempt after a wait, or the end of the loop.\<close>

partial_function (option) retry_attempt ::
  "('v, 'c, 'w) host \<Rightarrow> ('v, 'c, 'w, 'a) fx \<Rightarrow> ('i, 'o) step \<Rightarrow> ('v cause \<Rightarrow> 'i option)
     \<Rightarrow> ('v cause \<Rightarrow> 'i \<Rightarrow> 'o \<Rightarrow> ('v, 'w, ('v, 'c, 'w, 'a) fx) callback) \<Rightarrow> attempt_progress
     \<Rightarrow> ('v, 'c, 'w) interp \<Rightarrow> 'w \<Rightarrow> ((('v cause + 'a) \<times> attempt_progress) \<times> 'w) option" where
  "retry_attempt h fx driver eligible exhaust progress I w =
     (case fx I w of
        None \<Rightarrow> None
      | Some (Inr a, w1) \<Rightarrow> Some ((Inr a, progress), w1)
      | Some (Inl c, w1) \<Rightarrow>
          (case eligible c of
             None \<Rightarrow> map_option (\<lambda>(x, w'). ((x, progress), w')) (fail_with_cause h c I w1)
           | Some input \<Rightarrow>
               (case interruption_reason h (context_of I) w1 of
                  (Some reason, w2) \<Rightarrow>
                    map_option (\<lambda>(x, w'). ((x, progress), w'))
                      (fail_with_cause h (interrupt_cause (Some reason)) I w2)
                | (None, w2) \<Rightarrow>
                    (case clock_now (services (state_of I)) w2 of
                       (now, w3) \<Rightarrow>
                         if \<not> continues (fst (driver_next driver now input))
                         then map_option (\<lambda>(x, w'). ((x, progress), w'))
                           (let w4 = emit_attempt (context_of I) (state_of I) (retry_exhausted_event (number progress)) w3
                            in guarded h (exhaust c input (emitted (fst (driver_next driver now input))) w4) (\<lambda>fx. fx I))
                         else
                           (case sleep h (delay (fst (driver_next driver now input))) I
                               (emit_attempt (context_of I) (state_of I)
                                 (retry_scheduled_event (number progress) (delay (fst (driver_next driver now input)))) w3) of
                              None \<Rightarrow> None
                            | Some (Inl c', w5) \<Rightarrow>
                                Some ((Inl c', \<lparr>number = next_count (number progress), repeated = True\<rparr>), w5)
                            | Some (Inr _, w5) \<Rightarrow>
                                retry_attempt h fx (snd (driver_next driver now input)) eligible exhaust
                                  \<lparr>number = next_count (number progress), repeated = True\<rparr> I w5)))))"

definition report_retry_outcome ::
  "('v, 'c, 'w) interp \<Rightarrow> 'v cause + 'a \<Rightarrow> attempt_progress \<Rightarrow> 'w \<Rightarrow> 'w" where
  "report_retry_outcome I x progress w =
     (if \<not> isl x \<and> repeated progress
      then emit_attempt (context_of I) (state_of I) (retry_succeeded_event (number progress)) w
      else w)"

definition retry_loop ::
  "('v, 'c, 'w) host \<Rightarrow> ('v, 'c, 'w, 'a) fx \<Rightarrow> ('i, 'o) schedule \<Rightarrow> ('v cause \<Rightarrow> 'i option)
     \<Rightarrow> ('v cause \<Rightarrow> 'i \<Rightarrow> 'o \<Rightarrow> ('v, 'w, ('v, 'c, 'w, 'a) fx) callback) \<Rightarrow> ('v, 'c, 'w, 'a) fx" where
  "retry_loop h fx policy eligible exhaust =
     suspend_runtime h (\<lambda>_ w.
       case policy of
         None \<Rightarrow> Some (Inl (string_value h ''effect: zero Schedule has no driver''), w)
       | Some driver \<Rightarrow>
           Some (Inr (\<lambda>I w. map_option (\<lambda>((x, progress), w'). (x, report_retry_outcome I x progress w'))
             (retry_attempt h fx driver eligible exhaust \<lparr>number = 1, repeated = False\<rparr> I w)), w))"

definition all_typed_failures :: "'v cause \<Rightarrow> 'v cause option" where
  "all_typed_failures c = (if is_failure_only c then Some c else None)"

definition preserve_last_failure ::
  "('v, 'c, 'w) host \<Rightarrow> 'v cause \<Rightarrow> 'i \<Rightarrow> 'o \<Rightarrow> ('v, 'w, ('v, 'c, 'w, 'a) fx) callback" where
  "preserve_last_failure h c _ _ w = Some (Inr (fail_with_cause h c), w)"

definition retry :: "('v, 'c, 'w) host \<Rightarrow> ('v, 'c, 'w, 'a) fx \<Rightarrow> ('v, 'o) schedule \<Rightarrow> ('v, 'c, 'w, 'a) fx" where
  "retry h fx policy = retry_loop h fx policy failure_of (preserve_last_failure h)"

definition retry_cause ::
  "('v, 'c, 'w) host \<Rightarrow> ('v, 'c, 'w, 'a) fx \<Rightarrow> ('v cause, 'o) schedule \<Rightarrow> ('v, 'c, 'w, 'a) fx" where
  "retry_cause h fx policy = retry_loop h fx policy all_typed_failures (preserve_last_failure h)"

definition retry_n :: "('v, 'c, 'w) host \<Rightarrow> ('v, 'c, 'w, 'a) fx \<Rightarrow> nat \<Rightarrow> ('v, 'c, 'w, 'a) fx" where
  "retry_n h fx n = retry h fx (recurs n)"

definition retry_or_else ::
  "('v, 'c, 'w) host \<Rightarrow> ('v, 'c, 'w, 'a) fx \<Rightarrow> ('v, 'o) schedule
     \<Rightarrow> ('v \<Rightarrow> 'o \<Rightarrow> ('v, 'w, ('v, 'c, 'w, 'a) fx) callback) \<Rightarrow> ('v, 'c, 'w, 'a) fx" where
  "retry_or_else h fx policy otherwise = retry_loop h fx policy failure_of (\<lambda>_. otherwise)"

subsection \<open>Repeat\<close>

partial_function (option) repeat_run ::
  "('v, 'c, 'w) host \<Rightarrow> ('v, 'c, 'w, 'a) fx \<Rightarrow> ('a, 'o) step \<Rightarrow> nat \<Rightarrow> ('v, 'c, 'w) interp \<Rightarrow> 'w
     \<Rightarrow> (('v cause + 'o) \<times> 'w) option" where
  "repeat_run h fx driver n I w =
     (case fx I w of
        None \<Rightarrow> None
      | Some (Inl c, w1) \<Rightarrow> Some (Inl c, w1)
      | Some (Inr a, w1) \<Rightarrow>
          (case clock_now (services (state_of I)) w1 of
             (now, w2) \<Rightarrow>
               if \<not> continues (fst (driver_next driver now a))
               then succeed h (emitted (fst (driver_next driver now a))) I
                 (emit_attempt (context_of I) (state_of I) (repeat_completed_event n) w2)
               else
                 (case sleep h (delay (fst (driver_next driver now a))) I
                     (emit_attempt (context_of I) (state_of I)
                       (repeat_scheduled_event n (delay (fst (driver_next driver now a)))) w2) of
                    None \<Rightarrow> None
                  | Some (Inl c, w3) \<Rightarrow> Some (Inl c, w3)
                  | Some (Inr _, w3) \<Rightarrow> repeat_run h fx (snd (driver_next driver now a)) (next_count n) I w3)))"

definition repeat_fx :: "('v, 'c, 'w) host \<Rightarrow> ('v, 'c, 'w, 'a) fx \<Rightarrow> ('a, 'o) schedule \<Rightarrow> ('v, 'c, 'w, 'o) fx" where
  "repeat_fx h fx policy =
     suspend_runtime h (\<lambda>_ w.
       case policy of
         None \<Rightarrow> Some (Inl (string_value h ''effect: zero Schedule has no driver''), w)
       | Some driver \<Rightarrow> Some (Inr (repeat_run h fx driver 1), w))"

subsection \<open>Services that leave the count of runs alone\<close>

text \<open>
  \<open>runs\<close> reads from the world how often the effect was run. The services a loop uses beside the
  effect -- the context, the clock, the observer -- do not run it, and the clock's waits return.
\<close>

definition quiet :: "('v, 'c, 'w) host \<Rightarrow> ('c, 'w) state \<Rightarrow> ('w \<Rightarrow> nat) \<Rightarrow> bool" where
  "quiet h st runs \<longleftrightarrow>
     (\<forall>c w. runs (snd (ctx_err h c w)) = runs w)
     \<and> (\<forall>w. runs (snd (clock_now (services st) w)) = runs w)
     \<and> (\<forall>c d w. \<exists>e w'. clock_sleep (services st) c d w = Some (e, w') \<and> runs w' = runs w)
     \<and> (\<forall>ob c e w. observer (services st) = Some ob \<longrightarrow> runs (snd (ob c e w)) = runs w)
     \<and> (\<forall>di c e w. diagnostics (services st) = Some di \<longrightarrow> runs (snd (di c e w)) = runs w)"

lemma quiet_now: "quiet h st runs \<Longrightarrow> clock_now (services st) w = (t, w') \<Longrightarrow> runs w' = runs w"
  unfolding quiet_def by (metis snd_conv)

lemma quiet_reason: "quiet h st runs \<Longrightarrow> interruption_reason h c w = (r, w') \<Longrightarrow> runs w' = runs w"
  unfolding quiet_def interruption_reason_def by (auto split: prod.splits option.splits) (metis snd_conv)+

lemma quiet_interrupt: "quiet h st runs \<Longrightarrow> machine_interrupt h c w = (r, w') \<Longrightarrow> runs w' = runs w"
  unfolding quiet_def machine_interrupt_def by (auto split: prod.splits option.splits) (metis snd_conv)+

lemma quiet_emit: "quiet h st runs \<Longrightarrow> runs (emit c ev st w) = runs w"
  unfolding quiet_def emit_def report_def by (auto split: prod.splits option.splits) (metis snd_conv)+

lemma quiet_event: "quiet h st runs \<Longrightarrow> event k st w = (ev, w') \<Longrightarrow> runs w' = runs w"
  by (auto simp: event_def quiet_now split: prod.splits)

lemma quiet_attempt:
  "quiet h st runs \<Longrightarrow> runs (emit_attempt c st (attempt_event_of k n d status) w) = runs w"
  by (auto simp: emit_attempt_def attempt_event_of_def quiet_emit quiet_event split: prod.splits)

lemmas attempt_events = retry_scheduled_event_def retry_exhausted_event_def retry_succeeded_event_def
  repeat_scheduled_event_def repeat_completed_event_def

lemma quiet_sleep:
  assumes "quiet h (state_of I) runs"
  shows "\<exists>x w'. sleep h d I w = Some (x, w') \<and> runs w' = runs w"
proof -
  obtain r w1 where i: "machine_interrupt h (context_of I) w = (r, w1)" by fastforce
  obtain e w2 where s: "clock_sleep (services (state_of I)) (context_of I) d w1 = Some (e, w2)" "runs w2 = runs w1"
    using assms unfolding quiet_def by blast
  obtain q w3 where q: "interruption_reason h (context_of I) w2 = (q, w3)" by fastforce
  have "runs w1 = runs w" "runs w3 = runs w2"
    using quiet_interrupt [OF assms i] quiet_reason [OF assms q] by simp_all
  with i s q show ?thesis
    by (cases r; cases q; cases e) (simp_all add: sleep_def fx_defs capture_def)
qed

lemma quiet_fail_with_cause:
  assumes "quiet h (state_of I) runs"
  shows "\<exists>x w'. fail_with_cause h c I w = Some (x, w') \<and> runs w' = runs w"
proof -
  obtain r w1 where i: "machine_interrupt h (context_of I) w = (r, w1)" by fastforce
  with quiet_interrupt [OF assms i] show ?thesis by (cases r) (simp_all add: fx_defs)
qed

subsection \<open>A counted policy runs the effect at most once more than its count\<close>

lemma count_step_driver:
  "driver_next (count_step c d limit) now i =
     (if limit \<noteq> None \<and> c \<ge> the limit then stop_schedule c else continue_schedule c d,
      count_step (next_count c) d limit)"
  by (simp add: driver_next_def)

text \<open>The branches of one attempt.\<close>

lemma retry_attempt_succeeds:
  "fx I w = Some (Inr a, w1) \<Longrightarrow> retry_attempt h fx driver eligible exhaust p I w = Some ((Inr a, p), w1)"
  by (subst retry_attempt.simps) simp

lemma retry_attempt_ineligible:
  "fx I w = Some (Inl c, w1) \<Longrightarrow> eligible c = None \<Longrightarrow>
   retry_attempt h fx driver eligible exhaust p I w =
     map_option (\<lambda>(x, w'). ((x, p), w')) (fail_with_cause h c I w1)"
  by (subst retry_attempt.simps) simp

lemma retry_attempt_interrupted:
  "fx I w = Some (Inl c, w1) \<Longrightarrow> eligible c = Some i \<Longrightarrow>
   interruption_reason h (context_of I) w1 = (Some reason, w2) \<Longrightarrow>
   retry_attempt h fx driver eligible exhaust p I w =
     map_option (\<lambda>(x, w'). ((x, p), w')) (fail_with_cause h (interrupt_cause (Some reason)) I w2)"
  by (subst retry_attempt.simps) simp

lemma retry_attempt_decides:
  assumes "fx I w = Some (Inl c, w1)" "eligible c = Some i"
    "interruption_reason h (context_of I) w1 = (None, w2)" "clock_now (services (state_of I)) w2 = (now, w3)"
    "driver_next driver now i = (dec, driver')"
  shows "retry_attempt h fx driver eligible exhaust p I w =
     (if \<not> continues dec
      then map_option (\<lambda>(x, w'). ((x, p), w'))
        (guarded h (exhaust c i (emitted dec)
           (emit_attempt (context_of I) (state_of I) (retry_exhausted_event (number p)) w3)) (\<lambda>fx. fx I))
      else
        (case sleep h (delay dec) I
            (emit_attempt (context_of I) (state_of I) (retry_scheduled_event (number p) (delay dec)) w3) of
           None \<Rightarrow> None
         | Some (Inl c', w5) \<Rightarrow> Some ((Inl c', \<lparr>number = next_count (number p), repeated = True\<rparr>), w5)
         | Some (Inr _, w5) \<Rightarrow>
             retry_attempt h fx driver' eligible exhaust
               \<lparr>number = next_count (number p), repeated = True\<rparr> I w5))"
  using assms by (subst retry_attempt.simps) (simp add: Let_def split: option.split sum.split)

lemma retry_attempt_counted:
  fixes fx :: "('v, 'c, 'w, 'a) fx"
  assumes quiet: "quiet h (state_of I) runs" and n: "n < max_count" and "c \<le> n"
    and run: "\<And>w. \<exists>x w'. fx I w = Some (x, w') \<and> runs w' \<le> runs w + 1"
    and give_up: "\<And>c i e w. \<exists>x w'. guarded h (exhaust c i e w) (\<lambda>fx. fx I) = Some (x, w') \<and> runs w' = runs w"
  shows "\<exists>x p w'. retry_attempt h fx (count_step c 0 (Some n)) eligible exhaust progress I w = Some ((x, p), w')
    \<and> runs w' \<le> runs w + (n - c) + 1"
  using assms(3)
proof (induction "n - c" arbitrary: c progress w rule: less_induct)
  case less
  obtain x w1 where fx: "fx I w = Some (x, w1)" and w1: "runs w1 \<le> runs w + 1" using run by blast
  show ?case
  proof (cases x)
    case (Inr a)
    with fx w1 show ?thesis by (simp add: retry_attempt_succeeds)
  next
    case (Inl cause)
    note fx = fx [unfolded Inl]
    show ?thesis
    proof (cases "eligible cause")
      case None
      obtain y :: "'v cause + 'a" and w2 where "fail_with_cause h cause I w1 = Some (y, w2)" "runs w2 = runs w1"
        using quiet_fail_with_cause [OF quiet] by blast
      with None fx w1 show ?thesis by (simp add: retry_attempt_ineligible)
    next
      case (Some i)
      obtain r w2 where r: "interruption_reason h (context_of I) w1 = (r, w2)" by fastforce
      obtain now w3 where now: "clock_now (services (state_of I)) w2 = (now, w3)" by fastforce
      have w3: "runs w2 = runs w1" "runs w3 = runs w1"
        using quiet_reason [OF quiet r] quiet_now [OF quiet now] by simp_all
      show ?thesis
      proof (cases r)
        case (Some reason)
        obtain y :: "'v cause + 'a" and w4 where "fail_with_cause h (interrupt_cause (Some reason)) I w2 = Some (y, w4)" "runs w4 = runs w2"
          using quiet_fail_with_cause [OF quiet] by blast
        with Some fx \<open>eligible cause = Some i\<close> r w1 w3 show ?thesis by (simp add: retry_attempt_interrupted)
      next
        case None
        note step = retry_attempt_decides [where fx = fx and I = I and w = w and eligible = eligible
            and exhaust = exhaust and p = progress, OF fx Some r [unfolded None] now count_step_driver [of c 0 "Some n"]]
        show ?thesis
        proof (cases "c = n")
          case True
          let ?w = "emit_attempt (context_of I) (state_of I) (retry_exhausted_event (number progress)) w3"
          obtain y w4 where "guarded h (exhaust cause i n ?w) (\<lambda>fx. fx I) = Some (y, w4)" "runs w4 = runs ?w"
            using give_up by blast
          with step True w1 w3 quiet_attempt [OF quiet] show ?thesis
            by (simp add: stop_schedule_def attempt_events)
        next
          case False
          let ?w = "emit_attempt (context_of I) (state_of I) (retry_scheduled_event (number progress) 0) w3"
          obtain y w4 where sl: "sleep h 0 I ?w = Some (y, w4)" "runs w4 = runs ?w"
            using quiet_sleep [OF quiet] by blast
          have w4: "runs w4 = runs w1" using sl(2) w3 quiet_attempt [OF quiet] by (simp add: attempt_events)
          have c: "c < n" "next_count c = Suc c" using False less.prems n by (auto simp: next_count_def)
          then have "n - Suc c < n - c" "Suc c \<le> n" by auto
          from less.hyps [OF this, of "\<lparr>number = next_count (number progress), repeated = True\<rparr>" w4]
          show ?thesis using step sl(1) w1 w4 c
            by (cases y) (auto simp: continue_schedule_def)
        qed
      qed
    qed
  qed
qed

lemma retry_loop_started:
  "retry_loop h fx (Some driver) eligible exhaust I w =
     map_option (\<lambda>((x, progress), w'). (x, report_retry_outcome I x progress w'))
       (retry_attempt h fx driver eligible exhaust \<lparr>number = 1, repeated = False\<rparr> I w)"
  by (simp add: retry_loop_def fx_defs capture_def)

text \<open>
  C8: with services that do not run the effect themselves and waits that return, \<open>RetryN(count)\<close> of an
  effect that returns always returns, and has run the effect at most \<open>count + 1\<close> times (\<open>extra\<close> is the count).
\<close>

theorem retry_n_returns_within_bound:
  assumes "quiet h (state_of I) runs" "extra < max_count"
    and run: "\<forall>w. \<exists>x w'. fx I w = Some (x, w') \<and> runs w' \<le> runs w + 1"
  shows "\<exists>x w'. retry_n h fx extra I w = Some (x, w') \<and> runs w' \<le> runs w + extra + 1"
proof -
  have give_up: "\<exists>x w'. guarded h (preserve_last_failure h c i e w) (\<lambda>fx. fx I) = Some (x, w') \<and> runs w' = runs w"
    for c w and i :: 'v and e :: nat
    using quiet_fail_with_cause [OF assms(1)] by (simp add: preserve_last_failure_def guarded_def capture_def)
  obtain x p w' where "retry_attempt h fx (count_step 0 0 (Some extra)) failure_of (preserve_last_failure h)
      \<lparr>number = 1, repeated = False\<rparr> I w = Some ((x, p), w')" "runs w' \<le> runs w + extra + 1"
    using retry_attempt_counted [where c = 0 and fx = fx and eligible = failure_of and exhaust = "preserve_last_failure h"
        and progress = "\<lparr>number = 1, repeated = False\<rparr>" and w = w, OF assms(1,2) _ _ give_up] run
    by auto
  then show ?thesis
    using quiet_attempt [OF assms(1)]
    by (simp add: retry_n_def retry_def recurs_def retry_loop_started report_retry_outcome_def attempt_events)
qed

definition flaky :: "(string, bool, string list, unit) fx" where
  "flaky = from_runtime plain_host (\<lambda>_ log. Some (Inr (Inl (fail_cause ''no'')), log @ [''try'']))"

lemma plain_quiet: "quiet plain_host (state_of plain_interp) length"
  by (simp add: quiet_def plain_host_def plain_interp_def new_state_def)

theorem retry_n_returns_within_bound_witness:
  "\<exists>x w'. retry_n plain_host flaky 2 plain_interp [] = Some (x, w') \<and> length w' \<le> length ([] :: string list) + 2 + 1"
proof (rule retry_n_returns_within_bound [OF plain_quiet])
  show "\<forall>w. \<exists>x w'. flaky plain_interp w = Some (x, w') \<and> length w' \<le> length w + 1"
    by (simp add: flaky_def fx_defs machine_interrupt_def plain_host_def plain_interp_def capture_def)
qed (simp add: max_count_def)

lemma fail_with_cause_fails: "fail_with_cause h c I w = Some (x, w') \<Longrightarrow> isl x"
  by (auto simp: fx_defs split: prod.splits option.splits)

lemma report_failed:
  "(\<And>x w'. r = Some (x, w') \<Longrightarrow> isl x) \<Longrightarrow>
   map_option (\<lambda>((x, progress), w'). (x, report_retry_outcome I x progress w'))
     (map_option (\<lambda>(x, w'). ((x, p), w')) r) = r"
  by (cases r) (auto simp: report_retry_outcome_def)



end
