(* ===== verification/Stream_Pulls.thy ===== *)
theory Stream_Pulls
  imports Effects
begin

section \<open>Chunks, steps and pulls\<close>

text \<open>
  Models \<^verbatim>\<open>effect/chunk.go\<close>, the steps and pulls of \<^verbatim>\<open>effect/stream.go\<close>, what the transforms of
  \<^verbatim>\<open>stream_transform.go\<close> do to a pull, the loops of \<^verbatim>\<open>stream_run.go\<close> and \<open>ForEach\<close> of
  \<^verbatim>\<open>collections.go\<close>. Streams, which open pulls in a scope, are in theory \<open>Streams\<close>.

  A pull is an effect that closes over per-run state: evaluating it answers a step and leaves a pull
  that goes on from there, so pulls are a codatatype of resumptions. Every source and transform
  is a machine with an explicit state, unfolded into a pull; the state is what the closure of the
  code captures. Functions given to a transform are pure here: a panic in one is a defect by the
  guards of the interpreter.
\<close>

named_theorems stream_defs \<open>definitions of sources, transforms and stages\<close>

subsection \<open>Chunks\<close>

type_synonym 'a chunk = "'a list"

definition map_chunk :: "('a \<Rightarrow> 'b) \<Rightarrow> 'a chunk \<Rightarrow> 'b chunk" where
  "map_chunk f c = foldl (\<lambda>vs v. vs @ [f v]) [] c"

definition fold_chunk :: "'a chunk \<Rightarrow> 's \<Rightarrow> ('s \<Rightarrow> 'a \<Rightarrow> 's) \<Rightarrow> 's" where
  "fold_chunk c s f = foldl f s c"

definition filter_chunk :: "('a \<Rightarrow> bool) \<Rightarrow> 'a chunk \<Rightarrow> 'a chunk" where
  "filter_chunk keep c = foldl (\<lambda>vs v. if keep v then vs @ [v] else vs) [] c"

definition take_first :: "int \<Rightarrow> 'a chunk \<Rightarrow> 'a chunk" where
  "take_first n c = (if n \<ge> int (length c) then c else if n < 1 then [] else take (nat n) c)"

definition drop_first :: "int \<Rightarrow> 'a chunk \<Rightarrow> 'a chunk" where
  "drop_first n c = (if n \<ge> int (length c) then [] else if n < 1 then c else drop (nat n) c)"

fun take_while_from :: "('a \<Rightarrow> bool) \<Rightarrow> 'a chunk \<Rightarrow> nat \<Rightarrow> 'a chunk \<Rightarrow> 'a chunk \<times> bool" where
  "take_while_from keep c i [] = (c, False)"
| "take_while_from keep c i (v # vs) =
     (if \<not> keep v then (take i c, True) else take_while_from keep c (Suc i) vs)"

definition take_while_chunk :: "('a \<Rightarrow> bool) \<Rightarrow> 'a chunk \<Rightarrow> 'a chunk \<times> bool" where
  "take_while_chunk keep c = take_while_from keep c 0 c"

lemma map_chunk_map [simp]: "map_chunk f c = map f c"
proof -
  have "foldl (\<lambda>vs v. vs @ [f v]) acc c = acc @ map f c" for acc by (induction c arbitrary: acc) simp_all
  then show ?thesis by (simp add: map_chunk_def)
qed

lemma filter_chunk_filter [simp]: "filter_chunk keep c = filter keep c"
proof -
  have "foldl (\<lambda>vs v. if keep v then vs @ [v] else vs) acc c = acc @ filter keep c" for acc
    by (induction c arbitrary: acc) simp_all
  then show ?thesis by (simp add: filter_chunk_def)
qed

lemma take_first_take [simp]: "take_first n c = take (nat n) c"
  by (auto simp: take_first_def)

lemma drop_first_drop [simp]: "drop_first n c = drop (nat n) c"
  by (auto simp: drop_first_def)

lemma take_while_chunk_takeWhile [simp]:
  "take_while_chunk keep c = (takeWhile keep c, \<not> list_all keep c)"
proof -
  have "take_while_from keep (pre @ vs) (length pre) vs = (pre @ takeWhile keep vs, \<not> list_all keep vs)" for pre vs
  proof (induction vs arbitrary: pre)
    case (Cons v vs)
    from Cons [of "pre @ [v]"] show ?case by simp
  qed simp
  from this [of "[]"] show ?thesis by (simp add: take_while_chunk_def)
qed

subsection \<open>Steps and pulls\<close>

record 'a stream_step =
  chunk :: "'a chunk"
  has_more :: bool

definition emit_chunk :: "'a chunk \<Rightarrow> 'a stream_step" where
  "emit_chunk c = \<lparr>chunk = c, has_more = True\<rparr>"

definition end_of_stream :: "'a stream_step" where
  "end_of_stream = \<lparr>chunk = [], has_more = False\<rparr>"

codatatype ('v, 'c, 'w, 'a) pull = Pull
  (pull_next: "('v, 'c, 'w) interp \<Rightarrow> 'w \<Rightarrow> ((('v cause + 'a stream_step) \<times> ('v, 'c, 'w, 'a) pull) \<times> 'w) option")

type_synonym ('s, 'v, 'c, 'w, 'a) machine =
  "'s \<Rightarrow> ('v, 'c, 'w) interp \<Rightarrow> 'w \<Rightarrow> ((('v cause + 'a stream_step) \<times> 's) \<times> 'w) option"

primcorec unfold_pull :: "('s, 'v, 'c, 'w, 'a) machine \<Rightarrow> 's \<Rightarrow> ('v, 'c, 'w, 'a) pull" where
  "pull_next (unfold_pull f s) = (\<lambda>I w. map_option (map_prod (map_prod id (unfold_pull f)) id) (f s I w))"

text \<open>A step answered without touching the state.\<close>

definition keeping :: "'s \<Rightarrow> (('v cause + 'a stream_step) \<times> 'w) option
    \<Rightarrow> ((('v cause + 'a stream_step) \<times> 's) \<times> 'w) option" where
  "keeping s r = map_option (\<lambda>(x, w). ((x, s), w)) r"

subsection \<open>Sources\<close>

definition repeated_pull :: "('v, 'c, 'w, 'a stream_step) fx \<Rightarrow> ('v, 'c, 'w, 'a) pull" where
  [stream_defs]: "repeated_pull fx = unfold_pull (\<lambda>s I w. keeping s (fx I w)) ()"

definition chunks_pull :: "('v, 'c, 'w) host \<Rightarrow> 'a chunk list \<Rightarrow> ('v, 'c, 'w, 'a) pull" where
  [stream_defs]: "chunks_pull h cs =
     unfold_pull (\<lambda>rest. case rest of
         [] \<Rightarrow> \<lambda>I w. keeping [] (succeed h end_of_stream I w)
       | c # rest' \<Rightarrow> \<lambda>I w.
           (case machine_interrupt h (context_of I) w of
              (Some r, w') \<Rightarrow> Some ((Inl r, rest), w')
            | (None, w') \<Rightarrow> Some ((Inr (emit_chunk c), rest'), w'))) cs"

definition effect_pull :: "('v, 'c, 'w) host \<Rightarrow> ('v, 'c, 'w, 'a) fx \<Rightarrow> ('v, 'c, 'w, 'a) pull" where
  [stream_defs]: "effect_pull h fx =
     unfold_pull (\<lambda>spent I w.
       if spent then keeping spent (succeed h end_of_stream I w)
       else keeping True (map_fx h fx (pure (\<lambda>v. emit_chunk [v])) I w)) False"

definition batch_step :: "'a list \<Rightarrow> 'a stream_step" where
  "batch_step batch = (if batch = [] then end_of_stream else emit_chunk batch)"

subsection \<open>Transforms\<close>

definition rewrite_pull :: "('a stream_step \<Rightarrow> 'b stream_step) \<Rightarrow> ('v, 'c, 'w, 'a) pull \<Rightarrow> ('v, 'c, 'w, 'b) pull" where
  "rewrite_pull rewrite p =
     unfold_pull (\<lambda>p I w. map_option (map_prod (map_prod (map_sum id rewrite) id) id) (pull_next p I w)) p"

definition map_pull_chunks :: "('a chunk \<Rightarrow> 'b chunk) \<Rightarrow> ('v, 'c, 'w, 'a) pull \<Rightarrow> ('v, 'c, 'w, 'b) pull" where
  "map_pull_chunks f = rewrite_pull (\<lambda>s. if \<not> has_more s then end_of_stream else emit_chunk (f (chunk s)))"

text \<open>\<open>ForEach\<close>: the chain is built from all inputs before any of it runs.\<close>

fun for_each_chain ::
  "('v, 'c, 'w) host \<Rightarrow> ('a \<Rightarrow> ('v, 'w, ('v, 'c, 'w, 'b) fx) callback) \<Rightarrow> 'a list \<Rightarrow> ('v, 'c, 'w, 'b list) fx
     \<Rightarrow> ('v, 'w, ('v, 'c, 'w, 'b list) fx) callback" where
  "for_each_chain h f [] accumulator w = Some (Inr accumulator, w)"
| "for_each_chain h f (a # as) accumulator w =
     (case f a w of
        None \<Rightarrow> None
      | Some (Inl p, w') \<Rightarrow> Some (Inl p, w')
      | Some (Inr one, w') \<Rightarrow>
          for_each_chain h f as
            (flat_map h accumulator (pure (\<lambda>vs. map_fx h one (pure (\<lambda>v. vs @ [v]))))) w')"

definition for_each ::
  "('v, 'c, 'w) host \<Rightarrow> 'a list \<Rightarrow> ('a \<Rightarrow> ('v, 'w, ('v, 'c, 'w, 'b) fx) callback) \<Rightarrow> ('v, 'c, 'w, 'b list) fx" where
  "for_each h inputs f = suspend_runtime h (\<lambda>I w. for_each_chain h f inputs (succeed h []) w)"

definition all_fx :: "('v, 'c, 'w) host \<Rightarrow> ('v, 'c, 'w, 'a) fx list \<Rightarrow> ('v, 'c, 'w, 'a list) fx" where
  "all_fx h effects = for_each h effects (pure (\<lambda>fx. fx))"

definition effectful_pull ::
  "('v, 'c, 'w) host \<Rightarrow> ('a \<Rightarrow> ('v, 'w, ('v, 'c, 'w, 'b) fx) callback) \<Rightarrow> ('v, 'c, 'w, 'a) pull
     \<Rightarrow> ('v, 'c, 'w, 'b) pull" where
  "effectful_pull h f p =
     unfold_pull (\<lambda>p I w.
       case pull_next p I w of
         None \<Rightarrow> None
       | Some ((Inl c, p'), w') \<Rightarrow> Some ((Inl c, p'), w')
       | Some ((Inr s, p'), w') \<Rightarrow>
           keeping p' ((if \<not> has_more s then succeed h end_of_stream
             else map_fx h (for_each h (chunk s) f) (pure emit_chunk)) I w')) p"

definition relabel_pull :: "('v \<Rightarrow> 'v) \<Rightarrow> ('v, 'c, 'w, 'a) pull \<Rightarrow> ('v, 'c, 'w, 'a) pull" where
  "relabel_pull f p =
     unfold_pull (\<lambda>p I w.
       map_option (map_prod (map_prod (map_sum (map_cause_failure f) id) id) id) (pull_next p I w)) p"

record ('a, 's) stream_stage =
  has_ended :: "'s \<Rightarrow> bool"
  rewrite_step :: "'s \<Rightarrow> 'a stream_step \<Rightarrow> 'a stream_step \<times> 's"

definition stage_machine ::
  "('v, 'c, 'w) host \<Rightarrow> ('a, 's) stream_stage \<Rightarrow> ('s \<times> ('v, 'c, 'w, 'a) pull, 'v, 'c, 'w, 'a) machine" where
  "stage_machine h stage = (\<lambda>(s, p) I w.
     if has_ended stage s then keeping (s, p) (succeed h end_of_stream I w)
     else case pull_next p I w of
       None \<Rightarrow> None
     | Some ((Inl c, p'), w') \<Rightarrow> Some ((Inl c, (s, p')), w')
     | Some ((Inr st, p'), w') \<Rightarrow>
         (case rewrite_step stage s st of (st', s') \<Rightarrow> Some ((Inr st', (s', p')), w')))"

definition stage_pull ::
  "('v, 'c, 'w) host \<Rightarrow> ('a, 's) stream_stage \<Rightarrow> 's \<Rightarrow> ('v, 'c, 'w, 'a) pull \<Rightarrow> ('v, 'c, 'w, 'a) pull" where
  "stage_pull h stage s p = unfold_pull (stage_machine h stage) (s, p)"

definition take_stage :: "('a, int) stream_stage" where
  "take_stage = \<lparr>has_ended = (\<lambda>budget. budget < 1),
     rewrite_step = (\<lambda>budget s.
       if \<not> has_more s \<or> budget < 1 then (end_of_stream, budget)
       else let head = take_first budget (chunk s) in (emit_chunk head, budget - int (length head)))\<rparr>"

definition drop_stage :: "('a, int) stream_stage" where
  "drop_stage = \<lparr>has_ended = (\<lambda>_. False),
     rewrite_step = (\<lambda>budget s.
       if \<not> has_more s \<or> budget < 1 then (s, budget)
       else let rest = drop_first budget (chunk s)
            in (emit_chunk rest, budget - (int (length (chunk s)) - int (length rest))))\<rparr>"

definition take_while_stage :: "('a \<Rightarrow> bool) \<Rightarrow> ('a, bool) stream_stage" where
  "take_while_stage keep = \<lparr>has_ended = (\<lambda>ended. ended),
     rewrite_step = (\<lambda>ended s.
       if \<not> has_more s \<or> ended then (end_of_stream, ended)
       else case take_while_chunk keep (chunk s) of (prefix', rejected) \<Rightarrow> (emit_chunk prefix', rejected))\<rparr>"

definition concat_machine ::
  "('v, 'c, 'w) host \<Rightarrow> (bool \<times> ('v, 'c, 'w, 'a) pull \<times> ('v, 'c, 'w, 'a) pull, 'v, 'c, 'w, 'a) machine" where
  "concat_machine h = (\<lambda>(drained, p, q) I w.
     if drained
     then map_option (map_prod (map_prod id (\<lambda>q'. (True, p, q'))) id) (pull_next q I w)
     else case pull_next p I w of
       None \<Rightarrow> None
     | Some ((Inl c, p'), w') \<Rightarrow> Some ((Inl c, (False, p', q)), w')
     | Some ((Inr s, p'), w') \<Rightarrow>
         if has_more s then keeping (False, p', q) (succeed h s I w')
         else map_option (map_prod (map_prod id (\<lambda>q'. (True, p', q'))) id) (pull_next q I w'))"

definition concat_pulls ::
  "('v, 'c, 'w) host \<Rightarrow> ('v, 'c, 'w, 'a) pull \<Rightarrow> ('v, 'c, 'w, 'a) pull \<Rightarrow> ('v, 'c, 'w, 'a) pull" where
  "concat_pulls h p q = unfold_pull (concat_machine h) (False, p, q)"

subsection \<open>Sinks\<close>

partial_function (option) fold_steps ::
  "('v, 'c, 'w) host \<Rightarrow> ('v, 'c, 'w, 'a) pull \<Rightarrow> 's \<Rightarrow> ('s \<Rightarrow> 'a \<Rightarrow> 's) \<Rightarrow> ('v, 'c, 'w) interp \<Rightarrow> 'w
     \<Rightarrow> (('v cause + 's) \<times> 'w) option" where
  "fold_steps h p s f I w =
     (case pull_next p I w of
        None \<Rightarrow> None
      | Some ((Inl c, _), w') \<Rightarrow> Some (Inl c, w')
      | Some ((Inr st, p'), w') \<Rightarrow>
          if \<not> has_more st then succeed h s I w'
          else fold_steps h p' (fold_chunk (chunk st) s f) f I w')"

partial_function (option) visit_steps ::
  "('v, 'c, 'w) host \<Rightarrow> ('v, 'c, 'w, 'a) pull \<Rightarrow> ('a \<Rightarrow> ('v, 'w, ('v, 'c, 'w, unit) fx) callback)
     \<Rightarrow> ('v, 'c, 'w) interp \<Rightarrow> 'w \<Rightarrow> (('v cause + unit) \<times> 'w) option" where
  "visit_steps h p visit I w =
     (case pull_next p I w of
        None \<Rightarrow> None
      | Some ((Inl c, _), w') \<Rightarrow> Some (Inl c, w')
      | Some ((Inr st, p'), w') \<Rightarrow>
          if \<not> has_more st then succeed h () I w'
          else (case for_each h (chunk st) visit I w' of
                  None \<Rightarrow> None
                | Some (Inl c, w'') \<Rightarrow> Some (Inl c, w'')
                | Some (Inr _, w'') \<Rightarrow> visit_steps h p' visit I w''))"

subsection \<open>What a pull produces\<close>

text \<open>
  \<open>yields I p w xs w'\<close>: pulled to its end from the world \<open>w\<close>, \<open>p\<close> produces the values \<open>xs\<close> and leaves
  the world \<open>w'\<close>. \<open>produces\<close> is the same up to some pull that has not been asked yet.
\<close>

inductive yields :: "('v, 'c, 'w) interp \<Rightarrow> ('v, 'c, 'w, 'a) pull \<Rightarrow> 'w \<Rightarrow> 'a list \<Rightarrow> 'w \<Rightarrow> bool"
  for I :: "('v, 'c, 'w) interp" where
  ended: "pull_next p I w = Some ((Inr st, p'), w') \<Longrightarrow> \<not> has_more st \<Longrightarrow> yields I p w [] w'"
| emitted: "pull_next p I w = Some ((Inr st, p'), w1) \<Longrightarrow> has_more st \<Longrightarrow> yields I p' w1 xs w' \<Longrightarrow>
    yields I p w (chunk st @ xs) w'"

inductive produces :: "('v, 'c, 'w) interp \<Rightarrow> ('v, 'c, 'w, 'a) pull \<Rightarrow> 'w \<Rightarrow> 'a list \<Rightarrow> ('v, 'c, 'w, 'a) pull \<Rightarrow> 'w \<Rightarrow> bool"
  for I :: "('v, 'c, 'w) interp" where
  nothing: "produces I p w [] p w"
| pulled: "pull_next p I w = Some ((Inr st, p1), w1) \<Longrightarrow> has_more st \<Longrightarrow> produces I p1 w1 xs p' w' \<Longrightarrow>
    produces I p w (chunk st @ xs) p' w'"

text \<open>The context is not cancelled, and asking it changes nothing.\<close>

definition calm :: "('v, 'c, 'w) host \<Rightarrow> ('v, 'c, 'w) interp \<Rightarrow> bool" where
  "calm h I \<longleftrightarrow> (\<forall>w. machine_interrupt h (context_of I) w = (None, w))"

lemma calm_succeed [simp]: "calm h I \<Longrightarrow> succeed h a I w = Some (Inr a, w)"
  by (simp add: calm_def fx_defs)

lemma step_simps [simp]:
  "has_more (emit_chunk c)" "chunk (emit_chunk c) = c" "\<not> has_more end_of_stream"
  by (simp_all add: emit_chunk_def end_of_stream_def)

text \<open>One pull of each machine, with the machine folded back.\<close>

lemma next_rewrite_pull [simp]:
  "pull_next (rewrite_pull f p) I w =
     map_option (map_prod (map_prod (map_sum id f) (rewrite_pull f)) id) (pull_next p I w)"
  by (simp add: rewrite_pull_def [abs_def] option.map_comp prod.map_comp comp_def id_def)

lemma stage_machine_at:
  "stage_machine h stage (s, p) I w =
     (if has_ended stage s then keeping (s, p) (succeed h end_of_stream I w)
      else case pull_next p I w of
        None \<Rightarrow> None
      | Some ((Inl c, p'), w') \<Rightarrow> Some ((Inl c, (s, p')), w')
      | Some ((Inr st, p'), w') \<Rightarrow>
          Some ((Inr (fst (rewrite_step stage s st)), (snd (rewrite_step stage s st), p')), w'))"
  by (simp add: stage_machine_def case_prod_unfold split: option.split sum.split)

lemma next_stage_pull:
  "pull_next (stage_pull h stage s p) I w =
     (if has_ended stage s then map_option (\<lambda>(x, w'). ((x, stage_pull h stage s p), w')) (succeed h end_of_stream I w)
      else case pull_next p I w of
        None \<Rightarrow> None
      | Some ((Inl c, p'), w') \<Rightarrow> Some ((Inl c, stage_pull h stage s p'), w')
      | Some ((Inr st, p'), w') \<Rightarrow>
          Some ((Inr (fst (rewrite_step stage s st)), stage_pull h stage (snd (rewrite_step stage s st)) p'), w'))"
  by (simp add: stage_pull_def stage_machine_at keeping_def option.map_comp comp_def case_prod_unfold
      split: option.split sum.split)

lemma concat_machine_at:
  "concat_machine h (True, p, q) I w = map_option (map_prod (map_prod id (\<lambda>q'. (True, p, q'))) id) (pull_next q I w)"
  "concat_machine h (False, p, q) I w =
     (case pull_next p I w of
        None \<Rightarrow> None
      | Some ((Inl c, p'), w') \<Rightarrow> Some ((Inl c, (False, p', q)), w')
      | Some ((Inr s, p'), w') \<Rightarrow>
          if has_more s then keeping (False, p', q) (succeed h s I w')
          else concat_machine h (True, p', q) I w')"
  by (simp_all add: concat_machine_def split: option.split sum.split)

lemma next_concat_drained:
  "pull_next (unfold_pull (concat_machine h) (True, p, q)) I w =
     map_option (map_prod (map_prod id (\<lambda>q'. unfold_pull (concat_machine h) (True, p, q'))) id) (pull_next q I w)"
  by (simp add: concat_machine_at option.map_comp prod.map_comp comp_def id_def)

lemma next_concat_pulls:
  "pull_next (concat_pulls h p q) I w =
     (case pull_next p I w of
        None \<Rightarrow> None
      | Some ((Inl c, p'), w') \<Rightarrow> Some ((Inl c, concat_pulls h p' q), w')
      | Some ((Inr s, p'), w') \<Rightarrow>
          if has_more s then map_option (\<lambda>(x, w'). ((x, concat_pulls h p' q), w')) (succeed h s I w')
          else pull_next (unfold_pull (concat_machine h) (True, p', q)) I w')"
  by (simp add: concat_pulls_def concat_machine_at keeping_def option.map_comp prod.map_comp comp_def
      case_prod_unfold id_def split: option.split sum.split)

lemma next_chunks_pull:
  "calm h I \<Longrightarrow> pull_next (chunks_pull h cs) I w =
     (case cs of
        [] \<Rightarrow> Some ((Inr end_of_stream, chunks_pull h []), w)
      | c # rest \<Rightarrow> Some ((Inr (emit_chunk c), chunks_pull h rest), w))"
  by (simp add: chunks_pull_def keeping_def calm_def fx_defs split: list.split)

subsection \<open>Sinks consume what a pull yields\<close>

lemma fold_steps_yields:
  "yields I p w xs w' \<Longrightarrow> calm h I \<Longrightarrow> fold_steps h p s f I w = Some (Inr (foldl f s xs), w')"
proof (induction arbitrary: s rule: yields.induct)
  case (ended p w st p' w')
  then show ?case by (subst fold_steps.simps) simp
next
  case (emitted p w st p' w1 xs w')
  then show ?case by (subst fold_steps.simps) (simp add: fold_chunk_def)
qed

lemma foldl_snoc: "foldl (\<lambda>vs v. vs @ [v]) acc xs = acc @ xs"
  by (induction xs arbitrary: acc) simp_all

lemma chunks_pull_yields: "calm h I \<Longrightarrow> yields I (chunks_pull h cs) w (concat cs) w"
proof (induction cs)
  case Nil
  then show ?case by (auto intro: yields.ended simp: next_chunks_pull)
next
  case (Cons c cs)
  then show ?case
    using yields.emitted [of "chunks_pull h (c # cs)" I w "emit_chunk c" "chunks_pull h cs" w "concat cs" w]
    by (simp add: next_chunks_pull)
qed

subsection \<open>Transforms act on what is yielded\<close>

lemma map_pull_chunks_yields:
  assumes "yields I p w xs w'" "f [] = []" "\<And>c d. f (c @ d) = f c @ f d"
  shows "yields I (map_pull_chunks f p) w (f xs) w'"
  using assms(1)
proof (induction rule: yields.induct)
  case (ended p w st p' w')
  then show ?case by (auto intro!: yields.ended simp: map_pull_chunks_def assms(2))
next
  case (emitted p w st p' w1 xs w')
  then show ?case
    using yields.emitted [of "map_pull_chunks f p" I w "emit_chunk (f (chunk st))" "map_pull_chunks f p'" w1 "f xs" w']
    by (simp add: map_pull_chunks_def assms(3))
qed

lemma stage_pull_emits:
  assumes "\<not> has_ended stage s" "pull_next p I w = Some ((Inr st, p'), w1)"
    "rewrite_step stage s st = (emit_chunk c, s')" "yields I (stage_pull h stage s' p') w1 xs w'"
  shows "yields I (stage_pull h stage s p) w (c @ xs) w'"
  using assms yields.emitted [of "stage_pull h stage s p" I w "emit_chunk c" "stage_pull h stage s' p'" w1 xs w']
  by (simp add: next_stage_pull)

lemma stage_pull_ends:
  "calm h I \<Longrightarrow> has_ended stage s \<Longrightarrow> yields I (stage_pull h stage s p) w [] w"
  "\<not> has_ended stage s \<Longrightarrow> pull_next p I w = Some ((Inr st, p'), w') \<Longrightarrow> \<not> has_more (fst (rewrite_step stage s st)) \<Longrightarrow>
   yields I (stage_pull h stage s p) w [] w'"
  by (auto intro!: yields.ended simp: next_stage_pull)

lemma drop_yields:
  "yields I p w xs w' \<Longrightarrow> yields I (stage_pull h drop_stage n p) w (drop (nat n) xs) w'"
proof (induction arbitrary: n rule: yields.induct)
  case (ended p w st p' w')
  then show ?case by (auto intro: stage_pull_ends(2) simp: drop_stage_def)
next
  case (emitted p w st p' w1 xs w')
  show ?case
  proof (cases "n < 1")
    case True
    with emitted.hyps emitted.IH [of n] show ?thesis
      by (cases st) (auto intro!: stage_pull_emits simp: drop_stage_def emit_chunk_def)
  next
    case False
    let ?rest = "drop (nat n) (chunk st)"
    let ?n = "n - (int (length (chunk st)) - int (length ?rest))"
    have "nat ?n = nat n - length (chunk st)" using False by simp
    then have e: "drop (nat n) (chunk st @ xs) = ?rest @ drop (nat ?n) xs" by simp
    show ?thesis
      unfolding e by (rule stage_pull_emits [OF _ emitted.hyps(1) _ emitted.IH])
        (use False emitted.hyps in \<open>simp_all add: drop_stage_def Let_def\<close>)
  qed
qed

text \<open>
  Taking does not depend on what comes after: once enough was produced no further pull happens.
\<close>

lemma take_produces:
  assumes "produces I p w xs p1 w1" "calm h I" "int (length xs) < n"
    "pull_next p1 I w1 = Some ((Inr st, p2), w2)" "has_more st" "n \<le> int (length xs + length (chunk st))"
  shows "yields I (stage_pull h take_stage n p) w (take (nat n) (xs @ chunk st)) w2"
  using assms
proof (induction arbitrary: n rule: produces.induct)
  case (nothing p w)
  then have "yields I (stage_pull h take_stage n p) w (take (nat n) (chunk st) @ []) w2"
    by (intro stage_pull_emits [OF _ nothing.prems(3), where s' = "n - int (length (take (nat n) (chunk st)))"])
       (auto simp: take_stage_def Let_def intro: stage_pull_ends(1))
  then show ?case by simp
next
  case (pulled p w st' p1' w1' xs p' w')
  let ?n = "n - int (length (chunk st'))"
  have n: "take (nat n) (chunk st') = chunk st'" "nat ?n = nat n - length (chunk st')" using pulled.prems(2) by simp_all
  have "yields I (stage_pull h take_stage ?n p1') w1' (take (nat ?n) (xs @ chunk st)) w2"
    using pulled.prems by (intro pulled.IH) simp_all
  then have "yields I (stage_pull h take_stage n p) w (chunk st' @ take (nat ?n) (xs @ chunk st)) w2"
    using pulled.prems(2) pulled.hyps n
    by (intro stage_pull_emits [OF _ pulled.hyps(1)]) (simp_all add: take_stage_def Let_def)
  then show ?case using n pulled.prems(2) by simp
qed

lemma take_yields:
  "yields I p w xs w' \<Longrightarrow> calm h I \<Longrightarrow> \<exists>w''. yields I (stage_pull h take_stage n p) w (take (nat n) xs) w''"
proof (induction arbitrary: n rule: yields.induct)
  case (ended p w st p' w')
  show ?case
  proof (cases "n < 1")
    case True
    with ended.prems show ?thesis using stage_pull_ends(1) [of h I take_stage n p w] by (auto simp: take_stage_def)
  next
    case False
    with ended.hyps show ?thesis
      using stage_pull_ends(2) [of take_stage n p I w st p' w' h] by (auto simp: take_stage_def)
  qed
next
  case (emitted p w st p' w1 xs w')
  show ?case
  proof (cases "n < 1")
    case True
    with emitted.prems show ?thesis using stage_pull_ends(1) [of h I take_stage n p w] by (auto simp: take_stage_def)
  next
    case False
    let ?head = "take (nat n) (chunk st)"
    let ?n = "n - int (length ?head)"
    obtain w'' where y: "yields I (stage_pull h take_stage ?n p') w1 (take (nat ?n) xs) w''"
      using emitted.IH [OF emitted.prems] by blast
    have "nat (n - int (length (chunk st))) = nat n - length (chunk st)" by arith
    then have "take (nat n) (chunk st @ xs) = ?head @ take (nat ?n) xs" using False by (simp add: min_def)
    then show ?thesis
      using stage_pull_emits [OF _ emitted.hyps(1) _ y, of n ?head] False emitted.hyps(2)
      by (auto simp: take_stage_def Let_def)
  qed
qed

lemma take_while_yields:
  "yields I p w xs w' \<Longrightarrow> calm h I \<Longrightarrow> \<exists>w''. yields I (stage_pull h (take_while_stage keep) False p) w (takeWhile keep xs) w''"
proof (induction rule: yields.induct)
  case (ended p w st p' w')
  then show ?case
    using stage_pull_ends(2) [of "take_while_stage keep" False p I w st p' w' h] by (auto simp: take_while_stage_def)
next
  case (emitted p w st p' w1 xs w')
  show ?case
  proof (cases "list_all keep (chunk st)")
    case True
    obtain w'' where y: "yields I (stage_pull h (take_while_stage keep) False p') w1 (takeWhile keep xs) w''"
      using emitted by blast
    have "takeWhile keep (chunk st @ xs) = chunk st @ takeWhile keep xs" "takeWhile keep (chunk st) = chunk st"
      using True by (simp_all add: list_all_iff takeWhile_append1)
    then show ?thesis
      using stage_pull_emits [OF _ emitted.hyps(1) _ y, of False "chunk st"] True emitted.hyps(2)
      by (auto simp: take_while_stage_def)
  next
    case False
    have y: "yields I (stage_pull h (take_while_stage keep) True p') w1 [] w1"
      using emitted.prems by (intro stage_pull_ends(1)) (simp_all add: take_while_stage_def)
    have "takeWhile keep (chunk st @ xs) = takeWhile keep (chunk st)"
      using False by (auto simp: list_all_iff takeWhile_append)
    then show ?thesis
      using stage_pull_emits [OF _ emitted.hyps(1) _ y, of False "takeWhile keep (chunk st)"] False emitted.hyps(2)
      by (auto simp: take_while_stage_def)
  qed
qed

lemma concat_drained_yields:
  "yields I q w xs w' \<Longrightarrow> yields I (unfold_pull (concat_machine h) (True, p, q)) w xs w'"
  by (induction rule: yields.induct) (auto intro: yields.intros simp: next_concat_drained simp del: unfold_pull.sel)

lemma concat_pulls_yields:
  assumes "yields I p w xs w1" "calm h I" "yields I q w1 ys w2"
  shows "yields I (concat_pulls h p q) w (xs @ ys) w2"
  using assms
proof (induction rule: yields.induct)
  case (ended p w st p' w1)
  from concat_drained_yields [OF ended.prems(2), of h p']
  have "yields I (unfold_pull (concat_machine h) (True, p', q)) w1 ys w2" .
  then show ?case
    using ended.hyps by (cases rule: yields.cases) (auto intro: yields.intros simp: next_concat_pulls simp del: unfold_pull.sel)
next
  case (emitted p w st p' w1 xs w')
  then show ?case
    using yields.emitted [of "concat_pulls h p q" I w st "concat_pulls h p' q" w1 "xs @ ys" w2]
    by (simp add: next_concat_pulls del: unfold_pull.sel)
qed

subsection \<open>In order, until the first failure\<close>

fun run_each :: "('a \<Rightarrow> ('v, 'c, 'w, 'b) fx) \<Rightarrow> 'a list \<Rightarrow> 'b list \<Rightarrow> ('v, 'c, 'w, 'b list) fx" where
  "run_each f [] vs I w = Some (Inr vs, w)"
| "run_each f (a # as) vs I w =
     (case f a I w of
        None \<Rightarrow> None
      | Some (Inl c, w') \<Rightarrow> Some (Inl c, w')
      | Some (Inr v, w') \<Rightarrow> run_each f as (vs @ [v]) I w')"

lemma for_each_chain_runs:
  "\<exists>fx. for_each_chain h (pure f) as acc w = Some (Inr fx, w)
    \<and> (\<forall>I w. fx I w = (case acc I w of
         None \<Rightarrow> None
       | Some (Inl c, w') \<Rightarrow> Some (Inl c, w')
       | Some (Inr vs, w') \<Rightarrow> run_each f as vs I w'))"
proof (induction as arbitrary: acc)
  case Nil
  show ?case by (auto split: option.split sum.split prod.split)
next
  case (Cons a as)
  obtain fx where "for_each_chain h (pure f) as
      (flat_map h acc (pure (\<lambda>vs. map_fx h (f a) (pure (\<lambda>v. vs @ [v]))))) w = Some (Inr fx, w)"
    and fx: "\<And>I w. fx I w = (case flat_map h acc (pure (\<lambda>vs. map_fx h (f a) (pure (\<lambda>v. vs @ [v])))) I w of
         None \<Rightarrow> None
       | Some (Inl c, w') \<Rightarrow> Some (Inl c, w')
       | Some (Inr vs, w') \<Rightarrow> run_each f as vs I w')"
    using Cons.IH by blast
  moreover have "fx I w = (case acc I w of
         None \<Rightarrow> None
       | Some (Inl c, w') \<Rightarrow> Some (Inl c, w')
       | Some (Inr vs, w') \<Rightarrow> run_each f (a # as) vs I w')" for I w
    by (simp add: fx fx_defs capture_def split: option.split sum.split prod.split)
  moreover have "for_each_chain h (pure f) (a # as) acc w = for_each_chain h (pure f) as
      (flat_map h acc (pure (\<lambda>vs. map_fx h (f a) (pure (\<lambda>v. vs @ [v]))))) w"
    by simp
  ultimately show ?case by metis
qed

lemma for_each_in_order: "calm h I \<Longrightarrow> for_each h inputs (pure f) I w = run_each f inputs [] I w"
  using for_each_chain_runs [of h f inputs "succeed h []" w]
  by (auto simp: for_each_def suspend_runtime_def guarded_def capture_def)

end
