(* ===== verification/Streams.thy ===== *)
theory Streams
  imports Stream_Pulls Scoped_Effects
begin

section \<open>Streams\<close>

text \<open>
  \<^verbatim>\<open>effect/stream.go\<close>, \<^verbatim>\<open>stream_transform.go\<close> and \<^verbatim>\<open>stream_run.go\<close>: a stream opens its sources in
  a scope and answers the pull of one run. Transforms wrap the pull of the stream they are given,
  and a sink opens the stream in a scope of its own, pulls until the end and closes the scope.
\<close>

named_theorems stream_opens \<open>what opening a transformed stream does\<close>

type_synonym ('v, 'c, 'w, 'a) stream = "nat \<Rightarrow> ('v, 'c, 'w, ('v, 'c, 'w, 'a) pull) fx"

subsection \<open>Sources\<close>

text \<open>The pull is created for each run, which here is the pull in its initial state.\<close>

definition stream_from_pull :: "('v, 'c, 'w) host \<Rightarrow> ('v, 'c, 'w, 'a) pull \<Rightarrow> ('v, 'c, 'w, 'a) stream" where
  "stream_from_pull h p k = suspend h (\<lambda>w. Some (Inr (succeed h p), w))"

definition stream_from_steps :: "('v, 'c, 'w) host \<Rightarrow> ('v, 'c, 'w, 'a) pull \<Rightarrow> ('v, 'c, 'w, 'a) stream" where
  "stream_from_steps h step = stream_from_pull h step"

definition empty_stream :: "('v, 'c, 'w) host \<Rightarrow> ('v, 'c, 'w, 'a) stream" where
  "empty_stream h = stream_from_pull h (repeated_pull (succeed h end_of_stream))"

definition stream_fail :: "('v, 'c, 'w) host \<Rightarrow> string \<Rightarrow> 'v \<Rightarrow> ('v, 'c, 'w, 'a) stream" where
  "stream_fail h site e = stream_from_pull h (repeated_pull (fail_at h site e))"

definition stream_from_chunks :: "('v, 'c, 'w) host \<Rightarrow> 'a chunk list \<Rightarrow> ('v, 'c, 'w, 'a) stream" where
  "stream_from_chunks h cs = stream_from_pull h (chunks_pull h cs)"

definition stream_of :: "('v, 'c, 'w) host \<Rightarrow> 'a list \<Rightarrow> ('v, 'c, 'w, 'a) stream" where
  "stream_of h values = stream_from_chunks h [values]"

definition stream_from_resource ::
  "('v, 'c, 'w) host \<Rightarrow> (nat \<Rightarrow> ('v, 'c, 'w, 's) fx) \<Rightarrow> ('s \<Rightarrow> ('v, 'c, 'w, 'a) stream) \<Rightarrow> ('v, 'c, 'w, 'a) stream" where
  "stream_from_resource h acquire read k = flat_map h (acquire k) (pure (\<lambda>source. read source k))"

definition stream_from_effect :: "('v, 'c, 'w) host \<Rightarrow> ('v, 'c, 'w, 'a) fx \<Rightarrow> ('v, 'c, 'w, 'a) stream" where
  "stream_from_effect h fx = stream_from_pull h (effect_pull h fx)"

definition stream_repeat_effect :: "('v, 'c, 'w) host \<Rightarrow> ('v, 'c, 'w, 'a) fx \<Rightarrow> ('v, 'c, 'w, 'a) stream" where
  "stream_repeat_effect h fx = stream_from_pull h (repeated_pull (map_fx h fx (pure (\<lambda>v. emit_chunk [v]))))"

text \<open>
  \<open>StreamFromQueue\<close> and \<open>StreamFromSubscription\<close> differ in whose \<open>TakeUpTo\<close> they repeat; it is
  given here with its chunk size applied.
\<close>

definition stream_from_queue :: "('v, 'c, 'w) host \<Rightarrow> ('v, 'c, 'w, 'a list) fx \<Rightarrow> ('v, 'c, 'w, 'a) stream" where
  "stream_from_queue h take_up_to = stream_from_pull h (repeated_pull (map_fx h take_up_to (pure batch_step)))"

subsection \<open>Transforms\<close>

definition map_steps ::
  "('v, 'c, 'w) host \<Rightarrow> ('v, 'c, 'w, 'a) stream \<Rightarrow> ('a stream_step \<Rightarrow> 'b stream_step) \<Rightarrow> ('v, 'c, 'w, 'b) stream" where
  [stream_opens]: "map_steps h s rewrite k = map_fx h (s k) (pure (rewrite_pull rewrite))"

definition map_stream_chunks ::
  "('v, 'c, 'w) host \<Rightarrow> ('v, 'c, 'w, 'a) stream \<Rightarrow> ('a chunk \<Rightarrow> 'b chunk) \<Rightarrow> ('v, 'c, 'w, 'b) stream" where
  [stream_opens]: "map_stream_chunks h s f =
     map_steps h s (\<lambda>st. if \<not> has_more st then end_of_stream else emit_chunk (f (chunk st)))"

definition map_stream :: "('v, 'c, 'w) host \<Rightarrow> ('v, 'c, 'w, 'a) stream \<Rightarrow> ('a \<Rightarrow> 'b) \<Rightarrow> ('v, 'c, 'w, 'b) stream" where
  [stream_opens]: "map_stream h s f = map_stream_chunks h s (map_chunk f)"

definition filter_stream :: "('v, 'c, 'w) host \<Rightarrow> ('v, 'c, 'w, 'a) stream \<Rightarrow> ('a \<Rightarrow> bool) \<Rightarrow> ('v, 'c, 'w, 'a) stream" where
  [stream_opens]: "filter_stream h s keep = map_stream_chunks h s (filter_chunk keep)"

definition map_stream_effect ::
  "('v, 'c, 'w) host \<Rightarrow> ('v, 'c, 'w, 'a) stream \<Rightarrow> ('a \<Rightarrow> ('v, 'w, ('v, 'c, 'w, 'b) fx) callback)
     \<Rightarrow> ('v, 'c, 'w, 'b) stream" where
  [stream_opens]: "map_stream_effect h s f k = map_fx h (s k) (pure (effectful_pull h f))"

definition collect_stream_effect ::
  "('v, 'c, 'w) host \<Rightarrow> ('v, 'c, 'w, 'a) stream \<Rightarrow> ('a \<Rightarrow> ('v, 'w, ('v, 'c, 'w, 'b chunk) fx) callback)
     \<Rightarrow> ('v, 'c, 'w, 'b) stream" where
  "collect_stream_effect h s f = map_stream_chunks h (map_stream_effect h s f) (foldl (@) [])"

definition map_stream_error :: "('v, 'c, 'w) host \<Rightarrow> ('v, 'c, 'w, 'a) stream \<Rightarrow> ('v \<Rightarrow> 'v) \<Rightarrow> ('v, 'c, 'w, 'a) stream" where
  "map_stream_error h s f k = map_fx h (map_error h (s k) f) (pure (relabel_pull f))"

definition apply_stage ::
  "('v, 'c, 'w) host \<Rightarrow> ('v, 'c, 'w, 'a) stream \<Rightarrow> ('a, 's) stream_stage \<Rightarrow> 's \<Rightarrow> ('v, 'c, 'w, 'a) stream" where
  [stream_opens]: "apply_stage h s stage initial k = map_fx h (s k) (pure (stage_pull h stage initial))"

definition take_stream :: "('v, 'c, 'w) host \<Rightarrow> ('v, 'c, 'w, 'a) stream \<Rightarrow> int \<Rightarrow> ('v, 'c, 'w, 'a) stream" where
  [stream_opens]: "take_stream h s n = apply_stage h s take_stage n"

definition drop_stream :: "('v, 'c, 'w) host \<Rightarrow> ('v, 'c, 'w, 'a) stream \<Rightarrow> int \<Rightarrow> ('v, 'c, 'w, 'a) stream" where
  [stream_opens]: "drop_stream h s n = apply_stage h s drop_stage n"

definition take_stream_while :: "('v, 'c, 'w) host \<Rightarrow> ('v, 'c, 'w, 'a) stream \<Rightarrow> ('a \<Rightarrow> bool) \<Rightarrow> ('v, 'c, 'w, 'a) stream" where
  [stream_opens]: "take_stream_while h s keep = apply_stage h s (take_while_stage keep) False"

definition concat_streams ::
  "('v, 'c, 'w) host \<Rightarrow> ('v, 'c, 'w, 'a) stream \<Rightarrow> ('v, 'c, 'w, 'a) stream \<Rightarrow> ('v, 'c, 'w, 'a) stream" where
  [stream_opens]: "concat_streams h s t k =
     map_fx h (zip_fx h (s k) (t k)) (pure (\<lambda>(p, q). concat_pulls h p q))"

subsection \<open>Sinks\<close>

definition run_fold ::
  "('v, 'c, ('f, 'v, 'z) heap_scheme) host \<Rightarrow> ('v, 'c, ('f, 'v, 'z) heap_scheme, 'f) scope_host \<Rightarrow> ('s \<Rightarrow> 'v)
     \<Rightarrow> ('v, 'c, ('f, 'v, 'z) heap_scheme, 'a) stream \<Rightarrow> 's \<Rightarrow> ('s \<Rightarrow> 'a \<Rightarrow> 's) \<Rightarrow> ('v, 'c, ('f, 'v, 'z) heap_scheme, 's) fx" where
  "run_fold h S any_of s initial f =
     scoped h S any_of (\<lambda>k w. Some (Inr (flat_map h (s k) (pure (\<lambda>p. fold_steps h p initial f))), w))"

definition run_collect ::
  "('v, 'c, ('f, 'v, 'z) heap_scheme) host \<Rightarrow> ('v, 'c, ('f, 'v, 'z) heap_scheme, 'f) scope_host \<Rightarrow> ('a list \<Rightarrow> 'v)
     \<Rightarrow> ('v, 'c, ('f, 'v, 'z) heap_scheme, 'a) stream \<Rightarrow> ('v, 'c, ('f, 'v, 'z) heap_scheme, 'a list) fx" where
  "run_collect h S any_of s = run_fold h S any_of s [] (\<lambda>vs v. vs @ [v])"

definition run_count ::
  "('v, 'c, ('f, 'v, 'z) heap_scheme) host \<Rightarrow> ('v, 'c, ('f, 'v, 'z) heap_scheme, 'f) scope_host \<Rightarrow> (int \<Rightarrow> 'v)
     \<Rightarrow> ('v, 'c, ('f, 'v, 'z) heap_scheme, 'a) stream \<Rightarrow> ('v, 'c, ('f, 'v, 'z) heap_scheme, int) fx" where
  "run_count h S any_of s = run_fold h S any_of s 0 (\<lambda>n _. wrap64 (n + 1))"

definition run_drain ::
  "('v, 'c, ('f, 'v, 'z) heap_scheme) host \<Rightarrow> ('v, 'c, ('f, 'v, 'z) heap_scheme, 'f) scope_host \<Rightarrow> (unit \<Rightarrow> 'v)
     \<Rightarrow> ('v, 'c, ('f, 'v, 'z) heap_scheme, 'a) stream \<Rightarrow> ('v, 'c, ('f, 'v, 'z) heap_scheme, unit) fx" where
  "run_drain h S any_of s = run_fold h S any_of s () (\<lambda>u _. u)"

definition run_for_each ::
  "('v, 'c, ('f, 'v, 'z) heap_scheme) host \<Rightarrow> ('v, 'c, ('f, 'v, 'z) heap_scheme, 'f) scope_host \<Rightarrow> (unit \<Rightarrow> 'v)
     \<Rightarrow> ('v, 'c, ('f, 'v, 'z) heap_scheme, 'a) stream
     \<Rightarrow> ('a \<Rightarrow> ('v, ('f, 'v, 'z) heap_scheme, ('v, 'c, ('f, 'v, 'z) heap_scheme, unit) fx) callback)
     \<Rightarrow> ('v, 'c, ('f, 'v, 'z) heap_scheme, unit) fx" where
  "run_for_each h S any_of s visit =
     scoped h S any_of (\<lambda>k w. Some (Inr (flat_map h (s k) (pure (\<lambda>p. visit_steps h p visit))), w))"

text \<open>\<open>RunIntoQueue\<close> and \<open>RunIntoHub\<close>: \<open>offer\<close> and \<open>shutdown\<close> are the operations of the target.\<close>

definition run_into_queue ::
  "('v, 'c, ('f, 'v, 'z) heap_scheme) host \<Rightarrow> ('v, 'c, ('f, 'v, 'z) heap_scheme, 'f) scope_host \<Rightarrow> (unit \<Rightarrow> 'v)
     \<Rightarrow> ('v, 'c, ('f, 'v, 'z) heap_scheme, 'a) stream \<Rightarrow> ('a \<Rightarrow> ('v, 'c, ('f, 'v, 'z) heap_scheme, 'b) fx)
     \<Rightarrow> ('v, 'c, ('f, 'v, 'z) heap_scheme, unit) fx \<Rightarrow> ('v, 'c, ('f, 'v, 'z) heap_scheme, unit) fx" where
  "run_into_queue h S any_of s offer shutdown =
     ensuring h (run_for_each h S any_of s (pure (\<lambda>v. as_fx h (offer v) ()))) (or_die h shutdown)"

subsection \<open>What a stream yields\<close>

definition stream_yields ::
  "('v, 'c, 'w) interp \<Rightarrow> ('v, 'c, 'w, 'a) stream \<Rightarrow> nat \<Rightarrow> 'w \<Rightarrow> 'a list \<Rightarrow> 'w \<Rightarrow> bool" where
  "stream_yields I s k w xs w' \<longleftrightarrow> (\<exists>p w1. s k I w = Some (Inr p, w1) \<and> yields I p w1 xs w')"

lemma stream_from_pull_opens: "calm h I \<Longrightarrow> stream_from_pull h p k I w = Some (Inr p, w)"
  by (simp add: stream_from_pull_def fx_defs capture_def calm_def)

lemma stream_from_chunks_yields: "calm h I \<Longrightarrow> stream_yields I (stream_from_chunks h cs) k w (concat cs) w"
  using chunks_pull_yields [of h I cs w] by (auto simp: stream_yields_def stream_from_chunks_def stream_from_pull_opens)

lemma wrapped_pull_opens: "s k I w = Some (Inr p, w1) \<Longrightarrow> map_fx h (s k) (pure g) I w = Some (Inr (g p), w1)"
  by (simp add: fx_defs capture_def)

lemma zipped_opens:
  "s k I w = Some (Inr p, w1) \<Longrightarrow> t k I w1 = Some (Inr q, w2) \<Longrightarrow> zip_fx h (s k) (t k) I w = Some (Inr (p, q), w2)"
  by (simp add: zip_fx_def fx_defs capture_def)

lemma map_stream_chunks_yields:
  assumes "stream_yields I s k w xs w'" "f [] = []" "\<And>c d. f (c @ d) = f c @ f d"
  shows "stream_yields I (map_stream_chunks h s f) k w (f xs) w'"
  using assms map_pull_chunks_yields [of I _ _ xs w' f]
  by (auto simp: stream_yields_def stream_opens wrapped_pull_opens map_pull_chunks_def)

text \<open>
  C19: on a stream that ends, each transform does to the values what the list function of its name
  does, however they are cut into chunks: mapping, filtering, dropping and concatenation also leave
  the world as their sources do; taking and taking while may stop earlier. Concatenation opens both
  streams before it pulls the first.
\<close>

theorem stream_transforms_match_lists:
  assumes "calm h I" "stream_yields I s k w xs w'"
  shows "stream_yields I (map_stream h s f) k w (map f xs) w' \<and> stream_yields I (filter_stream h s keep) k w (filter keep xs) w'
    \<and> stream_yields I (drop_stream h s n) k w (drop (nat n) xs) w'
    \<and> (\<exists>w''. stream_yields I (take_stream h s n) k w (take (nat n) xs) w'')
    \<and> (\<exists>w''. stream_yields I (take_stream_while h s keep) k w (takeWhile keep xs) w'')
    \<and> (s k I w = Some (Inr p, w1) \<and> t k I w1 = Some (Inr q, w2) \<and> yields I p w2 xs w3 \<and> yields I q w3 ys w4 \<longrightarrow>
        stream_yields I (concat_streams h s t) k w (xs @ ys) w4)"
proof (intro conjI impI)
  from assms(2) obtain p0 w0 where o: "s k I w = Some (Inr p0, w0)" and y: "yields I p0 w0 xs w'"
    by (auto simp: stream_yields_def)
  show "stream_yields I (map_stream h s f) k w (map f xs) w'"
    using map_stream_chunks_yields [OF assms(2), of "map_chunk f"] by (simp add: map_stream_def)
  show "stream_yields I (filter_stream h s keep) k w (filter keep xs) w'"
    using map_stream_chunks_yields [OF assms(2), of "filter_chunk keep"] by (simp add: filter_stream_def)
  show "stream_yields I (drop_stream h s n) k w (drop (nat n) xs) w'"
    using o drop_yields [OF y] by (auto simp: stream_yields_def stream_opens wrapped_pull_opens)
  show "\<exists>w''. stream_yields I (take_stream h s n) k w (take (nat n) xs) w''"
    using o take_yields [OF y assms(1)] by (auto simp: stream_yields_def stream_opens wrapped_pull_opens)
  show "\<exists>w''. stream_yields I (take_stream_while h s keep) k w (takeWhile keep xs) w''"
    using o take_while_yields [OF y assms(1)] by (auto simp: stream_yields_def stream_opens wrapped_pull_opens)
  assume a: "s k I w = Some (Inr p, w1) \<and> t k I w1 = Some (Inr q, w2) \<and> yields I p w2 xs w3 \<and> yields I q w3 ys w4"
  then have "zip_fx h (s k) (t k) I w = Some (Inr (p, q), w2)" using zipped_opens [of s k I w p w1 t q w2 h] by simp
  then have "concat_streams h s t k I w = Some (Inr (concat_pulls h p q), w2)"
    by (simp add: concat_streams_def map_fx_def guarded_def capture_def)
  then show "stream_yields I (concat_streams h s t) k w (xs @ ys) w4"
    using a concat_pulls_yields [of I p w2 xs w3 h q ys w4] assms(1) by (auto simp: stream_yields_def)
qed

lemma plain_calm: "calm plain_host plain_interp"
  by (simp add: calm_def machine_interrupt_def plain_host_def plain_interp_def)

theorem stream_transforms_match_lists_witness:
  "stream_yields plain_interp (filter_stream plain_host (stream_from_chunks plain_host [[1, 2], [], [3 :: int]]) (\<lambda>v. v > 1))
     0 [] [2, 3] []"
proof -
  have "stream_yields plain_interp (filter_stream plain_host (stream_from_chunks plain_host [[1, 2], [], [3 :: int]]) (\<lambda>v. v > 1))
      0 [] (filter (\<lambda>v. v > 1) (concat [[1, 2], [], [3]])) []"
    using stream_transforms_match_lists [OF plain_calm stream_from_chunks_yields [OF plain_calm]] by blast
  then show ?thesis by simp
qed

subsection \<open>Running a stream\<close>

text \<open>
  Without an observer a sink enters the fresh scope \<open>k\<close> and runs inside it as \<open>I'\<close>, from the world
  \<open>w2\<close>.
\<close>

definition enters ::
  "('v, 'c, ('f, 'v, 'z) heap_scheme) host \<Rightarrow> ('v, 'c, ('f, 'v, 'z) heap_scheme, 'f) scope_host
     \<Rightarrow> ('v, 'c, ('f, 'v, 'z) heap_scheme) interp \<Rightarrow> ('f, 'v, 'z) heap_scheme \<Rightarrow> nat
     \<Rightarrow> ('v, 'c, ('f, 'v, 'z) heap_scheme) interp \<Rightarrow> ('f, 'v, 'z) heap_scheme \<Rightarrow> bool" where
  "enters h S I w k I' w2 \<longleftrightarrow> \<not> has_observer (state_of I)
     \<and> I' = I\<lparr>context_of := child_context S (context_of I) k, state_of := with_scope k (state_of I)\<rparr>
     \<and> (case new_scope_at h (context_of I) w of (j, w1) \<Rightarrow> j = k \<and> snd (clock_now (services (state_of I)) w1) = w2)"

lemma run_fold_yields:
  assumes "enters h S I w k I' w2" "calm h I'" "stream_yields I' s k w2 xs w3"
    and "close_at h S k (context_of I') (Succeeded (any_of (foldl f z xs))) (scope_closed S) w3 = Some (cleanup, w4)"
  shows "run_fold h S any_of s z f I w = Some (if cleanup = Empty then Inr (foldl f z xs) else Inl cleanup, w4)"
proof -
  from assms(3) obtain p w' where "s k I' w2 = Some (Inr p, w')" "yields I' p w' xs w3"
    by (auto simp: stream_yields_def)
  then have b: "suspend_runtime h (\<lambda>_ w. Some (Inr (flat_map h (s k) (pure (\<lambda>p. fold_steps h p z f))), w)) I' w2
      = Some (Inr (foldl f z xs), w3)"
    using assms(2) by (simp add: fx_defs capture_def fold_steps_yields)
  from assms(1) obtain w1 start where e: "\<not> has_observer (state_of I)" "new_scope_at h (context_of I) w = (k, w1)"
    "clock_now (services (state_of I)) w1 = (start, w2)"
    "I' = I\<lparr>context_of := child_context S (context_of I) k, state_of := with_scope k (state_of I)\<rparr>"
    by (auto simp: enters_def split: prod.splits intro: prod.collapse [symmetric])
  show ?thesis
    unfolding run_fold_def
    using scoped_runs [where use = "\<lambda>k w. Some (Inr (flat_map h (s k) (pure (\<lambda>p. fold_steps h p z f))), w)"
        and any_of = any_of, OF e b] assms(4)
    by (simp add: erase_exit_def then_cause_def compose_def)
qed

lemma close_at_plain:
  assumes "status (scope_in k w) = ScopeOpen" "finalizers (scope_in k w) = []"
    and "children_wait S k (closing_world S k x w) = Some w1"
  shows "close_at h S k ctx x (scope_closed S) w = Some (Empty, put_scope k (finish_close (scope_in k w1)) w1)"
  using close_at_open [OF assms, where cs = "[]"] by simp

text \<open>
  C20: collecting a stream gives back exactly what it was made of: for a stream of chunks their
  concatenation, in general whatever it yields; folding is a left fold over those values. The scope
  of the sink is closed with the result before the sink returns, and a failure of closing takes the
  place of the result.
\<close>

theorem collecting_gives_back_the_values:
  assumes "enters h S I w k I' w2" "calm h I'"
  shows "(stream_yields I' s k w2 xs w3
      \<and> close_at h S k (context_of I') (Succeeded (any_of (foldl f z xs))) (scope_closed S) w3 = Some (cleanup, w4) \<longrightarrow>
        run_fold h S any_of s z f I w = Some (if cleanup = Empty then Inr (foldl f z xs) else Inl cleanup, w4))
    \<and> (status (scope_in k w2) = ScopeOpen \<and> finalizers (scope_in k w2) = []
      \<and> children_wait S k (closing_world S k (Succeeded (any_of' (concat cs))) w2) = Some w5 \<longrightarrow>
        run_collect h S any_of' (stream_from_chunks h cs) I w =
          Some (Inr (concat cs), put_scope k (finish_close (scope_in k w5)) w5))"
proof (intro conjI impI)
  show "run_fold h S any_of s z f I w = Some (if cleanup = Empty then Inr (foldl f z xs) else Inl cleanup, w4)"
    if "stream_yields I' s k w2 xs w3
      \<and> close_at h S k (context_of I') (Succeeded (any_of (foldl f z xs))) (scope_closed S) w3 = Some (cleanup, w4)"
    by (rule run_fold_yields [where any_of = any_of and f = f and z = z, OF assms conjunct1 [OF that] conjunct2 [OF that]])
  assume o: "status (scope_in k w2) = ScopeOpen \<and> finalizers (scope_in k w2) = []
      \<and> children_wait S k (closing_world S k (Succeeded (any_of' (concat cs))) w2) = Some w5"
  have "close_at h S k (context_of I') (Succeeded (any_of' (foldl (\<lambda>vs v. vs @ [v]) [] (concat cs)))) (scope_closed S) w2 =
      Some (Empty, put_scope k (finish_close (scope_in k w5)) w5)"
    by (subst close_at_plain) (use o in \<open>simp_all add: foldl_snoc del: scope_in_def\<close>)
  from run_fold_yields [where any_of = any_of' and f = "\<lambda>vs v. vs @ [v]" and z = "[]",
      OF assms stream_from_chunks_yields [OF assms(2)] this]
  show "run_collect h S any_of' (stream_from_chunks h cs) I w =
      Some (Inr (concat cs), put_scope k (finish_close (scope_in k w5)) w5)"
    by (simp add: run_collect_def foldl_snoc)
qed

lemma logged_enters:
  "enters logged_host logged_scopes logged_interp logged_world 0
     (logged_interp\<lparr>context_of := False, state_of := with_scope 0 logged_state\<rparr>) (logged_world\<lparr>next_scope := 1\<rparr>)"
  by (simp add: enters_def logged_defs new_scope_at_def has_observer_def fun_eq_iff)

lemma logged_calm: "calm logged_host (logged_interp\<lparr>context_of := False, state_of := with_scope 0 logged_state\<rparr>)"
  by (simp add: calm_def machine_interrupt_def logged_defs)

theorem collecting_gives_back_the_values_witness:
  "map_option fst (run_collect logged_host logged_scopes (\<lambda>_. [])
     (stream_from_chunks logged_host [[1, 2], [3 :: int]]) logged_interp logged_world) = Some (Inr [1, 2, 3])"
proof -
  have "run_collect logged_host logged_scopes (\<lambda>_. []) (stream_from_chunks logged_host [[1, 2], [3 :: int]])
      logged_interp logged_world = Some (Inr (concat [[1, 2], [3]]),
        put_scope 0 (finish_close (scope_in 0 (closing_world logged_scopes 0 (Succeeded []) (logged_world\<lparr>next_scope := 1\<rparr>))))
          (closing_world logged_scopes 0 (Succeeded []) (logged_world\<lparr>next_scope := 1\<rparr>)))"
    by (rule collecting_gives_back_the_values [OF logged_enters logged_calm, THEN conjunct2, THEN mp])
       (simp add: logged_defs new_scope_def)
  then show ?thesis by simp
qed

text \<open>
  C10: taking from a stream that need not end returns: as soon as the pulls so far have produced
  enough values the result is complete, and the scope is closed in the world the last of those pulls
  left. The source is not pulled again, so it may block, fail or go on for ever after that.
\<close>

theorem taking_stops_pulling:
  assumes "enters h S I w k I' w2" "calm h I'" "s k I' w2 = Some (Inr p, w3)"
    and "produces I' p w3 xs p1 w4" "int (length xs) < n"
    and "pull_next p1 I' w4 = Some ((Inr st, p2), w5)" "has_more st" "n \<le> int (length xs + length (chunk st))"
    and "close_at h S k (context_of I') (Succeeded (any_of (take (nat n) (xs @ chunk st)))) (scope_closed S) w5 = Some (Empty, w6)"
  shows "run_collect h S any_of (take_stream h s n) I w = Some (Inr (take (nat n) (xs @ chunk st)), w6)"
proof -
  have "yields I' (stage_pull h take_stage n p) w3 (take (nat n) (xs @ chunk st)) w5"
    by (rule take_produces [OF assms(4,2,5-8)])
  then have "stream_yields I' (take_stream h s n) k w2 (take (nat n) (xs @ chunk st)) w5"
    using assms(3) by (auto simp: stream_yields_def stream_opens wrapped_pull_opens)
  from run_fold_yields [where any_of = any_of and f = "\<lambda>vs v. vs @ [v]" and z = "[]", OF assms(1,2) this] assms(9)
  show ?thesis by (simp add: run_collect_def foldl_snoc)
qed

text \<open>A source that never ends and logs every evaluation.\<close>

definition tick :: "(string, bool, logged, int) fx" where
  "tick = from_runtime logged_host (\<lambda>_ w. Some (Inr (Inr (int (length (log w)))), w\<lparr>log := log w @ [''tick'']\<rparr>))"

theorem taking_stops_pulling_witness:
  "map_option (map_prod id log) (run_collect logged_host logged_scopes (\<lambda>_. [])
     (take_stream logged_host (stream_repeat_effect logged_host tick) 2) logged_interp logged_world)
   = Some (Inr [0, 1], [''tick'', ''tick''])"
proof -
  let ?I = "logged_interp\<lparr>context_of := False, state_of := with_scope 0 logged_state\<rparr>"
  let ?p = "repeated_pull (map_fx logged_host tick (pure (\<lambda>v. emit_chunk [v])))"
  let ?w = "\<lambda>l. logged_world\<lparr>next_scope := 1, log := l\<rparr>"
  let ?c = "closing_world logged_scopes 0 (Succeeded []) (?w [''tick'', ''tick''])"
  have p: "pull_next ?p ?I (?w l) = Some ((Inr (emit_chunk [int (length l)]), ?p), ?w (l @ [''tick'']))" for l
    by (simp add: stream_defs keeping_def tick_def fx_defs machine_interrupt_def logged_defs capture_def)
  have w: "?w [] = logged_world\<lparr>next_scope := 1\<rparr>" by (simp add: logged_world_def)
  have "produces ?I ?p (?w []) (chunk (emit_chunk [0 :: int]) @ []) ?p (?w [''tick''])"
    by (rule produces.pulled [OF _ _ produces.nothing]) (simp_all add: p [of "[]", simplified])
  moreover have "stream_repeat_effect logged_host tick 0 ?I (logged_world\<lparr>next_scope := 1\<rparr>) = Some (Inr ?p, ?w [])"
    unfolding w stream_repeat_effect_def by (rule stream_from_pull_opens [OF logged_calm])
  moreover have "close_at logged_host logged_scopes 0 (context_of ?I) (Succeeded []) (scope_closed logged_scopes)
      (?w [''tick'', ''tick'']) = Some (Empty, put_scope 0 (finish_close (scope_in 0 ?c)) ?c)"
    by (rule close_at_plain) (simp_all add: logged_defs new_scope_def)
  moreover have "log (put_scope 0 (finish_close (scope_in 0 ?c)) ?c) = [''tick'', ''tick'']"
    by (simp add: put_scope_def put_close_exit_def closing_world_def)
  ultimately show ?thesis
    using taking_stops_pulling [OF logged_enters logged_calm, of "stream_repeat_effect logged_host tick" ?p "?w []" "[0]" ?p
        "?w [''tick'']" 2 "emit_chunk [1]" ?p "?w [''tick'', ''tick'']" "\<lambda>_. []"] p [of "[''tick'']"]
    by (simp del: scope_in_def)
qed

end
