(* ===== verification/Parallel.thy ===== *)
theory Parallel
  imports Resource_Scope "HOL-Library.Multiset"
begin

section \<open>Parallel composition\<close>

text \<open>
  \<^verbatim>\<open>effect/internal/runtime/parallel.go\<close> and \<^verbatim>\<open>parallel_all.go\<close>, with what \<^verbatim>\<open>effect/concurrency.go\<close>,
  \<^verbatim>\<open>timeout.go\<close>, \<^verbatim>\<open>collections.go\<close> and \<^verbatim>\<open>struct_par.go\<close> make of their outcomes. The waiting goroutine
  and the branches interleave: \<open>pair_step\<close> and \<open>group_step\<close> are the steps of either, and the
  theorems hold on every execution. What a branch ends with is arbitrary.
\<close>

subsection \<open>Two branches\<close>

text \<open>\<open>RunPair\<close> starts both branches in a scope it has just opened.\<close>

definition start_pair :: "ledger option \<Rightarrow> 'f scope \<Rightarrow> (bool \<times> bool) \<times> 'f scope \<times> ledger option" where
  "start_pair l s =
     (case start_fiber l s of
        (left_started, s1, l1) \<Rightarrow>
          (case start_fiber l1 s1 of (right_started, s2, l2) \<Rightarrow> ((left_started, right_started), s2, l2)))"

lemma start_pair_accepted:
  "start_pair l (new_scope parent) = ((True, True), (new_scope parent)\<lparr>running := 2\<rparr>,
     record_fiber_start (record_fiber_start l))"
  by (simp add: start_pair_def start_fiber_def fork_def new_scope_def)

text \<open>
  The runner: a done channel that is no longer selected on is false. \<open>left_cancelled\<close> is the reason
  the runner itself cancelled the branch with; \<open>waiting\<close> is the fiber it blocks on inside \<open>Interrupt\<close>.
\<close>

record 'v pair_runner =
  left_fiber :: "'v completion"
  right_fiber :: "'v completion"
  left_done :: bool
  right_done :: bool
  outcome :: "'v pair_outcome"
  left_cancelled :: "nilable_err option"
  right_cancelled :: "nilable_err option"
  waiting :: side

definition new_pair :: "'v pair_runner" where
  "new_pair = \<lparr>left_fiber = new_completion, right_fiber = new_completion, left_done = True, right_done = True,
     outcome = \<lparr>left = Failed Empty, right = Failed Empty, first = NeitherSide\<rparr>,
     left_cancelled = None, right_cancelled = None, waiting = NeitherSide\<rparr>"

definition record_first :: "side \<Rightarrow> 'v pair_outcome \<Rightarrow> 'v pair_outcome" where
  "record_first s p = (if first p = NeitherSide then p\<lparr>first := s\<rparr> else p)"

definition collect_left :: "'v pair_runner \<Rightarrow> 'v pair_runner" where
  "collect_left r = r\<lparr>left_done := False,
     outcome := record_first LeftSide ((outcome r)\<lparr>left := (case poll (left_fiber r) of Some x \<Rightarrow> x | None \<Rightarrow> Failed Empty)\<rparr>)\<rparr>"

definition collect_right :: "'v pair_runner \<Rightarrow> 'v pair_runner" where
  "collect_right r = r\<lparr>right_done := False,
     outcome := record_first RightSide ((outcome r)\<lparr>right := (case poll (right_fiber r) of Some x \<Rightarrow> x | None \<Rightarrow> Failed Empty)\<rparr>)\<rparr>"

text \<open>Discarding cancels the fiber and then waits for it; \<open>interrupted_left\<close> is the end of the wait.\<close>

definition discard_left :: "nilable_err \<Rightarrow> 'v pair_runner \<Rightarrow> 'v pair_runner" where
  "discard_left reason r =
     (if \<not> left_done r then r
      else r\<lparr>left_done := False, left_cancelled := Some reason, waiting := LeftSide\<rparr>)"

definition discard_right :: "nilable_err \<Rightarrow> 'v pair_runner \<Rightarrow> 'v pair_runner" where
  "discard_right reason r =
     (if \<not> right_done r then r
      else r\<lparr>right_done := False, right_cancelled := Some reason, waiting := RightSide\<rparr>)"

definition interrupted_left :: "'v exit \<Rightarrow> 'v pair_runner \<Rightarrow> 'v pair_runner" where
  "interrupted_left x r = r\<lparr>outcome := (outcome r)\<lparr>left := x\<rparr>, waiting := NeitherSide\<rparr>"

definition interrupted_right :: "'v exit \<Rightarrow> 'v pair_runner \<Rightarrow> 'v pair_runner" where
  "interrupted_right x r = r\<lparr>outcome := (outcome r)\<lparr>right := x\<rparr>, waiting := NeitherSide\<rparr>"

type_synonym 'v settle_policy = "'v exit \<Rightarrow> bool"

text \<open>Steps of the runner, and of the branches that complete beside it.\<close>

inductive runner_step :: "'v settle_policy \<Rightarrow> nilable_err \<Rightarrow> 'v pair_runner \<Rightarrow> 'v pair_runner \<Rightarrow> bool"
  for settle :: "'v settle_policy" and reason :: nilable_err where
  selects_left:
    "waiting r = NeitherSide \<Longrightarrow> left_done r \<Longrightarrow> left_fiber r \<noteq> None \<Longrightarrow> r' = collect_left r \<Longrightarrow>
     runner_step settle reason r (if settle (left (outcome r')) then discard_right reason r' else r')"
| selects_right:
    "waiting r = NeitherSide \<Longrightarrow> right_done r \<Longrightarrow> right_fiber r \<noteq> None \<Longrightarrow> r' = collect_right r \<Longrightarrow>
     runner_step settle reason r (if settle (right (outcome r')) then discard_left reason r' else r')"
| awaits_left: "waiting r = LeftSide \<Longrightarrow> left_fiber r = Some x \<Longrightarrow> runner_step settle reason r (interrupted_left x r)"
| awaits_right: "waiting r = RightSide \<Longrightarrow> right_fiber r = Some x \<Longrightarrow> runner_step settle reason r (interrupted_right x r)"

inductive branch_step :: "'v pair_runner \<Rightarrow> 'v pair_runner \<Rightarrow> bool" where
  left_completes: "left_fiber r = None \<Longrightarrow> branch_step r (r\<lparr>left_fiber := snd (complete x (left_fiber r))\<rparr>)"
| right_completes: "right_fiber r = None \<Longrightarrow> branch_step r (r\<lparr>right_fiber := snd (complete x (right_fiber r))\<rparr>)"

inductive pair_reached :: "'v settle_policy \<Rightarrow> nilable_err \<Rightarrow> 'v pair_runner \<Rightarrow> bool"
  for settle :: "'v settle_policy" and reason :: nilable_err where
  starts: "pair_reached settle reason new_pair"
| runs: "pair_reached settle reason r \<Longrightarrow> runner_step settle reason r r' \<Longrightarrow> pair_reached settle reason r'"
| completes: "pair_reached settle reason r \<Longrightarrow> branch_step r r' \<Longrightarrow> pair_reached settle reason r'"

text \<open>The loop of \<open>wait\<close> has ended.\<close>

definition pair_finished :: "'v pair_runner \<Rightarrow> bool" where
  "pair_finished r \<longleftrightarrow> \<not> left_done r \<and> \<not> right_done r \<and> waiting r = NeitherSide"

lemmas pair_defs = collect_left_def collect_right_def discard_left_def discard_right_def interrupted_left_def
  interrupted_right_def record_first_def poll_def complete_def

subsection \<open>What the runner guarantees\<close>

text \<open>
  Where the runner can be: both branches open; one collected and the other still wanted; one
  collected, the other cancelled and awaited; finished.
\<close>

definition cancels :: "nilable_err option \<Rightarrow> nilable_err option \<Rightarrow> 'v pair_runner \<Rightarrow> bool" where
  [simp]: "cancels l r' r \<longleftrightarrow> left_cancelled r = l \<and> right_cancelled r = r'"

definition both_open :: "'v pair_runner \<Rightarrow> bool" where
  "both_open r \<longleftrightarrow> left_done r \<and> right_done r \<and> waiting r = NeitherSide \<and> first (outcome r) = NeitherSide \<and> cancels None None r"

definition left_collected :: "'v settle_policy \<Rightarrow> 'v pair_runner \<Rightarrow> bool" where
  "left_collected settle r \<longleftrightarrow> \<not> left_done r \<and> right_done r \<and> waiting r = NeitherSide \<and> first (outcome r) = LeftSide
     \<and> left_fiber r = Some (left (outcome r)) \<and> \<not> settle (left (outcome r)) \<and> cancels None None r"

definition right_collected :: "'v settle_policy \<Rightarrow> 'v pair_runner \<Rightarrow> bool" where
  "right_collected settle r \<longleftrightarrow> left_done r \<and> \<not> right_done r \<and> waiting r = NeitherSide \<and> first (outcome r) = RightSide
     \<and> right_fiber r = Some (right (outcome r)) \<and> \<not> settle (right (outcome r)) \<and> cancels None None r"

definition right_discarded :: "'v settle_policy \<Rightarrow> nilable_err \<Rightarrow> 'v pair_runner \<Rightarrow> bool" where
  "right_discarded settle reason r \<longleftrightarrow> \<not> left_done r \<and> \<not> right_done r \<and> waiting r = RightSide \<and> first (outcome r) = LeftSide
     \<and> left_fiber r = Some (left (outcome r)) \<and> settle (left (outcome r)) \<and> cancels None (Some reason) r"

definition left_discarded :: "'v settle_policy \<Rightarrow> nilable_err \<Rightarrow> 'v pair_runner \<Rightarrow> bool" where
  "left_discarded settle reason r \<longleftrightarrow> \<not> left_done r \<and> \<not> right_done r \<and> waiting r = LeftSide \<and> first (outcome r) = RightSide
     \<and> right_fiber r = Some (right (outcome r)) \<and> settle (right (outcome r)) \<and> cancels (Some reason) None r"

definition both_collected :: "'v settle_policy \<Rightarrow> nilable_err \<Rightarrow> 'v pair_runner \<Rightarrow> bool" where
  "both_collected settle reason r \<longleftrightarrow> pair_finished r \<and> first (outcome r) \<noteq> NeitherSide
     \<and> left_fiber r = Some (left (outcome r)) \<and> right_fiber r = Some (right (outcome r))
     \<and> cancels (if first (outcome r) = RightSide \<and> settle (right (outcome r)) then Some reason else None)
         (if first (outcome r) = LeftSide \<and> settle (left (outcome r)) then Some reason else None) r"

definition pair_inv :: "'v settle_policy \<Rightarrow> nilable_err \<Rightarrow> 'v pair_runner \<Rightarrow> bool" where
  "pair_inv settle reason r \<longleftrightarrow> both_open r \<or> left_collected settle r \<or> right_collected settle r
     \<or> left_discarded settle reason r \<or> right_discarded settle reason r \<or> both_collected settle reason r"

lemmas pair_phases = both_open_def left_collected_def right_collected_def left_discarded_def right_discarded_def
  both_collected_def pair_finished_def

inductive_cases runner_stepE: "runner_step settle reason r r'"

lemma runner_step_phases:
  assumes "runner_step settle reason r r'"
  shows "both_open r \<Longrightarrow> left_collected settle r' \<or> right_collected settle r' \<or> left_discarded settle reason r'
      \<or> right_discarded settle reason r'"
    and "left_collected settle r \<Longrightarrow> both_collected settle reason r'"
    and "right_collected settle r \<Longrightarrow> both_collected settle reason r'"
    and "left_discarded settle reason r \<Longrightarrow> both_collected settle reason r'"
    and "right_discarded settle reason r \<Longrightarrow> both_collected settle reason r'"
    and "\<not> both_collected settle reason r"
  using assms by (cases rule: runner_step.cases; auto simp: pair_phases pair_defs)+

lemma pair_inv_runner:
  assumes "runner_step settle reason r r'" "pair_inv settle reason r"
  shows "pair_inv settle reason r'"
  using assms(2) runner_step_phases [OF assms(1)] unfolding pair_inv_def by blast

lemma pair_inv_branch:
  assumes "branch_step r r'"
  shows "both_open r \<Longrightarrow> both_open r'" "left_collected settle r \<Longrightarrow> left_collected settle r'"
    "right_collected settle r \<Longrightarrow> right_collected settle r'"
    "left_discarded settle reason r \<Longrightarrow> left_discarded settle reason r'"
    "right_discarded settle reason r \<Longrightarrow> right_discarded settle reason r'"
    "both_collected settle reason r \<Longrightarrow> both_collected settle reason r'"
  using assms by (cases rule: branch_step.cases; auto simp: pair_phases pair_defs)+

lemma pair_reached_inv: "pair_reached settle reason r \<Longrightarrow> pair_inv settle reason r"
proof (induction rule: pair_reached.induct)
  case starts
  show ?case by (simp add: pair_inv_def both_open_def new_pair_def)
next
  case (runs r r')
  then show ?case using pair_inv_runner by metis
next
  case (completes r r')
  then show ?case using pair_inv_branch [OF completes.hyps(2)] unfolding pair_inv_def by blast
qed

lemma pair_finished_collected:
  "pair_reached settle reason r \<Longrightarrow> pair_finished r \<Longrightarrow> both_collected settle reason r"
  using pair_reached_inv [of settle reason r] by (auto simp: pair_inv_def pair_phases)

text \<open>How far the runner is from its end.\<close>

definition pair_remaining :: "'v pair_runner \<Rightarrow> nat" where
  "pair_remaining r = 2 * of_bool (left_done r) + 2 * of_bool (right_done r) + of_bool (waiting r \<noteq> NeitherSide)"

lemma runner_step_decreases: "runner_step settle reason r r' \<Longrightarrow> pair_remaining r' < pair_remaining r"
  by (induction rule: runner_step.induct) (auto simp: pair_remaining_def pair_defs)

lemma runner_never_stuck:
  assumes "left_fiber r \<noteq> None" "right_fiber r \<noteq> None" "\<not> pair_finished r"
  shows "\<exists>r'. runner_step settle reason r r'"
proof (cases "waiting r")
  case NeitherSide
  with assms show ?thesis by (auto simp: pair_finished_def intro: runner_step.intros)
qed (use assms in \<open>auto intro: runner_step.intros\<close>)

lemma runner_keeps_fibers:
  "runner_step settle reason r r' \<Longrightarrow> left_fiber r' = left_fiber r \<and> right_fiber r' = right_fiber r"
  by (induction rule: runner_step.induct) (simp_all add: pair_defs)

text \<open>Once both branches have completed, only the runner moves, and it makes progress.\<close>

interpretation pair: progressing "runner_step settle reason"
  "\<lambda>r. left_fiber r \<noteq> None \<and> right_fiber r \<noteq> None \<and> pair_inv settle reason r" pair_finished pair_remaining
  for settle :: "'v settle_policy" and reason :: nilable_err
proof unfold_locales
  fix r r' :: "'v pair_runner"
  assume "runner_step settle reason r r'"
    and inv: "left_fiber r \<noteq> None \<and> right_fiber r \<noteq> None \<and> pair_inv settle reason r"
  then show "left_fiber r' \<noteq> None \<and> right_fiber r' \<noteq> None \<and> pair_inv settle reason r'"
    using runner_keeps_fibers pair_inv_runner by metis
  show "pair_remaining r' < pair_remaining r" using \<open>runner_step settle reason r r'\<close> by (rule runner_step_decreases)
next
  fix r :: "'v pair_runner"
  assume "left_fiber r \<noteq> None \<and> right_fiber r \<noteq> None \<and> pair_inv settle reason r" "\<not> pair_finished r"
  then show "\<exists>r'. runner_step settle reason r r'" using runner_never_stuck by blast
qed

text \<open>
  C3: whatever the interleaving, when the runner of two branches has finished both have completed
  and the outcome holds their terminal exits and the side collected first; a branch was cancelled, and
  with the composition's own reason, exactly when the exit of the side collected first settled the
  composition. Once both branches have completed the runner comes to its end, in at most four steps.
\<close>

theorem pair_waits_for_both_branches:
  assumes "pair_reached settle reason r"
  shows "(pair_finished r \<longrightarrow>
        left_fiber r = Some (left (outcome r)) \<and> right_fiber r = Some (right (outcome r))
      \<and> first (outcome r) \<noteq> NeitherSide
      \<and> right_cancelled r = (if first (outcome r) = LeftSide \<and> settle (left (outcome r)) then Some reason else None)
      \<and> left_cancelled r = (if first (outcome r) = RightSide \<and> settle (right (outcome r)) then Some reason else None))
    \<and> (left_fiber r \<noteq> None \<and> right_fiber r \<noteq> None \<longrightarrow>
        (\<exists>r'. (runner_step settle reason)\<^sup>*\<^sup>* r r' \<and> pair_finished r')
      \<and> (\<forall>n r'. (runner_step settle reason ^^ n) r r' \<longrightarrow> n \<le> 4))"
proof (intro conjI impI allI)
  note inv = pair_reached_inv [OF assms]
  assume f: "left_fiber r \<noteq> None \<and> right_fiber r \<noteq> None"
  show "\<exists>r'. (runner_step settle reason)\<^sup>*\<^sup>* r r' \<and> pair_finished r'" using pair.run_ends f inv by blast
  show "n \<le> 4" if "(runner_step settle reason ^^ n) r r'" for n r'
  proof -
    have "pair_remaining r \<le> 4"
      using inv by (auto simp: pair_inv_def pair_phases pair_remaining_def)
    with pair.run_bounded [OF that] f inv show ?thesis by auto
  qed
qed (use pair_finished_collected [OF assms] in \<open>auto simp: both_collected_def\<close>)

subsection \<open>Policies and resolvers\<close>

definition settle_on_failure :: "'v settle_policy" where
  "settle_on_failure x \<longleftrightarrow> \<not> is_success x"

definition settle_on_success :: "'v settle_policy" where
  "settle_on_success x \<longleftrightarrow> is_success x"

definition settle_always :: "'v settle_policy" where
  "settle_always x \<longleftrightarrow> True"

definition pair_failure :: "'v pair_outcome \<Rightarrow> nilable_err \<Rightarrow> 'v exit" where
  "pair_failure p reason = Failed (combine_parallel_causes p reason)"

text \<open>The typed result of \<open>ZipPar\<close> is a pair of values.\<close>

definition both_results :: "'v pair_outcome \<Rightarrow> nilable_err \<Rightarrow> 'v cause + 'v \<times> 'v" where
  "both_results p reason =
     (case (exit_value (left p), exit_value (right p)) of
        (Some a, Some b) \<Rightarrow> Inr (a, b)
      | _ \<Rightarrow> Inl (exit_cause (pair_failure p reason)))"

definition pick_success :: "'v pair_outcome \<Rightarrow> 'v exit option" where
  "pick_success p =
     (if is_success (left p) \<and> is_success (right p) then
        (if first p = RightSide then Some (right p) else Some (left p))
      else if is_success (left p) then Some (left p)
      else if is_success (right p) then Some (right p)
      else None)"

definition first_success :: "'v pair_outcome \<Rightarrow> nilable_err \<Rightarrow> 'v exit" where
  "first_success p reason = (case pick_success p of Some winner \<Rightarrow> winner | None \<Rightarrow> pair_failure p reason)"

definition first_completion :: "'v pair_outcome \<Rightarrow> nilable_err \<Rightarrow> 'v exit" where
  "first_completion p reason =
     (if first p = RightSide then right p
      else if first p = LeftSide then left p
      else pair_failure p reason)"

definition timeout_resolver :: "'v exit \<Rightarrow> 'v pair_outcome \<Rightarrow> nilable_err \<Rightarrow> 'v exit" where
  "timeout_resolver on_timeout p reason =
     (if \<not> (first p = RightSide \<and> is_success (right p)) then left p
      else let work_cause = exit_cause (left p)
           in if is_empty work_cause \<or> is_induced work_cause reason then on_timeout
              else Failed (then_cause (exit_cause on_timeout) work_cause))"

text \<open>The reasons a composition cancels a branch with; sentinels are told apart by identity.\<close>

definition err_sibling_failed :: nilable_err where
  "err_sibling_failed = Some (GoErr 3 ''effect: parallel sibling failed'' [])"

definition err_race_lost :: nilable_err where
  "err_race_lost = Some (GoErr 4 ''effect: race lost'' [])"

definition err_timed_out :: nilable_err where
  "err_timed_out = Some (GoErr 5 ''effect: timed out'' [])"

text \<open>
  What \<open>pairResults\<close> is given beside its branches, and what it answers for a finished runner; the
  cleanup is the cause the private scope closed with, and \<open>after_cleanup\<close> is \<open>composeCleanup\<close>.
\<close>

record 'v composition =
  policy :: "'v settle_policy"
  cancel_reason :: nilable_err
  resolver :: "'v pair_outcome \<Rightarrow> nilable_err \<Rightarrow> 'v exit"

definition pair_results :: "'v composition \<Rightarrow> 'v pair_runner \<Rightarrow> 'v cause \<Rightarrow> 'v exit" where
  "pair_results c r cleanup = after_cleanup (resolver c (outcome r) (cancel_reason c)) cleanup"

definition race :: "'v composition" where
  "race = \<lparr>policy = settle_on_success, cancel_reason = err_race_lost, resolver = first_success\<rparr>"

definition race_first :: "'v composition" where
  "race_first = \<lparr>policy = settle_always, cancel_reason = err_race_lost, resolver = first_completion\<rparr>"

definition race_the_clock :: "'v exit \<Rightarrow> 'v composition" where
  "race_the_clock on_timeout =
     \<lparr>policy = settle_always, cancel_reason = err_timed_out, resolver = timeout_resolver on_timeout\<rparr>"

definition timeout_fail :: "'v \<Rightarrow> 'v composition" where
  "timeout_fail failure = race_the_clock (Failed (fail_cause failure))"

definition timeout_to :: "'v \<Rightarrow> 'v composition" where
  "timeout_to fallback = race_the_clock (Succeeded fallback)"

text \<open>\<open>ZipPar\<close>, whose result is typed as a pair.\<close>

definition zip_par :: "'v pair_runner \<Rightarrow> 'v cause \<Rightarrow> 'v cause + 'v \<times> 'v" where
  "zip_par r cleanup =
     (let x = both_results (outcome r) err_sibling_failed
      in if is_empty cleanup then x
         else Inl (then_cause (case x of Inl c \<Rightarrow> c | Inr _ \<Rightarrow> Empty) cleanup))"

definition composition_ended :: "'v settle_policy \<Rightarrow> nilable_err \<Rightarrow> 'v pair_runner \<Rightarrow> bool" where
  "composition_ended settle reason r \<longleftrightarrow> pair_reached settle reason r \<and> pair_finished r
     \<and> proper (exit_cause (the (left_fiber r))) \<and> proper (exit_cause (the (right_fiber r)))"

text \<open>The left branch fails first: the right one is cancelled, answers the interruption, and is awaited.\<close>

definition failed_pair :: "int pair_runner" where
  "failed_pair = \<lparr>left_fiber = Some (Failed (fail_cause 7)), right_fiber = Some (Failed (interrupt_cause err_sibling_failed)),
     left_done = False, right_done = False,
     outcome = \<lparr>left = Failed (fail_cause 7), right = Failed (interrupt_cause err_sibling_failed), first = LeftSide\<rparr>,
     left_cancelled = None, right_cancelled = Some err_sibling_failed, waiting = NeitherSide\<rparr>"

lemma failed_pair_reached: "pair_reached settle_on_failure err_sibling_failed failed_pair"
proof -
  let ?l = "Failed (fail_cause 7) :: int exit" and ?r = "Failed (interrupt_cause err_sibling_failed) :: int exit"
  let ?a = "new_pair\<lparr>left_fiber := Some ?l\<rparr>"
  let ?b = "discard_right err_sibling_failed (collect_left ?a)"
  let ?c = "?b\<lparr>right_fiber := Some ?r\<rparr>"
  have "pair_reached settle_on_failure err_sibling_failed ?a"
    using pair_reached.completes [OF pair_reached.starts branch_step.left_completes [of new_pair ?l]]
    by (simp add: new_pair_def new_completion_def complete_def)
  moreover have "runner_step settle_on_failure err_sibling_failed ?a ?b"
    using runner_step.selects_left [of ?a "collect_left ?a" settle_on_failure err_sibling_failed]
    by (simp add: new_pair_def collect_left_def record_first_def poll_def settle_on_failure_def)
  ultimately have "pair_reached settle_on_failure err_sibling_failed ?b" by (rule pair_reached.runs)
  moreover have "branch_step ?b ?c"
    using branch_step.right_completes [of ?b ?r]
    by (simp add: new_pair_def collect_left_def discard_right_def new_completion_def complete_def)
  ultimately have "pair_reached settle_on_failure err_sibling_failed ?c" by (rule pair_reached.completes)
  moreover have "runner_step settle_on_failure err_sibling_failed ?c (interrupted_right ?r ?c)"
    by (rule runner_step.awaits_right) (simp_all add: new_pair_def collect_left_def discard_right_def)
  ultimately have "pair_reached settle_on_failure err_sibling_failed (interrupted_right ?r ?c)" by (rule pair_reached.runs)
  moreover have "interrupted_right ?r ?c = failed_pair"
    by (simp add: failed_pair_def pair_defs new_pair_def new_completion_def)
  ultimately show ?thesis by simp
qed

theorem pair_waits_for_both_branches_witness:
  "right_fiber failed_pair = Some (right (outcome failed_pair)) \<and> right_cancelled failed_pair = Some err_sibling_failed"
  using pair_waits_for_both_branches [OF failed_pair_reached] by (simp add: failed_pair_def pair_finished_def)

text \<open>The terminal exit of the branch collected first, and of the other.\<close>

definition exit_of_first :: "'v pair_runner \<Rightarrow> 'v exit" where
  "exit_of_first r = the (if first (outcome r) = RightSide then right_fiber r else left_fiber r)"

definition exit_of_other :: "'v pair_runner \<Rightarrow> 'v exit" where
  "exit_of_other r = the (if first (outcome r) = RightSide then left_fiber r else right_fiber r)"

lemma both_collected_exits:
  "both_collected settle reason r \<Longrightarrow>
   left (outcome r) = the (left_fiber r) \<and> right (outcome r) = the (right_fiber r)
   \<and> (first (outcome r) = LeftSide \<or> first (outcome r) = RightSide)"
  by (cases "first (outcome r)") (auto simp: both_collected_def)

lemma first_success_resolves:
  assumes "pair_reached settle reason r" "pair_finished r"
  shows "first_success (outcome r) why =
      (if is_success (exit_of_first r) then exit_of_first r
       else if is_success (exit_of_other r) then exit_of_other r
       else pair_failure (outcome r) why)"
    "first_completion (outcome r) why = exit_of_first r"
    "both_results (outcome r) why =
       (case (the (left_fiber r), the (right_fiber r)) of
          (Succeeded a, Succeeded b) \<Rightarrow> Inr (a, b)
        | _ \<Rightarrow> Inl (exit_cause (pair_failure (outcome r) why)))"
  using both_collected_exits [OF pair_finished_collected [OF assms]]
  by (auto simp: first_success_def pick_success_def first_completion_def both_results_def exit_of_first_def
      exit_of_other_def split: exit.splits)

lemma pair_failure_keeps:
  assumes "composition_ended settle reason r"
  shows "failures (exit_cause (pair_failure (outcome r) why)) =
      failures (exit_cause (the (left_fiber r))) @ failures (exit_cause (the (right_fiber r)))"
    "defects (exit_cause (pair_failure (outcome r) why)) =
      defects (exit_cause (the (left_fiber r))) @ defects (exit_cause (the (right_fiber r)))"
  using assms both_collected_exits [OF pair_finished_collected [of settle reason r]]
    induced_has_interruptions_only [of "exit_cause (left (outcome r))" why]
    induced_has_interruptions_only [of "exit_cause (right (outcome r))" why]
  by (auto simp: composition_ended_def pair_failure_def combine_parallel_causes_def Let_def List.map_filter_def)



text \<open>
  A branch that was interrupted from outside with the composition's own reason counts as one this
  composition cancelled: zipped with a success, the composition fails with an empty cause.
\<close>

lemma zip_par_fails_with_empty_cause:
  assumes "left p = Succeeded a" "right p = Failed (interrupt_cause (Some e))"
  shows "both_results p (Some e) = Inl Empty"
  using assms
  by (simp add: both_results_def pair_failure_def combine_parallel_causes_def Let_def is_induced_iff
      interrupt_cause_def)


definition timed_out_pair :: "int pair_runner" where
  "timed_out_pair = \<lparr>left_fiber = Some (Failed (die_cause \<lparr>defect_value = 3, defect_stack = []\<rparr>)),
     right_fiber = Some (Succeeded 0), left_done = False, right_done = False,
     outcome = \<lparr>left = Failed (die_cause \<lparr>defect_value = 3, defect_stack = []\<rparr>), right = Succeeded 0, first = RightSide\<rparr>,
     left_cancelled = Some err_timed_out, right_cancelled = None, waiting = NeitherSide\<rparr>"

lemma timed_out_pair_reached: "pair_reached settle_always err_timed_out timed_out_pair"
proof -
  let ?l = "Failed (die_cause \<lparr>defect_value = 3, defect_stack = []\<rparr>) :: int exit"
  let ?a = "new_pair\<lparr>right_fiber := Some (Succeeded (0 :: int))\<rparr>"
  let ?b = "discard_left err_timed_out (collect_right ?a)"
  let ?c = "?b\<lparr>left_fiber := Some ?l\<rparr>"
  have "pair_reached settle_always err_timed_out ?a"
    using pair_reached.completes [OF pair_reached.starts branch_step.right_completes [of new_pair "Succeeded (0 :: int)"]]
    by (simp add: new_pair_def new_completion_def complete_def)
  moreover have "runner_step settle_always err_timed_out ?a ?b"
    using runner_step.selects_right [of ?a "collect_right ?a" settle_always err_timed_out]
    by (simp add: new_pair_def collect_right_def record_first_def poll_def settle_always_def)
  ultimately have "pair_reached settle_always err_timed_out ?b" by (rule pair_reached.runs)
  moreover have "branch_step ?b ?c"
    using branch_step.left_completes [of ?b ?l]
    by (simp add: new_pair_def collect_right_def discard_left_def new_completion_def complete_def)
  ultimately have "pair_reached settle_always err_timed_out ?c" by (rule pair_reached.completes)
  moreover have "runner_step settle_always err_timed_out ?c (interrupted_left ?l ?c)"
    by (rule runner_step.awaits_left) (simp_all add: new_pair_def collect_right_def discard_left_def)
  ultimately have "pair_reached settle_always err_timed_out (interrupted_left ?l ?c)" by (rule pair_reached.runs)
  moreover have "interrupted_left ?l ?c = timed_out_pair"
    by (simp add: timed_out_pair_def pair_defs new_pair_def new_completion_def)
  ultimately show ?thesis by simp
qed


subsection \<open>Many branches\<close>

text \<open>
  \<open>RunAll\<close>: every branch waits for a permit, runs, reports its own exit on a channel with room for
  all, and its fiber completes with the exit its child scope was closed with. A branch that is
  cancelled while it waits for a permit ends without running.
\<close>

datatype 'v branch_phase = Queued | Running | Ended "'v exit" | Reported "'v exit" | Complete "'v exit" "'v exit"

text \<open>
  \<open>Complete x y\<close>: the body ended with \<open>x\<close>, the fiber with \<open>y\<close>. \<open>held\<close> counts the branches past their
  permit, \<open>seen\<close> is what the loop of \<open>awaitFirstFailure\<close> has received.
\<close>

record 'v group =
  branches :: "'v branch_phase list"
  permits :: "nat option"
  held :: nat
  completions :: "'v exit list"
  seen :: "'v exit list"
  abandoned :: bool
  group_cancelled :: "nilable_err option"
  exits :: "'v exit list"

definition permits_for :: "int \<Rightarrow> nat \<Rightarrow> nat option" where
  "permits_for limit n = (if limit \<le> 0 \<or> limit \<ge> int n then None else Some (nat limit))"

definition start_all :: "int \<Rightarrow> nat \<Rightarrow> nilable_err option \<Rightarrow> 'v group" where
  "start_all limit n parent = \<lparr>branches = replicate n Queued, permits = permits_for limit n, held = 0, completions = [],
     seen = [], abandoned = False, group_cancelled = parent, exits = []\<rparr>"

definition interrupt_group :: "nilable_err \<Rightarrow> 'v group \<Rightarrow> 'v group" where
  "interrupt_group reason g =
     (case group_cancelled g of None \<Rightarrow> g\<lparr>group_cancelled := Some reason\<rparr> | Some _ \<Rightarrow> g)"

text \<open>One turn of the loop of \<open>awaitFirstFailure\<close>, for the exit it received.\<close>

definition on_completion :: "nilable_err \<Rightarrow> 'v exit \<Rightarrow> 'v group \<Rightarrow> 'v group" where
  "on_completion reason x g =
     (if is_success x \<or> abandoned g then g else interrupt_group reason (g\<lparr>abandoned := True\<rparr>))"

inductive group_step :: "nilable_err \<Rightarrow> 'v group \<Rightarrow> 'v group \<Rightarrow> bool"
  for reason :: nilable_err where
  acquires:
    "i < length (branches g) \<Longrightarrow> branches g ! i = Queued \<Longrightarrow> (case permits g of None \<Rightarrow> True | Some p \<Rightarrow> held g < p) \<Longrightarrow>
     group_step reason g (g\<lparr>branches := (branches g)[i := Running], held := Suc (held g)\<rparr>)"
| gives_up:
    "i < length (branches g) \<Longrightarrow> branches g ! i = Queued \<Longrightarrow> permits g \<noteq> None \<Longrightarrow> group_cancelled g = Some r \<Longrightarrow>
     group_step reason g (g\<lparr>branches := (branches g)[i := Ended (Failed (interrupt_cause r))]\<rparr>)"
| ends:
    "i < length (branches g) \<Longrightarrow> branches g ! i = Running \<Longrightarrow>
     group_step reason g (g\<lparr>branches := (branches g)[i := Ended x], held := held g - 1\<rparr>)"
| reports:
    "i < length (branches g) \<Longrightarrow> branches g ! i = Ended x \<Longrightarrow> length (completions g) < length (branches g) \<Longrightarrow>
     group_step reason g (g\<lparr>branches := (branches g)[i := Reported x], completions := completions g @ [x]\<rparr>)"
| completes:
    "i < length (branches g) \<Longrightarrow> branches g ! i = Reported x \<Longrightarrow>
     group_step reason g (g\<lparr>branches := (branches g)[i := Complete x (after_cleanup x cleanup)]\<rparr>)"
| receives:
    "length (seen g) < length (branches g) \<Longrightarrow> completions g = x # rest \<Longrightarrow>
     group_step reason g (on_completion reason x (g\<lparr>completions := rest, seen := seen g @ [x]\<rparr>))"
| collects:
    "length (seen g) = length (branches g) \<Longrightarrow> length (exits g) < length (branches g) \<Longrightarrow>
     branches g ! length (exits g) = Complete x y \<Longrightarrow>
     group_step reason g (g\<lparr>exits := exits g @ [y]\<rparr>)"
| cancelled_outside:
    "group_cancelled g = None \<Longrightarrow> group_step reason g (g\<lparr>group_cancelled := Some r\<rparr>)"

inductive group_reached :: "nilable_err \<Rightarrow> int \<Rightarrow> nat \<Rightarrow> 'v group \<Rightarrow> bool"
  for reason :: nilable_err and limit :: int and n :: nat where
  starts: "group_reached reason limit n (start_all limit n parent)"
| runs: "group_reached reason limit n g \<Longrightarrow> group_step reason g g' \<Longrightarrow> group_reached reason limit n g'"

definition group_finished :: "'v group \<Rightarrow> bool" where
  "group_finished g \<longleftrightarrow> length (exits g) = length (branches g)"

subsection \<open>Updates of one branch\<close>

lemma length_filter_update:
  "i < length xs \<Longrightarrow>
   length (filter P (xs[i := y])) + of_bool (P (xs ! i)) = length (filter P xs) + of_bool (P y)"
proof (induction xs arbitrary: i)
  case (Cons x xs)
  then show ?case by (cases i) auto
qed simp

lemma mset_map_filter_update:
  "i < length xs \<Longrightarrow>
   mset (List.map_filter f (xs[i := y])) + mset_set (set_option (f (xs ! i))) =
   mset (List.map_filter f xs) + mset_set (set_option (f y))"
proof (induction xs arbitrary: i)
  case (Cons x xs)
  then show ?case
    by (cases i) (auto simp: List.map_filter_simps split: option.splits)
qed simp

text \<open>What a branch has reported.\<close>

fun reported_exit :: "'v branch_phase \<Rightarrow> 'v exit option" where
  "reported_exit (Reported x) = Some x"
| "reported_exit (Complete x y) = Some x"
| "reported_exit _ = None"

fun steps_left :: "'v branch_phase \<Rightarrow> nat" where
  "steps_left Queued = 4"
| "steps_left Running = 3"
| "steps_left (Ended _) = 2"
| "steps_left (Reported _) = 1"
| "steps_left (Complete _ _) = 0"

lemma sum_list_update_nat:
  "i < length xs \<Longrightarrow> sum_list (map f (xs[i := y])) + f (xs ! i) = sum_list (map f xs) + (f y :: nat)"
proof (induction xs arbitrary: i)
  case (Cons x xs)
  then show ?case by (cases i) auto
qed simp

subsection \<open>What the group guarantees\<close>

definition group_inv :: "int \<Rightarrow> nat \<Rightarrow> 'v group \<Rightarrow> bool" where
  "group_inv limit n g \<longleftrightarrow>
     length (branches g) = n \<and> permits g = permits_for limit n
   \<and> held g = length (filter (\<lambda>b. b = Running) (branches g))
   \<and> (\<forall>p. permits g = Some p \<longrightarrow> held g \<le> p)
   \<and> mset (seen g @ completions g) = mset (List.map_filter reported_exit (branches g))
   \<and> (abandoned g \<longleftrightarrow> (\<exists>x\<in>set (seen g). \<not> is_success x)) \<and> (abandoned g \<longrightarrow> group_cancelled g \<noteq> None)
   \<and> (exits g \<noteq> [] \<longrightarrow> length (seen g) = n) \<and> length (exits g) \<le> n
   \<and> (\<forall>j<length (exits g). \<exists>x. branches g ! j = Complete x (exits g ! j))"

lemma on_completion_simps [simp]:
  "branches (on_completion reason x g) = branches g" "permits (on_completion reason x g) = permits g"
  "held (on_completion reason x g) = held g" "completions (on_completion reason x g) = completions g"
  "seen (on_completion reason x g) = seen g" "exits (on_completion reason x g) = exits g"
  "abandoned (on_completion reason x g) \<longleftrightarrow> abandoned g \<or> \<not> is_success x"
  by (simp_all add: on_completion_def interrupt_group_def split: option.split)

lemma on_completion_cancelled:
  "(abandoned g \<longrightarrow> group_cancelled g \<noteq> None) \<Longrightarrow>
   abandoned (on_completion reason x g) \<longrightarrow> group_cancelled (on_completion reason x g) \<noteq> None"
  by (auto simp: on_completion_def interrupt_group_def split: option.split)

lemma group_inv_start: "group_inv limit n (start_all limit n parent)"
proof -
  have "filter (\<lambda>b. b = Running) (replicate n (Queued :: 'a branch_phase)) = []"
    "List.map_filter reported_exit (replicate n (Queued :: 'a branch_phase)) = []"
    by (induction n) (simp_all add: List.map_filter_simps)
  then show ?thesis by (simp add: group_inv_def start_all_def)
qed

lemma group_inv_step:
  assumes "group_step reason g g'" "group_inv limit n g"
  shows "group_inv limit n g'"
  using assms
proof (cases rule: group_step.cases)
  case (acquires i)
  note u = length_filter_update [of i "branches g" "\<lambda>b. b = Running" Running]
    mset_map_filter_update [of i "branches g" reported_exit Running]
  show ?thesis using acquires assms(2) u by (auto simp: group_inv_def nth_list_update split: option.splits)
next
  case (gives_up i r)
  note u = length_filter_update [of i "branches g" "\<lambda>b. b = Running" "Ended (Failed (interrupt_cause r))"]
    mset_map_filter_update [of i "branches g" reported_exit "Ended (Failed (interrupt_cause r))"]
  show ?thesis using gives_up assms(2) u by (auto simp: group_inv_def nth_list_update)
next
  case (ends i x)
  note u = length_filter_update [of i "branches g" "\<lambda>b. b = Running" "Ended x"]
    mset_map_filter_update [of i "branches g" reported_exit "Ended x"]
  show ?thesis using ends assms(2) u by (auto simp: group_inv_def nth_list_update)
next
  case (reports i x)
  note u = length_filter_update [of i "branches g" "\<lambda>b. b = Running" "Reported x"]
    mset_map_filter_update [of i "branches g" reported_exit "Reported x"]
  show ?thesis using reports assms(2) u by (auto simp: group_inv_def nth_list_update)
next
  case (completes i x cleanup)
  note u = length_filter_update [of i "branches g" "\<lambda>b. b = Running" "Complete x (after_cleanup x cleanup)"]
    mset_map_filter_update [of i "branches g" reported_exit "Complete x (after_cleanup x cleanup)"]
  show ?thesis using completes assms(2) u by (auto simp: group_inv_def nth_list_update)
next
  case (receives x rest)
  show ?thesis
    using receives assms(2) on_completion_cancelled [of "g\<lparr>completions := rest, seen := seen g @ [x]\<rparr>" reason x]
    by (auto simp: group_inv_def)
next
  case (collects x y)
  then show ?thesis using assms(2) by (auto simp: group_inv_def nth_append less_Suc_eq)
next
  case (cancelled_outside r)
  then show ?thesis using assms(2) by (auto simp: group_inv_def)
qed

lemma group_reached_inv: "group_reached reason limit n g \<Longrightarrow> group_inv limit n g"
  by (induction rule: group_reached.induct) (auto intro: group_inv_start group_inv_step)

definition group_remaining :: "'v group \<Rightarrow> nat" where
  "group_remaining g = sum_list (map steps_left (branches g)) + (length (branches g) - length (seen g))
     + (length (branches g) - length (exits g)) + of_bool (group_cancelled g = None)"

lemma group_step_decreases:
  assumes "group_step reason g g'"
  shows "group_remaining g' < group_remaining g"
  using assms
proof (cases rule: group_step.cases)
  case (acquires i)
  with sum_list_update_nat [of i "branches g" steps_left Running] show ?thesis by (simp add: group_remaining_def)
next
  case (gives_up i r)
  with sum_list_update_nat [of i "branches g" steps_left "Ended (Failed (interrupt_cause r))"]
  show ?thesis by (simp add: group_remaining_def)
next
  case (ends i x)
  with sum_list_update_nat [of i "branches g" steps_left "Ended x"] show ?thesis by (simp add: group_remaining_def)
next
  case (reports i x)
  with sum_list_update_nat [of i "branches g" steps_left "Reported x"] show ?thesis by (simp add: group_remaining_def)
next
  case (completes i x cleanup)
  with sum_list_update_nat [of i "branches g" steps_left "Complete x (after_cleanup x cleanup)"]
  show ?thesis by (simp add: group_remaining_def)
next
  case (receives x rest)
  have "group_cancelled g' = None \<longrightarrow> group_cancelled g = None"
    by (auto simp: receives(1) on_completion_def interrupt_group_def split: if_splits option.splits)
  with receives show ?thesis by (auto simp: group_remaining_def)
next
  case (collects x y)
  then show ?thesis by (simp add: group_remaining_def)
next
  case (cancelled_outside r)
  then show ?thesis by (simp add: group_remaining_def)
qed

lemma group_remaining_bound:
  assumes "group_inv limit n g"
  shows "group_remaining g \<le> 6 * n + 1"
proof -
  have "steps_left b \<le> 4" for b :: "'a branch_phase" by (cases b) simp_all
  then have "sum_list (map steps_left (branches g)) \<le> sum_list (map (\<lambda>_. 4) (branches g))" by (intro sum_list_mono)
  then have "sum_list (map steps_left (branches g)) \<le> 4 * length (branches g)" by (simp add: sum_list_triv)
  moreover have "length (branches g) = n" using assms by (simp add: group_inv_def)
  moreover have "of_bool (group_cancelled g = None) \<le> (1 :: nat)" by simp
  ultimately show ?thesis unfolding group_remaining_def by linarith
qed

lemma length_map_filter_le: "length (List.map_filter f xs) \<le> length xs"
  by (induction xs) (auto simp: List.map_filter_simps split: option.split)

lemma map_filter_full:
  "length (List.map_filter f xs) = length xs \<Longrightarrow> i < length xs \<Longrightarrow> f (xs ! i) \<noteq> None"
proof (induction xs arbitrary: i)
  case (Cons x xs)
  then show ?case
    using length_map_filter_le [of f xs] by (cases i) (auto simp: List.map_filter_simps split: option.splits)
qed simp

lemma map_filter_missing:
  "length (List.map_filter f xs) < length xs \<Longrightarrow> \<exists>i<length xs. f (xs ! i) = None"
proof (induction xs)
  case (Cons x xs)
  show ?case
  proof (cases "f x")
    case None
    then show ?thesis by auto
  next
    case (Some y)
    with Cons obtain i where "i < length xs" "f (xs ! i) = None" by (auto simp: List.map_filter_simps)
    then show ?thesis by (intro exI [of _ "Suc i"]) simp
  qed
qed simp

lemma reported_count: "group_inv limit n g \<Longrightarrow>
    length (seen g) + length (completions g) = length (List.map_filter reported_exit (branches g))"
  unfolding group_inv_def by (metis length_append size_mset)

lemma report_never_blocks:
  assumes "group_inv limit n g" "i < n" "branches g ! i = Ended x"
  shows "length (completions g) < n"
proof (rule ccontr)
  assume "\<not> length (completions g) < n"
  with reported_count [OF assms(1)] have "length (List.map_filter reported_exit (branches g)) \<ge> n" by simp
  then have "length (List.map_filter reported_exit (branches g)) = length (branches g)"
    using length_map_filter_le [of reported_exit "branches g"] assms(1) by (auto simp: group_inv_def)
  from map_filter_full [OF this, of i] assms show False by (simp add: group_inv_def)
qed

lemma group_never_stuck:
  assumes inv: "group_inv limit n g" and "\<not> group_finished g"
  shows "\<exists>g'. group_step reason g g'"
proof -
  have n: "length (branches g) = n" "length (exits g) < n"
    using assms by (auto simp: group_inv_def group_finished_def)
  show ?thesis
  proof (cases "length (seen g) < n")
    case False
    then have "length (List.map_filter reported_exit (branches g)) = length (branches g)"
      using reported_count [OF inv] length_map_filter_le [of reported_exit "branches g"] n by linarith
    from map_filter_full [OF this] n have r: "reported_exit (branches g ! length (exits g)) \<noteq> None" by simp
    have s: "length (seen g) = n"
      using False reported_count [OF inv] length_map_filter_le [of reported_exit "branches g"] n by linarith
    show ?thesis
    proof (cases "branches g ! length (exits g)")
      case (Reported x)
      with n show ?thesis using group_step.completes [of "length (exits g)" g x] by auto
    next
      case (Complete x y)
      with n s show ?thesis using group_step.collects [of g x y] by auto
    qed (use r in auto)
  next
    case seen: True
    show ?thesis
    proof (cases "completions g")
      case (Cons x rest)
      with seen n show ?thesis using group_step.receives [of g x rest] by auto
    next
      case Nil
      with reported_count [OF inv] seen n obtain i where i: "i < n" "reported_exit (branches g ! i) = None"
        using map_filter_missing [of reported_exit "branches g"] by auto
      show ?thesis
      proof (cases "branches g ! i")
        case Queued
        show ?thesis
        proof (cases "\<exists>j<n. branches g ! j = Running")
          case True
          then show ?thesis using group_step.ends [of _ g] n by auto
        next
          case False
          then have "held g = 0" using inv n by (auto simp: group_inv_def filter_empty_conv in_set_conv_nth)
          then have "case permits g of None \<Rightarrow> True | Some p \<Rightarrow> held g < p"
            using inv by (auto simp: group_inv_def permits_for_def)
          with Queued i n show ?thesis using group_step.acquires [of i g] by auto
        qed
      next
        case Running
        with i n show ?thesis using group_step.ends [of i g] by auto
      next
        case (Ended x)
        with i n show ?thesis using group_step.reports [of i g x] report_never_blocks [OF inv] by auto
      qed (use i in auto)
    qed
  qed
qed

interpretation group: progressing "group_step reason" "group_inv limit n" group_finished group_remaining
  for reason :: nilable_err and limit :: int and n :: nat
  by unfold_locales (auto intro: group_inv_step group_step_decreases group_never_stuck)

subsection \<open>Results of a collection\<close>

fun collect_from :: "nilable_err \<Rightarrow> 'v exit list \<Rightarrow> 'v list \<Rightarrow> 'v exit list \<Rightarrow> 'v cause + 'v list" where
  "collect_from reason all results [] = Inr results"
| "collect_from reason all results (Succeeded v # rest) = collect_from reason all (results @ [v]) rest"
| "collect_from reason all results (Failed _ # rest) = Inl (combine_branch_causes all reason)"

definition collect_results :: "nilable_err \<Rightarrow> 'v exit list \<Rightarrow> 'v cause + 'v list" where
  "collect_results reason xs = collect_from reason xs [] xs"

text \<open>\<open>StructPar\<close>: the assignments are applied in the order of the fields, to a zero value.\<close>

definition struct_par :: "('v \<Rightarrow> 's \<Rightarrow> 's) \<Rightarrow> 's \<Rightarrow> 'v cause + 'v list \<Rightarrow> 'v cause + 's" where
  "struct_par assign zero = map_sum id (foldl (\<lambda>value a. assign a value) zero)"

lemma collect_from_eq:
  "collect_from reason all results xs =
     (if list_all is_success xs then Inr (results @ map (the \<circ> exit_value) xs) else Inl (combine_branch_causes all reason))"
  by (induction reason all results xs rule: collect_from.induct) simp_all

lemma collect_results_eq:
  "collect_results reason xs =
     (if list_all is_success xs then Inr (map (the \<circ> exit_value) xs) else Inl (combine_branch_causes xs reason))"
  by (simp add: collect_results_def collect_from_eq)

lemma set_map_filter_nth: "set (List.map_filter f xs) = {y. \<exists>i<length xs. f (xs ! i) = Some y}"
  by (induction xs) (auto simp: List.map_filter_simps nth_Cons' gr0_conv_Suc less_Suc_eq_0_disj split: option.split)

lemma group_finished_exits:
  assumes "group_inv limit n g" "group_finished g" "i < n"
  shows "\<exists>x. branches g ! i = Complete x (exits g ! i)"
  using assms by (auto simp: group_inv_def group_finished_def)

lemma group_finished_seen:
  assumes "group_inv limit n g" "group_finished g"
  shows "mset (seen g) = mset (List.map_filter reported_exit (branches g))"
proof -
  have "length (seen g) = n" using assms by (cases "n = 0") (auto simp: group_inv_def group_finished_def dest: reported_count)
  moreover have "length (branches g) = n" using assms(1) by (simp add: group_inv_def)
  ultimately have "length (completions g) = 0"
    using reported_count [OF assms(1)] length_map_filter_le [of reported_exit "branches g"] by linarith
  with assms(1) show ?thesis by (simp add: group_inv_def)
qed

text \<open>
  C16: with a limit below the number of branches, at most that many run at any moment of any
  execution; the channel on which branches report never blocks one of them.
\<close>

theorem collection_runs_within_limit:
  assumes "group_reached reason limit n g"
  shows "(0 < limit \<and> limit < int n \<longrightarrow> int (length (filter (\<lambda>b. b = Running) (branches g))) \<le> limit)
    \<and> (i < n \<and> branches g ! i = Ended x \<longrightarrow> length (completions g) < n)"
  using group_reached_inv [OF assms] report_never_blocks [OF group_reached_inv [OF assms]]
  by (auto simp: group_inv_def permits_for_def)

theorem collection_runs_within_limit_witness:
  "int (length (filter (\<lambda>b. b = Running) (branches (start_all 2 3 None :: int group)))) \<le> 2"
  using collection_runs_within_limit [OF group_reached.starts [of None 2 3 None], of 0 "Succeeded (0 :: int)"] by simp


text \<open>A collection of one branch, from its start to its end.\<close>

definition one_branch :: "int branch_phase \<Rightarrow> int exit list \<Rightarrow> int exit list \<Rightarrow> int exit list \<Rightarrow> int group" where
  "one_branch b channel received results = \<lparr>branches = [b], permits = None, held = of_bool (b = Running), completions = channel,
     seen = received, abandoned = False, group_cancelled = None, exits = results\<rparr>"

lemma one_branch_reached: "group_reached None 0 1 (one_branch (Complete (Succeeded 5) (Succeeded 5)) [] [Succeeded 5] [Succeeded 5])"
proof -
  let ?x = "Succeeded 5 :: int exit"
  have steps: "group_step None (one_branch Queued [] [] []) (one_branch Running [] [] [])"
    "group_step None (one_branch Running [] [] []) (one_branch (Ended ?x) [] [] [])"
    "group_step None (one_branch (Ended ?x) [] [] []) (one_branch (Reported ?x) [?x] [] [])"
    "group_step None (one_branch (Reported ?x) [?x] [] []) (one_branch (Complete ?x ?x) [?x] [] [])"
    "group_step None (one_branch (Complete ?x ?x) [?x] [] []) (one_branch (Complete ?x ?x) [] [?x] [])"
    "group_step None (one_branch (Complete ?x ?x) [] [?x] []) (one_branch (Complete ?x ?x) [] [?x] [?x])"
    using group_step.acquires [of 0 "one_branch Queued [] [] []" None]
      group_step.ends [of 0 "one_branch Running [] [] []" None ?x]
      group_step.reports [of 0 "one_branch (Ended ?x) [] [] []" ?x None]
      group_step.completes [of 0 "one_branch (Reported ?x) [?x] [] []" ?x None Empty]
      group_step.receives [of "one_branch (Complete ?x ?x) [?x] [] []" ?x "[]" None]
      group_step.collects [of "one_branch (Complete ?x ?x) [] [?x] []" ?x ?x None]
    by (simp_all add: one_branch_def after_cleanup_def on_completion_def)
  have "group_reached None 0 1 (one_branch Queued [] [] [])"
    using group_reached.starts [of None 0 1 None] by (simp add: start_all_def permits_for_def one_branch_def)
  then show ?thesis by (intro group_reached.runs [OF _ steps(6)] group_reached.runs [OF _ steps(5)]
    group_reached.runs [OF _ steps(4)] group_reached.runs [OF _ steps(3)] group_reached.runs [OF _ steps(2)]
    group_reached.runs [OF _ steps(1)])
qed


end
