(* ===== verification/Cause_Report.thy ===== *)
theory Cause_Report
  imports Outcome Go_Strings
begin

section \<open>Rendering and reporting causes\<close>

text \<open>
  \<^verbatim>\<open>effect/cause_format.go\<close> and \<^verbatim>\<open>effect/cause_report.go\<close>. Rendering walks the tree with a list of
  pending steps and records lines with their depths; \<open>None\<close> is the panic of indexing the last line
  when there is none. \<open>shown\<close> is \<^verbatim>\<open>fmt\<close>'s \<^verbatim>\<open>%v\<close> of a failure or a panic value.
\<close>

text \<open>The verb applied to an interruption's error, which may be nil.\<close>

definition shown_error :: "nilable_err \<Rightarrow> string" where
  "shown_error e = (case e of None \<Rightarrow> ''<nil>'' | Some g \<Rightarrow> err_text g)"

definition trim_newline :: "string \<Rightarrow> string" where
  "trim_newline s = (if s \<noteq> [] \<and> last s = newline then butlast s else s)"

subsection \<open>Rendering\<close>

record text_line =
  depth :: nat
  text_of :: string

datatype 'v render_step = RenderNode "'v cause" nat | SeparateBranches | CloseComposite nat

definition render_origin :: "'v cause \<Rightarrow> string" where
  "render_origin leaf = (if \<not> origin_is_known (cause_origin leaf) then [] else '' at '' @ origin_string (cause_origin leaf))"

definition render_leaf_text :: "('v \<Rightarrow> string) \<Rightarrow> 'v cause \<Rightarrow> string" where
  "render_leaf_text shown leaf =
     (case failure_of leaf of
        Some v \<Rightarrow> kind_string CauseFailure @ ''('' @ shown v @ '')'' @ render_origin leaf
      | None \<Rightarrow>
          (case interruption_of leaf of
             Some e \<Rightarrow> kind_string CauseInterrupt @ ''('' @ shown_error e @ '')'' @ render_origin leaf
           | None \<Rightarrow> kind_string (kind leaf)))"

definition render_defect :: "('v \<Rightarrow> string) \<Rightarrow> 'v defect \<Rightarrow> nat \<Rightarrow> bool \<Rightarrow> text_line list" where
  "render_defect shown d n stacks =
     \<lparr>depth = n, text_of = kind_string CauseDefect @ ''('' @ shown (defect_value d) @ '')''\<rparr> #
     (if \<not> stacks \<or> defect_stack d = [] then []
      else map (\<lambda>l. \<lparr>depth = Suc n, text_of = l\<rparr>) (split (trim_newline (defect_stack d)) [newline]))"

definition render_leaf :: "('v \<Rightarrow> string) \<Rightarrow> 'v cause \<Rightarrow> nat \<Rightarrow> bool \<Rightarrow> text_line list" where
  "render_leaf shown leaf n stacks =
     (case defect_of leaf of
        Some d \<Rightarrow> render_defect shown d n stacks
      | None \<Rightarrow> [\<lparr>depth = n, text_of = render_leaf_text shown leaf\<rparr>])"

fun branches_of :: "'v cause \<Rightarrow> 'v cause \<times> 'v cause" where
  "branches_of (Then l r) = (l, r)"
| "branches_of (Both l r) = (l, r)"
| "branches_of _ = (Empty, Empty)"

definition render_step_of ::
  "('v \<Rightarrow> string) \<Rightarrow> bool \<Rightarrow> 'v cause \<Rightarrow> nat \<Rightarrow> text_line list \<Rightarrow> 'v render_step list \<Rightarrow> text_line list \<times> 'v render_step list" where
  "render_step_of shown stacks node n lines steps =
     (if \<not> is_composite_kind (kind node) then (lines @ render_leaf shown node n stacks, steps)
      else case branches_of node of
        (l, r) \<Rightarrow>
          (lines @ [\<lparr>depth = n, text_of = kind_string (kind node) @ ''(''\<rparr>],
           RenderNode l (Suc n) # SeparateBranches # RenderNode r (Suc n) # CloseComposite n # steps))"

definition add_comma :: "text_line list \<Rightarrow> text_line list" where
  "add_comma lines = butlast lines @ [(last lines)\<lparr>text_of := text_of (last lines) @ '',''\<rparr>]"

fun step_weight :: "'v render_step \<Rightarrow> nat" where
  "step_weight (RenderNode c _) = 4 * size c + 1"
| "step_weight _ = 1"

text \<open>The last pending step of the code is the head of the list.\<close>

function render_loop ::
  "('v \<Rightarrow> string) \<Rightarrow> bool \<Rightarrow> text_line list \<Rightarrow> 'v render_step list \<Rightarrow> text_line list option" where
  "render_loop shown stacks lines [] = Some lines"
| "render_loop shown stacks lines (SeparateBranches # steps) =
     (if lines = [] then None else render_loop shown stacks (add_comma lines) steps)"
| "render_loop shown stacks lines (CloseComposite n # steps) =
     render_loop shown stacks (lines @ [\<lparr>depth = n, text_of = '')''\<rparr>]) steps"
| "render_loop shown stacks lines (RenderNode c n # steps) =
     (case render_step_of shown stacks c n lines steps of
        (lines', steps') \<Rightarrow> render_loop shown stacks lines' steps')"
  by pat_completeness auto
termination
  by (relation "measure (\<lambda>(_, _, _, steps). sum_list (map step_weight steps))")
     (auto simp: render_step_of_def split: if_splits prod.splits elim!: branches_of.elims)

fun join_lines :: "text_line list \<Rightarrow> string" where
  "join_lines [] = []"
| "join_lines [l] = concat (replicate (depth l) ''  '') @ text_of l"
| "join_lines (l # ls) = concat (replicate (depth l) ''  '') @ text_of l @ [newline] @ join_lines ls"

definition render_cause :: "('v \<Rightarrow> string) \<Rightarrow> bool \<Rightarrow> 'v cause \<Rightarrow> string option" where
  "render_cause shown stacks root = map_option join_lines (render_loop shown stacks [] [RenderNode root 0])"

definition cause_string :: "('v \<Rightarrow> string) \<Rightarrow> 'v cause \<Rightarrow> string option" where
  "cause_string shown c = render_cause shown False c"

text \<open>The layout the loop produces, by structural recursion.\<close>

fun layout :: "('v \<Rightarrow> string) \<Rightarrow> bool \<Rightarrow> nat \<Rightarrow> 'v cause \<Rightarrow> text_line list" where
  "layout shown stacks n (Then l r) =
     \<lparr>depth = n, text_of = ''Then(''\<rparr> # add_comma (layout shown stacks (Suc n) l) @ layout shown stacks (Suc n) r
       @ [\<lparr>depth = n, text_of = '')''\<rparr>]"
| "layout shown stacks n (Both l r) =
     \<lparr>depth = n, text_of = ''Both(''\<rparr> # add_comma (layout shown stacks (Suc n) l) @ layout shown stacks (Suc n) r
       @ [\<lparr>depth = n, text_of = '')''\<rparr>]"
| "layout shown stacks n leaf = render_leaf shown leaf n stacks"

lemma render_leaf_nonempty: "render_leaf shown leaf n stacks \<noteq> []"
  by (simp add: render_leaf_def render_defect_def split: option.split)

lemma layout_nonempty [simp]: "layout shown stacks n c \<noteq> []"
  by (cases c) (simp_all add: render_leaf_nonempty)

lemma add_comma_append: "ls \<noteq> [] \<Longrightarrow> add_comma (ks @ ls) = ks @ add_comma ls"
  by (simp add: add_comma_def butlast_append)

lemma add_comma_Cons: "ls \<noteq> [] \<Longrightarrow> add_comma (l # ls) = l # add_comma ls"
  by (simp add: add_comma_def)

lemma render_loop_node:
  "render_loop shown stacks lines (RenderNode c n # steps) = render_loop shown stacks (lines @ layout shown stacks n c) steps"
  by (induction c arbitrary: n lines steps)
     (simp_all add: render_step_of_def add_comma_append add_comma_Cons)

lemma render_cause_layout: "render_cause shown stacks c = Some (join_lines (layout shown stacks 0 c))"
  by (simp add: render_cause_def render_loop_node del: render_loop.simps(4))

subsection \<open>Reports\<close>

datatype cause_report = CauseReport
  (report_kind: cause_kind) (detail: string) (stack: string) (report_children: "cause_report list")

definition compose_reports :: "cause_kind \<Rightarrow> cause_report \<Rightarrow> cause_report \<Rightarrow> cause_report" where
  "compose_reports k l r = CauseReport k [] [] [l, r]"

definition report_folder :: "('v \<Rightarrow> string) \<Rightarrow> ('v, cause_report) cause_folder" where
  "report_folder shown = \<lparr>on_empty = CauseReport CauseEmpty [] [] [],
     on_failure = (\<lambda>v. CauseReport CauseFailure (shown v) [] []),
     on_defect = (\<lambda>d. CauseReport CauseDefect (shown (defect_value d)) (defect_stack d) []),
     on_interruption = (\<lambda>e. CauseReport CauseInterrupt (shown_error e) [] []),
     on_then = compose_reports CauseThen, on_both = compose_reports CauseBoth\<rparr>"

definition report :: "('v \<Rightarrow> string) \<Rightarrow> 'v cause \<Rightarrow> cause_report option" where
  "report shown c = fold_cause c (report_folder shown)"

text \<open>What is left of a leaf in a report.\<close>

fun report_leaves :: "cause_report \<Rightarrow> (cause_kind \<times> string \<times> string) list" where
  "report_leaves (CauseReport k d s rs) = (if rs = [] then [(k, d, s)] else concat (map report_leaves rs))"

definition leaf_view :: "('v \<Rightarrow> string) \<Rightarrow> 'v cause \<Rightarrow> cause_kind \<times> string \<times> string" where
  "leaf_view shown leaf =
     (kind leaf,
      case leaf of Fail v _ \<Rightarrow> shown v | Die d _ \<Rightarrow> shown (defect_value d) | Interrupt e _ \<Rightarrow> shown_error e | _ \<Rightarrow> [],
      case leaf of Die d _ \<Rightarrow> defect_stack d | _ \<Rightarrow> [])"

lemma report_leaves_of:
  "proper c \<Longrightarrow> c \<noteq> Empty \<Longrightarrow>
   report_leaves (eliminate (report_folder shown) c) = map (leaf_view shown) (leaves c)"
  by (induction c) (auto simp: report_folder_def compose_reports_def leaf_view_def)

text \<open>
  C31: rendering a cause never indexes an empty list of lines, and its lines are those of the
  tree: each composite opens, indents its two branches one level deeper with a comma after the first,
  and closes at its own level. The structured report of a cause exists and has its leaves, with
  their kinds, texts and stacks, in order.
\<close>

theorem causes_render_as_their_tree:
  "render_cause shown stacks c = Some (join_lines (layout shown stacks 0 c))
   \<and> (proper c \<and> c \<noteq> Empty \<longrightarrow>
       (\<exists>r. report shown c = Some r \<and> report_leaves r = map (leaf_view shown) (leaves c)))"
  by (simp add: render_cause_layout report_def report_leaves_of)

theorem causes_render_as_their_tree_witness:
  "cause_string (\<lambda>s. s) (Then (fail_cause ''a'') (fail_cause ''b'')) =
     Some (''Then('' @ [newline] @ ''  Fail(a),'' @ [newline] @ ''  Fail(b)'' @ [newline] @ '')'')
   \<and> report_leaves (the (report (\<lambda>s. s) (Then (fail_cause ''a'') (fail_cause ''b'')))) =
       [(CauseFailure, ''a'', []), (CauseFailure, ''b'', [])]"
  using causes_render_as_their_tree [of "\<lambda>s. s" False "Then (fail_cause ''a'') (fail_cause ''b'')"]
  by (auto simp: cause_string_def fail_cause_def add_comma_def render_leaf_def render_leaf_text_def render_origin_def
      origin_is_known_def no_origin_def leaf_view_def)

end
