(* ===== verification/Environments.thy ===== *)
theory Environments
  imports Scoped_Effects Go_Strings "HOL-Library.AList" "HOL-Library.Sublist"
begin

section \<open>Requirements, services and layers\<close>

text \<open>
  \<^verbatim>\<open>effect/environment.go\<close>, \<^verbatim>\<open>effect/layer.go\<close> and the package \<^verbatim>\<open>effect/env\<close>. An effect with the
  requirement channel \<open>R\<close> is a function of what it is given, \<open>'r \<Rightarrow> fx\<close>: replacing the environment
  (\<open>ContramapEnv\<close> with a constant) applies it. A Go map from types to services is an association list
  with one entry per type; the order of its entries is never observed.
\<close>

subsection \<open>Reading the requirements\<close>

type_synonym ('r, 'v, 'c, 'w, 'a) req_fx = "'r \<Rightarrow> ('v, 'c, 'w, 'a) fx"

definition environment_fx :: "('v, 'c, 'w) host \<Rightarrow> ('r, 'v, 'c, 'w, 'r) req_fx" where
  "environment_fx h r = from_runtime h (\<lambda>_ w. Some (Inr (Inr r), w))"

definition environment_with :: "('v, 'c, 'w) host \<Rightarrow> ('r \<Rightarrow> ('v, 'w, 'a) callback) \<Rightarrow> ('r, 'v, 'c, 'w, 'a) req_fx" where
  "environment_with h read r = from_runtime h (\<lambda>_ w. map_option (map_prod (map_sum id Inr) id) (read r w))"

definition anywhere :: "(unit, 'v, 'c, 'w, 'a) req_fx \<Rightarrow> ('r, 'v, 'c, 'w, 'a) req_fx" where
  "anywhere fx r = fx ()"

subsection \<open>Services by type\<close>

datatype go_type = GoType (type_id: nat) (type_string: string)

type_synonym 'v service_map = "(go_type \<times> 'v) list"

definition with_service :: "go_type \<Rightarrow> 'v \<Rightarrow> 'v service_map \<Rightarrow> 'v service_map" where
  "with_service t v s = AList.update t v s"

text \<open>\<open>has_type\<close> is the assertion \<^verbatim>\<open>value.(A)\<close>, which a nil interface value does not pass.\<close>

definition resolve :: "(go_type \<Rightarrow> 'v \<Rightarrow> bool) \<Rightarrow> go_type \<Rightarrow> 'v service_map \<Rightarrow> 'v option" where
  "resolve has_type t s =
     (case map_of s t of
        None \<Rightarrow> None
      | Some v \<Rightarrow> if has_type t v then Some v else None)"

definition holds :: "(go_type \<Rightarrow> 'v \<Rightarrow> bool) \<Rightarrow> go_type \<Rightarrow> 'v service_map \<Rightarrow> bool" where
  "holds has_type t s \<longleftrightarrow> resolve has_type t s \<noteq> None"

definition service_types :: "'v service_map \<Rightarrow> string list" where
  "service_types s = sort (map (type_string \<circ> fst) s)"

definition with_all :: "'v service_map \<Rightarrow> 'v service_map \<Rightarrow> 'v service_map" where
  "with_all s other = foldl (\<lambda>m (t, v). AList.update t v m) s other"

record missing_dependency =
  missing_type :: string
  missing_available :: "string list"

definition missing_dependency_of :: "go_type \<Rightarrow> 'v service_map \<Rightarrow> missing_dependency" where
  "missing_dependency_of t s = \<lparr>missing_type = type_string t, missing_available = service_types s\<rparr>"

definition missing_dependency_error :: "missing_dependency \<Rightarrow> string" where
  "missing_dependency_error m = ''env: no dependency of type '' @ missing_type m @
     '' was provided; this program was given '' @ join_with '', '' (missing_available m)"

definition service_fx ::
  "('v, 'c, 'w) host \<Rightarrow> (go_type \<Rightarrow> 'v \<Rightarrow> bool) \<Rightarrow> (missing_dependency \<Rightarrow> 'v) \<Rightarrow> go_type
     \<Rightarrow> ('v service_map, 'v, 'c, 'w, 'v) req_fx" where
  "service_fx h has_type any_of t s = from_runtime h (\<lambda>_ w.
     Some (Inr (case resolve has_type t s of
         None \<Rightarrow> Inl (die_cause \<lparr>defect_value = any_of (missing_dependency_of t s), defect_stack = []\<rparr>)
       | Some v \<Rightarrow> Inr v), w))"

subsection \<open>Whether a program was given everything\<close>

text \<open>A zero \<open>Requirement\<close> has no type.\<close>

type_synonym requirement = "go_type option"

definition requirement_string :: "requirement \<Rightarrow> string" where
  "requirement_string r = (case r of None \<Rightarrow> ''an unnamed dependency'' | Some t \<Rightarrow> type_string t)"

fun absent_from :: "'v service_map \<Rightarrow> go_type list \<Rightarrow> string list \<Rightarrow> requirement list \<Rightarrow> string list" where
  "absent_from s seen absent [] = absent"
| "absent_from s seen absent (want # wants) =
     (case want of
        None \<Rightarrow> absent_from s seen absent wants
      | Some t \<Rightarrow>
          if t \<in> set seen then absent_from s seen absent wants
          else absent_from s (t # seen)
            (if map_of s t = None then absent @ [requirement_string want] else absent) wants)"

record incomplete =
  absent_types :: "string list"
  available_types :: "string list"

definition complete_services :: "'v service_map \<Rightarrow> requirement list \<Rightarrow> incomplete option" where
  "complete_services s wants =
     (let absent = absent_from s [] [] wants in
      if absent = [] then None else Some \<lparr>absent_types = absent, available_types = service_types s\<rparr>)"

definition incomplete_error :: "incomplete \<Rightarrow> string" where
  "incomplete_error i = ''env: this program will ask for dependencies it was not given: '' @
     join_with '', '' (absent_types i) @ ''; it was given '' @ join_with '', '' (available_types i)"

subsection \<open>Groups\<close>

type_synonym ('v, 'c, 'w) group = "('v service_map, 'v, 'c, 'w, 'v service_map) req_fx"

definition group_of :: "('v, 'c, 'w) host \<Rightarrow> 'v service_map \<Rightarrow> ('v, 'c, 'w) group" where
  "group_of h s r = succeed h s"

definition extend :: "('v, 'c, 'w) host \<Rightarrow> 'v service_map \<Rightarrow> ('v, 'c, 'w) group \<Rightarrow> ('v, 'c, 'w) group" where
  "extend h so_far g r = map_fx h (g so_far) (pure (with_all so_far))"

definition then_group :: "('v, 'c, 'w) host \<Rightarrow> ('v, 'c, 'w) group \<Rightarrow> ('v, 'c, 'w) group \<Rightarrow> ('v, 'c, 'w) group" where
  "then_group h g g' r = flat_map h (g r) (pure (\<lambda>environment. extend h environment g' r))"

definition assemble :: "('v, 'c, 'w) host \<Rightarrow> ('v, 'c, 'w) group list \<Rightarrow> ('v, 'c, 'w) group" where
  "assemble h gs = foldl (then_group h) (group_of h []) gs"

subsection \<open>Layers\<close>

type_synonym ('r, 'v, 'c, 'w, 'o) layer = "('r, 'v, 'c, 'w, 'o) req_fx"

definition with_current_scope ::
  "('v, 'c, 'w) host \<Rightarrow> (nat \<Rightarrow> ('v, 'w, ('r, 'v, 'c, 'w, 'a) req_fx) callback) \<Rightarrow> ('r, 'v, 'c, 'w, 'a) req_fx" where
  "with_current_scope h use r = suspend_runtime h (\<lambda>I w.
     map_option (map_prod (map_sum id (\<lambda>fx. fx r)) id) (use (scope_at (state_of I)) w))"

definition layer_scoped ::
  "('v, 'c, 'w) host \<Rightarrow> (nat \<Rightarrow> ('v, 'w, ('r, 'v, 'c, 'w, 'o) req_fx) callback) \<Rightarrow> ('r, 'v, 'c, 'w, 'o) layer" where
  "layer_scoped h build = with_current_scope h build"

definition layer_map_error :: "('v, 'c, 'w) host \<Rightarrow> ('r, 'v, 'c, 'w, 'o) layer \<Rightarrow> ('v \<Rightarrow> 'v) \<Rightarrow> ('r, 'v, 'c, 'w, 'o) layer" where
  "layer_map_error h l adapt r = map_error h (l r) adapt"

definition layer_map ::
  "('v, 'c, 'w) host \<Rightarrow> ('r, 'v, 'c, 'w, 'o) layer \<Rightarrow> ('o \<Rightarrow> ('v, 'w, 'p) callback) \<Rightarrow> ('r, 'v, 'c, 'w, 'p) layer" where
  "layer_map h l f r = map_fx h (l r) f"

text \<open>\<open>on_left\<close> and \<open>on_right\<close> put a failure into the sides of an \<open>Either\<close>.\<close>

definition then_layers ::
  "('v, 'c, 'w) host \<Rightarrow> ('v \<Rightarrow> 'v) \<Rightarrow> ('v \<Rightarrow> 'v) \<Rightarrow> ('r, 'v, 'c, 'w, 'o) layer \<Rightarrow> ('o, 'v, 'c, 'w, 'p) layer
     \<Rightarrow> ('r, 'v, 'c, 'w, 'p) layer" where
  "then_layers h on_left on_right l l' r =
     flat_map h (map_error h (l r) on_left) (pure (\<lambda>out. map_error h (l' out) on_right))"

definition zip_layers ::
  "('v, 'c, 'w) host \<Rightarrow> ('v \<Rightarrow> 'v) \<Rightarrow> ('v \<Rightarrow> 'v) \<Rightarrow> ('r, 'v, 'c, 'w, 'o) layer \<Rightarrow> ('q, 'v, 'c, 'w, 'p) layer
     \<Rightarrow> ('r \<times> 'q, 'v, 'c, 'w, 'o \<times> 'p) layer" where
  "zip_layers h on_left on_right l l' r =
     zip_fx h (map_error h (l (fst r)) on_left) (map_error h (l' (snd r)) on_right)"

definition provide_layer ::
  "('v, 'c, ('f, 'v, 'z) heap_scheme) host \<Rightarrow> ('v, 'c, ('f, 'v, 'z) heap_scheme, 'f) scope_host \<Rightarrow> ('a \<Rightarrow> 'v)
     \<Rightarrow> ('v \<Rightarrow> 'v) \<Rightarrow> ('v \<Rightarrow> 'v) \<Rightarrow> ('o, 'v, 'c, ('f, 'v, 'z) heap_scheme, 'a) req_fx
     \<Rightarrow> ('r, 'v, 'c, ('f, 'v, 'z) heap_scheme, 'o) layer \<Rightarrow> ('r, 'v, 'c, ('f, 'v, 'z) heap_scheme, 'a) req_fx" where
  "provide_layer h S any_of on_left on_right fx l r =
     scoped h S any_of (\<lambda>_ w. Some (Inr (then_layers h on_left on_right l fx r), w))"

definition provide_layer_same ::
  "('v, 'c, ('f, 'v, 'z) heap_scheme) host \<Rightarrow> ('v, 'c, ('f, 'v, 'z) heap_scheme, 'f) scope_host \<Rightarrow> ('a \<Rightarrow> 'v)
     \<Rightarrow> ('o, 'v, 'c, ('f, 'v, 'z) heap_scheme, 'a) req_fx
     \<Rightarrow> ('r, 'v, 'c, ('f, 'v, 'z) heap_scheme, 'o) layer \<Rightarrow> ('r, 'v, 'c, ('f, 'v, 'z) heap_scheme, 'a) req_fx" where
  "provide_layer_same h S any_of fx l r =
     scoped h S any_of (\<lambda>_ w. Some (Inr (flat_map h (l r) (pure fx)), w))"

subsection \<open>Services are a finite map\<close>

lemma map_of_with_service: "map_of (with_service t v s) = (map_of s)(t \<mapsto> v)"
  by (simp add: with_service_def update_conv')

lemma map_of_with_all: "distinct (map fst other) \<Longrightarrow> map_of (with_all s other) = map_of s ++ map_of other"
proof (induction other arbitrary: s)
  case Nil
  then show ?case by (simp add: with_all_def)
next
  case (Cons e other)
  obtain t v where e: "e = (t, v)" by (cases e)
  have "with_all s (e # other) = with_all (AList.update t v s) other" by (simp add: with_all_def e)
  with Cons e have "map_of (with_all s (e # other)) = (map_of s)(t \<mapsto> v) ++ map_of other"
    by (simp add: update_conv')
  moreover have "map_of other t = None" using Cons.prems e by (auto simp: map_of_eq_None_iff)
  ultimately show ?case
    by (auto simp: e map_add_def fun_eq_iff split: option.split)
qed

lemma distinct_with_all: "distinct (map fst s) \<Longrightarrow> distinct (map fst (with_all s other))"
  by (induction other arbitrary: s) (auto simp: with_all_def distinct_update)

subsection \<open>Assembling an environment\<close>

text \<open>One group after the other, each given everything before it.\<close>

fun build_groups ::
  "('v, 'c, 'w) interp \<Rightarrow> 'v service_map \<Rightarrow> ('v, 'c, 'w) group list \<Rightarrow> 'w \<Rightarrow> (('v cause + 'v service_map) \<times> 'w) option" where
  "build_groups I so_far [] w = Some (Inr so_far, w)"
| "build_groups I so_far (g # gs) w =
     (case g so_far I w of
        None \<Rightarrow> None
      | Some (Inl c, w') \<Rightarrow> Some (Inl c, w')
      | Some (Inr additions, w') \<Rightarrow> build_groups I (with_all so_far additions) gs w')"

lemma then_group_runs:
  "then_group h g g' r I w =
     (case g r I w of
        None \<Rightarrow> None
      | Some (Inl c, w') \<Rightarrow> Some (Inl c, w')
      | Some (Inr so_far, w') \<Rightarrow>
          (case g' so_far I w' of
             None \<Rightarrow> None
           | Some (Inl c, w'') \<Rightarrow> Some (Inl c, w'')
           | Some (Inr additions, w'') \<Rightarrow> Some (Inr (with_all so_far additions), w'')))"
  by (simp add: then_group_def extend_def fx_defs capture_def split: option.split sum.split prod.split)

lemma foldl_then_group:
  "foldl (then_group h) g gs r I w =
     (case g r I w of
        None \<Rightarrow> None
      | Some (Inl c, w') \<Rightarrow> Some (Inl c, w')
      | Some (Inr so_far, w') \<Rightarrow> build_groups I so_far gs w')"
proof (induction gs arbitrary: g)
  case Nil
  show ?case by (simp split: option.split sum.split prod.split)
next
  case (Cons g' gs)
  have "foldl (then_group h) g (g' # gs) r I w = foldl (then_group h) (then_group h g g') gs r I w" by simp
  also note Cons.IH [of "then_group h g g'"]
  also note then_group_runs [of h g g' r I w]
  finally show ?case by (simp split: option.split sum.split prod.split)
qed

text \<open>
  An environment is assembled group by group, in order: each group is given everything the
  groups before it provided and nothing else, the first failure is the result, and what comes out holds
  every service of every group, the later group winning where two provide the same type.
\<close>

theorem assemble_accumulates:
  assumes "machine_interrupt h (context_of I) w = (None, w)"
  shows "assemble h gs r I w = build_groups I [] gs w
    \<and> (assemble h gs r I w = Some (Inr s, w1) \<and> g s I w1 = Some (Inr additions, w2) \<and> distinct (map fst additions) \<longrightarrow>
        (\<exists>s'. assemble h (gs @ [g]) r I w = Some (Inr s', w2) \<and> map_of s' = map_of s ++ map_of additions))"
proof -
  have e: "assemble h gs r I w = build_groups I [] gs w" for gs
    using assms by (simp add: assemble_def foldl_then_group group_of_def fx_defs)
  have "assemble h (gs @ [g]) r I w = then_group h (assemble h gs) g r I w" by (simp add: assemble_def)
  with e [of gs] show ?thesis by (auto simp: then_group_runs map_of_with_all)
qed

definition plain_group :: "string service_map \<Rightarrow> (string, bool, string list) group" where
  "plain_group = group_of plain_host"

theorem assemble_accumulates_witness:
  "\<exists>s'. assemble plain_host ([plain_group [(GoType 0 ''a'', ''x'')]] @ [plain_group [(GoType 0 ''a'', ''y'')]]) []
       plain_interp [] = Some (Inr s', []) \<and> map_of s' (GoType 0 ''a'') = Some ''y''"
proof -
  have i: "machine_interrupt plain_host (context_of plain_interp) [] = (None, [])"
    by (simp add: machine_interrupt_def plain_host_def plain_interp_def)
  have g: "plain_group s r plain_interp [] = Some (Inr s, [])" for s r
    using i by (simp add: plain_group_def group_of_def fx_defs)
  have "assemble plain_host [plain_group [(GoType 0 ''a'', ''x'')]] [] plain_interp [] = Some (Inr [(GoType 0 ''a'', ''x'')], [])"
    using assemble_accumulates [OF i, THEN conjunct1] by (simp add: g with_all_def)
  then have "\<exists>s'. assemble plain_host ([plain_group [(GoType 0 ''a'', ''x'')]] @ [plain_group [(GoType 0 ''a'', ''y'')]]) []
      plain_interp [] = Some (Inr s', []) \<and> map_of s' = map_of [(GoType 0 ''a'', ''x'')] ++ map_of [(GoType 0 ''a'', ''y'')]"
    using assemble_accumulates [OF i, of "[plain_group [(GoType 0 ''a'', ''x'')]]" "[]" "[(GoType 0 ''a'', ''x'')]" "[]"
        "plain_group [(GoType 0 ''a'', ''y'')]" "[(GoType 0 ''a'', ''y'')]" "[]"] by (simp add: g)
  then show ?thesis by (auto simp: map_add_def)
qed

text \<open>
  A group composed with \<open>Then\<close> is not a group like others: inside a larger assembly its second part
  is given only what its first part added, and not what came before both.
\<close>

lemma nested_then_loses_earlier_services:
  assumes "g so_far I w = Some (Inr additions, w1)"
  shows "extend h so_far (then_group h g g') r I w =
      (case g' additions I w1 of
         None \<Rightarrow> None
       | Some (Inl c, w2) \<Rightarrow> Some (Inl c, w2)
       | Some (Inr extra, w2) \<Rightarrow> Some (Inr (with_all so_far (with_all additions extra)), w2))"
  using assms
  by (simp add: extend_def map_fx_def then_group_runs guarded_def capture_def split: option.split sum.split prod.split)

subsection \<open>Completeness\<close>

lemma absent_from_spec:
  "\<exists>ts. absent_from s seen absent wants = absent @ map type_string ts \<and> distinct ts
     \<and> set ts = {t. Some t \<in> set wants \<and> t \<notin> set seen \<and> map_of s t = None}
     \<and> subseq ts (List.map_filter id wants)"
proof (induction wants arbitrary: seen absent)
  case Nil
  show ?case by (simp add: List.map_filter_simps)
next
  case (Cons want wants)
  show ?case
  proof (cases want)
    case None
    with Cons [of seen absent] show ?thesis by (auto simp: List.map_filter_simps)
  next
    case (Some t)
    show ?thesis
    proof (cases "t \<in> set seen")
      case True
      with Cons [of seen absent] Some show ?thesis by (fastforce simp: List.map_filter_simps)
    next
      case False
      let ?absent = "if map_of s t = None then absent @ [type_string t] else absent"
      obtain ts where ts: "absent_from s (t # seen) ?absent wants = ?absent @ map type_string ts" "distinct ts"
        "set ts = {u. Some u \<in> set wants \<and> u \<notin> set (t # seen) \<and> map_of s u = None}"
        "subseq ts (List.map_filter id wants)"
        using Cons [of "t # seen" ?absent] by blast
      show ?thesis
      proof (cases "map_of s t = None")
        case True
        have "absent_from s seen absent (want # wants) = absent @ map type_string (t # ts)"
          using ts(1) Some False True by (simp add: requirement_string_def)
        moreover have "distinct (t # ts)" using ts(2,3) by simp
        moreover have "set (t # ts) = {u. Some u \<in> set (want # wants) \<and> u \<notin> set seen \<and> map_of s u = None}"
          unfolding set_simps ts(3) using Some False True by blast
        moreover have "subseq (t # ts) (List.map_filter id (want # wants))"
          using ts(4) Some by (simp add: List.map_filter_simps)
        ultimately show ?thesis by blast
      next
        case present: False
        have "absent_from s seen absent (want # wants) = absent @ map type_string ts"
          using ts(1) Some False present by (auto simp del: not_None_eq)
        moreover have "set ts = {u. Some u \<in> set (want # wants) \<and> u \<notin> set seen \<and> map_of s u = None}"
          unfolding set_simps ts(3) using Some False present by blast
        moreover have "subseq ts (List.map_filter id (want # wants))"
          using ts(4) Some by (simp add: List.map_filter_simps list_emb_Cons)
        ultimately show ?thesis using ts(2) by blast
      qed
    qed
  qed
qed



text \<open>
  The check looks only whether a type is registered; a nil interface registered under it passes the
  check and is still a defect when it is asked for.
\<close>

lemma complete_services_overlooks_nil:
  assumes "map_of s t = Some v" "\<not> has_type t v" "machine_interrupt h (context_of I) w = (None, w)"
  shows "complete_services s [Some t] = None"
    and "\<exists>d. service_fx h has_type any_of t s I w = Some (Inl (die_cause d), w)"
  using assms by (auto simp: complete_services_def service_fx_def resolve_def fx_defs capture_def)

subsection \<open>The lifetime of a layer\<close>

text \<open>
  What a scoped layer acquires lives as long as the effect it is provided to: it is acquired
  in the scope of the provision, the effect runs with it while the scope is open, and it is
  released when that effect has ended, whatever its outcome.
\<close>

theorem layer_resource_outlives_consumer:
  fixes fx :: "('o, 'v, 'c, ('f, 'v, 'z) heap_scheme, 'a) req_fx"
  assumes quiet: "\<not> has_observer (state_of I)"
    and opened: "new_scope_at h (context_of I) w = (k, w1)" "clock_now (services (state_of I)) w1 = (start, w2)"
    and inside: "I' = I\<lparr>context_of := child_context S (context_of I) k, state_of := with_scope k (state_of I)\<rparr>"
    and acquired: "acquire r I' w2 = Some (Inr a, w3)"
    and fresh: "status (scope_in k w3) = ScopeOpen" "finalizers (scope_in k w3) = []"
    and layer: "l = layer_scoped h (\<lambda>k w. Some (Inr (\<lambda>r. acquire_release h S k (acquire r) closure), w))"
    and closes: "perform S (closure I' a) = release_closure I' release a"
    and used: "fx a I' (holding k (closure I' a) (state_of I') w3) = Some (x, w4)"
    and held: "status (scope_in k w4) = ScopeOpen" "finalizers (scope_in k w4) = [closure I' a]"
    and joined: "children_wait S k (closing_world S k (erase_exit any_of x) w4) = Some w5"
    and released: "release a w5 = Some (Inr fin, w6)"
      "fin (I'\<lparr>context_of := without_cancel h (context_of I')\<rparr>) w6 = Some (y, w7)"
  shows "let w8 = count_in_ledger record_release (state_of I') w7 in
    provide_layer_same h S any_of fx l r I w =
      Some (if cause_part y = Empty then x else Inl (then_cause (cause_part x) (cause_part y)),
        put_scope k ((scope_in k w8)\<lparr>status := ScopeClosed\<rparr>) w8)"
proof -
  have "suspend_runtime h (\<lambda>_ w. Some (Inr (flat_map h (l r) (pure fx)), w)) I' w2 =
      flat_map h (acquire_release h S k (acquire r) closure) (pure fx) I' w2"
    by (simp add: layer layer_scoped_def with_current_scope_def suspend_runtime_def guarded_def capture_def flat_map_def
        inside with_scope_def)
  from scoped_bracket [where program = "\<lambda>_ w. Some (Inr (flat_map h (l r) (pure fx)), w)" and use = fx
      and acquire = "acquire r" and closure = closure and any_of = any_of,
      OF quiet opened inside acquired fresh this closes used held joined released refl]
  show ?thesis by (simp add: provide_layer_same_def Let_def)
qed

theorem layer_resource_outlives_consumer_witness:
  "map_option (map_prod id log) (provide_layer_same logged_host logged_scopes (\<lambda>_. []) (\<lambda>_. logged_panic)
     (layer_scoped logged_host (\<lambda>k w. Some (Inr (\<lambda>_. acquire_release logged_host logged_scopes k
        (logging ''open file'' ''file'') (\<lambda>_ a. a)), w))) () logged_interp logged_world)
   = Some (boom, [''open file'', ''close file''])"
  using layer_resource_outlives_consumer [where r = "()" and fx = "\<lambda>_. logged_panic" and closure = "\<lambda>_ a. a"
      and any_of = "\<lambda>_. []" and x = boom and release = logged_release and ?w4.0 = holding_world and ?w5.0 = closing_file
      and ?w6.0 = closing_file and ?w7.0 = closed_file and y = "Inr ()" and fin = "logging ''close file'' ()"
      and acquire = "\<lambda>_. logging ''open file'' ''file''", OF logged_entry logged_acquires refl logged_closes(1)]
    logged_uses logged_closes(2-4)
  by (simp add: Let_def holding_world_def [symmetric] logged_closed del: scope_in_def)

end
