(* ===== verification/Shared_State.thy ===== *)
theory Shared_State
  imports Scoped_Effects Broadcast_Hub
begin

section \<open>State shared between fibers\<close>

text \<open>
  \<^verbatim>\<open>effect/ref.go\<close> and \<^verbatim>\<open>effect/deferred.go\<close>: the cells and one-shot results that fibers share, as
  effects. The world is a heap of scopes extended by the objects fibers hold handles to; a handle is
  an address. Typed contents are stored erased, as \<open>'v\<close>.

  A goroutine that has to wait gives itself to the Go scheduler, which is not in this repository:
  \<open>park cond ctx w\<close> waits in the world \<open>w\<close> until \<open>cond\<close> holds or, when a context is given, until it
  is cancelled. It answers which of the two woke it and the world the goroutine finds, or \<open>None\<close> when
  nothing ever wakes it. Other goroutines act on the world meanwhile.
\<close>

type_synonym ('c, 'w) scheduler = "('w \<Rightarrow> bool) \<Rightarrow> 'c option \<Rightarrow> 'w \<Rightarrow> (bool \<times> 'w) option"

definition wakes_when_ready :: "('c, 'w) scheduler \<Rightarrow> bool" where
  "wakes_when_ready park \<longleftrightarrow>
     (\<forall>cond ctx w b w'. park cond ctx w = Some (b, w') \<longrightarrow> (b \<longrightarrow> cond w') \<and> (ctx = None \<longrightarrow> b))"

text \<open>What every other goroutine, and a reading of a context, leaves between two worlds.\<close>

definition others_keep ::
  "('v, 'c, 'w) host \<Rightarrow> ('c, 'w) scheduler \<Rightarrow> ('w \<Rightarrow> 'w \<Rightarrow> bool) \<Rightarrow> bool" where
  "others_keep h park R \<longleftrightarrow>
     (\<forall>cond ctx w b w'. park cond ctx w = Some (b, w') \<longrightarrow> R w w') \<and> (\<forall>ctx w. R w (snd (ctx_err h ctx w)))"

lemma wakesD:
  "wakes_when_ready park \<Longrightarrow> park cond ctx w = Some (True, w') \<Longrightarrow> cond w'"
  "wakes_when_ready park \<Longrightarrow> park cond None w = Some (b, w') \<Longrightarrow> b \<and> cond w'"
  unfolding wakes_when_ready_def by (blast, metis)

lemma others_keepD:
  "others_keep h park R \<Longrightarrow> park cond ctx w = Some (b, w') \<Longrightarrow> R w w'"
  "others_keep h park R \<Longrightarrow> R w (snd (ctx_err h ctx0 w))"
  by (auto simp: others_keep_def)

text \<open>A scheduler with nobody else to run: what is not ready now never is.\<close>

definition alone :: "('c, 'w) scheduler" where
  "alone cond ctx w = (if cond w then Some (True, w) else None)"

lemma alone_wakes [simp]: "wakes_when_ready alone"
  by (auto simp: wakes_when_ready_def alone_def split: if_splits)

record 'v ref_cell =
  cell_locked :: bool
  cell_value :: 'v

record ('f, 'v) shared = "('f, 'v) heap" +
  ref_heap :: "nat \<Rightarrow> 'v ref_cell"
  next_ref :: nat
  completion_heap :: "nat \<Rightarrow> 'v completion"
  next_completion :: nat
  queue_heap :: "nat \<Rightarrow> 'v queue"
  next_queue :: nat
  hub_heap :: "nat \<Rightarrow> 'v hub"
  next_hub :: nat

definition put_ref :: "nat \<Rightarrow> 'v ref_cell \<Rightarrow> ('f, 'v, 'z) shared_scheme \<Rightarrow> ('f, 'v, 'z) shared_scheme" where
  "put_ref r c w = w\<lparr>ref_heap := (ref_heap w)(r := c)\<rparr>"

definition put_completion ::
  "nat \<Rightarrow> 'v completion \<Rightarrow> ('f, 'v, 'z) shared_scheme \<Rightarrow> ('f, 'v, 'z) shared_scheme" where
  "put_completion d c w = w\<lparr>completion_heap := (completion_heap w)(d := c)\<rparr>"

lemma put_ref_heap [simp]: "ref_heap (put_ref r c w) = (ref_heap w)(r := c)"
  by (simp add: put_ref_def)

lemma put_completion_heap [simp]: "completion_heap (put_completion d c w) = (completion_heap w)(d := c)"
  by (simp add: put_completion_def)

subsection \<open>Interruption\<close>

definition reason_of_context :: "('v, 'c, 'w) host \<Rightarrow> 'c \<Rightarrow> 'w \<Rightarrow> nilable_err \<times> 'w" where
  "reason_of_context h ctx w = (case ctx_err h ctx w of ((err, reason), w') \<Rightarrow> (cancellation_reason err reason, w'))"

text \<open>\<open>exitInterrupt(CancellationReason(ctx))\<close>, the answer of a leaf whose wait was cancelled.\<close>

definition interrupted_exit :: "('v, 'c, 'w) host \<Rightarrow> 'c \<Rightarrow> ('v, 'w, 'v cause + 'a) callback" where
  "interrupted_exit h ctx w =
     (case reason_of_context h ctx w of (r, w') \<Rightarrow> Some (Inr (Inl (interrupt_cause r)), w'))"

lemma interrupted_exit_SomeD:
  "interrupted_exit h ctx w = Some (x, w') \<Longrightarrow> \<exists>r. x = Inr (Inl (interrupt_cause r)) \<and> w' = snd (ctx_err h ctx w)"
  by (auto simp: interrupted_exit_def reason_of_context_def split: prod.splits)

text \<open>A leaf either stops at its checkpoint or runs in the world the checkpoint left.\<close>

lemma from_runtime_SomeE:
  assumes "from_runtime h f I w = Some (x, w')"
  obtains (interrupted) r where "x = Inl (interrupt_cause r)" "w' = snd (ctx_err h (context_of I) w)"
  | (panicked) p where "f I (snd (ctx_err h (context_of I) w)) = Some (Inl p, w')"
      "x = Inl (die_cause (capture_defect p (stack_trace h w')))"
  | (returned) "f I (snd (ctx_err h (context_of I) w)) = Some (Inr x, w')"
proof -
  obtain err reason w1 where c: "ctx_err h (context_of I) w = ((err, reason), w1)"
    by (cases "ctx_err h (context_of I) w") auto
  show ?thesis
  proof (cases err)
    case (Some e)
    then show ?thesis using assms c
      by (auto intro: interrupted simp: from_runtime_def at_checkpoint_def machine_interrupt_def)
  next
    case None
    show ?thesis
    proof (cases "f I w1")
      case None
      then show ?thesis using \<open>err = None\<close> assms c
        by (simp add: from_runtime_def at_checkpoint_def machine_interrupt_def guarded_def capture_def)
    next
      case (Some r)
      obtain y w2 where r: "r = (y, w2)" by (cases r)
      show ?thesis
      proof (cases y)
        case (Inl p)
        then show ?thesis using \<open>err = None\<close> Some r assms c
          by (intro panicked [of p])
             (auto simp: from_runtime_def at_checkpoint_def machine_interrupt_def guarded_def capture_def)
      next
        case (Inr z)
        then show ?thesis using \<open>err = None\<close> Some r assms c
          by (intro returned) (auto simp: from_runtime_def at_checkpoint_def machine_interrupt_def guarded_def capture_def)
      qed
    qed
  qed
qed

lemma from_runtime_live:
  assumes "ctx_err h (context_of I) w = ((None, reason), w1)" "f I w1 = Some (Inr x, w')"
  shows "from_runtime h f I w = Some (x, w')"
  using assms by (simp add: from_runtime_def at_checkpoint_def machine_interrupt_def guarded_def capture_def)

subsection \<open>References\<close>

definition new_ref ::
  "('v, 'c, ('f, 'v, 'z) shared_scheme) host \<Rightarrow> 'v \<Rightarrow> ('v, 'c, ('f, 'v, 'z) shared_scheme, nat) fx" where
  "new_ref h v = from_runtime h (\<lambda>_ w.
     Some (Inr (Inr (next_ref w)), put_ref (next_ref w) \<lparr>cell_locked = False, cell_value = v\<rparr> w\<lparr>next_ref := Suc (next_ref w)\<rparr>))"

definition lock_ref ::
  "('c, ('f, 'v, 'z) shared_scheme) scheduler \<Rightarrow> nat \<Rightarrow> ('f, 'v, 'z) shared_scheme \<Rightarrow> ('f, 'v, 'z) shared_scheme option" where
  "lock_ref park r w =
     map_option (\<lambda>(_, w'). put_ref r ((ref_heap w' r)\<lparr>cell_locked := True\<rparr>) w')
       (park (\<lambda>w. \<not> cell_locked (ref_heap w r)) None w)"

definition unlock_ref :: "nat \<Rightarrow> ('f, 'v, 'z) shared_scheme \<Rightarrow> ('f, 'v, 'z) shared_scheme" where
  "unlock_ref r w = put_ref r ((ref_heap w r)\<lparr>cell_locked := False\<rparr>) w"

definition ref_get ::
  "('v, 'c, ('f, 'v, 'z) shared_scheme) host \<Rightarrow> ('c, ('f, 'v, 'z) shared_scheme) scheduler \<Rightarrow> nat
     \<Rightarrow> ('v, 'c, ('f, 'v, 'z) shared_scheme, 'v) fx" where
  "ref_get h park r = from_runtime h (\<lambda>_ w.
     map_option (\<lambda>w1. (Inr (Inr (cell_value (ref_heap w1 r))), unlock_ref r w1)) (lock_ref park r w))"

text \<open>The deferred unlock runs when \<open>change\<close> panics too; the value is then left as it was.\<close>

definition change_locked ::
  "('c, ('f, 'v, 'z) shared_scheme) scheduler \<Rightarrow> nat \<Rightarrow> ('v \<Rightarrow> ('v, ('f, 'v, 'z) shared_scheme, 'v \<times> 'b) callback)
     \<Rightarrow> ('v, ('f, 'v, 'z) shared_scheme, 'b) callback" where
  "change_locked park r change w =
     (case lock_ref park r w of
        None \<Rightarrow> None
      | Some w1 \<Rightarrow>
          (case change (cell_value (ref_heap w1 r)) w1 of
             None \<Rightarrow> None
           | Some (Inl p, w2) \<Rightarrow> Some (Inl p, unlock_ref r w2)
           | Some (Inr (v, b), w2) \<Rightarrow> Some (Inr b, unlock_ref r (put_ref r ((ref_heap w2 r)\<lparr>cell_value := v\<rparr>) w2))))"

definition modify ::
  "('v, 'c, ('f, 'v, 'z) shared_scheme) host \<Rightarrow> ('c, ('f, 'v, 'z) shared_scheme) scheduler \<Rightarrow> nat
     \<Rightarrow> ('v \<Rightarrow> ('v, ('f, 'v, 'z) shared_scheme, 'v \<times> 'b) callback) \<Rightarrow> ('v, 'c, ('f, 'v, 'z) shared_scheme, 'b) fx" where
  "modify h park r change = from_runtime h (\<lambda>_ w.
     map_option (map_prod (map_sum id Inr) id) (change_locked park r change w))"

definition changing ::
  "('v \<Rightarrow> ('v, 'w, 'v) callback) \<Rightarrow> ('v \<Rightarrow> 'v \<Rightarrow> 'b) \<Rightarrow> 'v \<Rightarrow> ('v, 'w, 'v \<times> 'b) callback" where
  "changing change result v w = map_option (map_prod (map_sum id (\<lambda>v'. (v', result v v'))) id) (change v w)"

definition ref_update ::
  "('v, 'c, ('f, 'v, 'z) shared_scheme) host \<Rightarrow> ('c, ('f, 'v, 'z) shared_scheme) scheduler \<Rightarrow> nat
     \<Rightarrow> ('v \<Rightarrow> ('v, ('f, 'v, 'z) shared_scheme, 'v) callback) \<Rightarrow> ('v, 'c, ('f, 'v, 'z) shared_scheme, unit) fx" where
  "ref_update h park r change = modify h park r (changing change (\<lambda>_ _. ()))"

definition ref_set ::
  "('v, 'c, ('f, 'v, 'z) shared_scheme) host \<Rightarrow> ('c, ('f, 'v, 'z) shared_scheme) scheduler \<Rightarrow> nat \<Rightarrow> 'v
     \<Rightarrow> ('v, 'c, ('f, 'v, 'z) shared_scheme, unit) fx" where
  "ref_set h park r v = ref_update h park r (pure (\<lambda>_. v))"

definition get_and_update ::
  "('v, 'c, ('f, 'v, 'z) shared_scheme) host \<Rightarrow> ('c, ('f, 'v, 'z) shared_scheme) scheduler \<Rightarrow> nat
     \<Rightarrow> ('v \<Rightarrow> ('v, ('f, 'v, 'z) shared_scheme, 'v) callback) \<Rightarrow> ('v, 'c, ('f, 'v, 'z) shared_scheme, 'v) fx" where
  "get_and_update h park r change = modify h park r (changing change (\<lambda>v _. v))"

definition get_and_set ::
  "('v, 'c, ('f, 'v, 'z) shared_scheme) host \<Rightarrow> ('c, ('f, 'v, 'z) shared_scheme) scheduler \<Rightarrow> nat \<Rightarrow> 'v
     \<Rightarrow> ('v, 'c, ('f, 'v, 'z) shared_scheme, 'v) fx" where
  "get_and_set h park r v = get_and_update h park r (pure (\<lambda>_. v))"

definition update_and_get ::
  "('v, 'c, ('f, 'v, 'z) shared_scheme) host \<Rightarrow> ('c, ('f, 'v, 'z) shared_scheme) scheduler \<Rightarrow> nat
     \<Rightarrow> ('v \<Rightarrow> ('v, ('f, 'v, 'z) shared_scheme, 'v) callback) \<Rightarrow> ('v, 'c, ('f, 'v, 'z) shared_scheme, 'v) fx" where
  "update_and_get h park r change = modify h park r (changing change (\<lambda>_ v'. v'))"

lemma lock_ref_SomeE:
  assumes "wakes_when_ready park" "lock_ref park r w = Some w1"
  obtains w0 where "park (\<lambda>w. \<not> cell_locked (ref_heap w r)) None w = Some (True, w0)"
    "ref_heap w1 r = \<lparr>cell_locked = True, cell_value = cell_value (ref_heap w0 r)\<rparr>"
proof -
  from assms(2) obtain b w0 where p: "park (\<lambda>w. \<not> cell_locked (ref_heap w r)) None w = Some (b, w0)"
    and w1: "w1 = put_ref r ((ref_heap w0 r)\<lparr>cell_locked := True\<rparr>) w0"
    by (auto simp: lock_ref_def)
  moreover have "b" using wakesD(2) [OF assms(1) p] by simp
  ultimately show ?thesis by (intro that [of w0]) simp_all
qed

lemma change_locked_SomeE:
  assumes "wakes_when_ready park" "change_locked park r change w = Some (z, w')"
    and mine: "\<And>v w1 y w2. change v w1 = Some (y, w2) \<Longrightarrow> ref_heap w2 r = ref_heap w1 r"
  obtains w0 w1 y w2 where "park (\<lambda>w. \<not> cell_locked (ref_heap w r)) None w = Some (True, w0)"
    "ref_heap w1 r = \<lparr>cell_locked = True, cell_value = cell_value (ref_heap w0 r)\<rparr>"
    "change (cell_value (ref_heap w0 r)) w1 = Some (y, w2)" "z = map_sum id snd y"
    "ref_heap w' r = \<lparr>cell_locked = False,
       cell_value = (case y of Inl _ \<Rightarrow> cell_value (ref_heap w0 r) | Inr (v, _) \<Rightarrow> v)\<rparr>"
proof -
  from assms(2) obtain w1 where l: "lock_ref park r w = Some w1"
    by (auto simp: change_locked_def split: option.splits)
  from lock_ref_SomeE [OF assms(1) l] obtain w0 where
    p: "park (\<lambda>w. \<not> cell_locked (ref_heap w r)) None w = Some (True, w0)"
    and w1: "ref_heap w1 r = \<lparr>cell_locked = True, cell_value = cell_value (ref_heap w0 r)\<rparr>" .
  from assms(2) l w1 obtain y w2 where c: "change (cell_value (ref_heap w0 r)) w1 = Some (y, w2)"
    by (auto simp: change_locked_def split: option.splits)
  show ?thesis
    using that [OF p w1 c] assms(2) l w1 c mine [OF c]
    by (auto simp: change_locked_def unlock_ref_def split: sum.splits)
qed

text \<open>
  C33: changing a reference loses no update. Whatever changes \<open>C\<close> the other fibers make to the cell
  before this one gets its lock, a change applied by \<open>Modify\<close> starts from the value they left, is
  applied once with the cell locked, and its result is what the cell holds when the lock is given
  back. When it panics, the effect dies, the lock is given back too and the cell has the value the
  others left; when the fiber is interrupted before, the cell only has the others' changes.
\<close>

theorem ref_modify_loses_no_update:
  assumes "wakes_when_ready park"
    and others: "others_keep h park (\<lambda>w w'. (cell_value (ref_heap w r), cell_value (ref_heap w' r)) \<in> C\<^sup>*)"
    and mine: "\<And>v w1 y w2. change v w1 = Some (y, w2) \<Longrightarrow> ref_heap w2 r = ref_heap w1 r"
    and ran: "modify h park r change I w = Some (x, w')"
  shows "(\<exists>v w1 v' b w2. (cell_value (ref_heap w r), v) \<in> C\<^sup>*
        \<and> ref_heap w1 r = \<lparr>cell_locked = True, cell_value = v\<rparr> \<and> change v w1 = Some (Inr (v', b), w2)
        \<and> x = Inr b \<and> ref_heap w' r = \<lparr>cell_locked = False, cell_value = v'\<rparr>)
    \<or> (\<exists>d v. x = Inl (die_cause d) \<and> (cell_value (ref_heap w r), v) \<in> C\<^sup>*
        \<and> ref_heap w' r = \<lparr>cell_locked = False, cell_value = v\<rparr>)
    \<or> (\<exists>i. x = Inl (interrupt_cause i) \<and> (cell_value (ref_heap w r), cell_value (ref_heap w' r)) \<in> C\<^sup>*)"
proof -
  let ?w = "snd (ctx_err h (context_of I) w)"
  have before: "(cell_value (ref_heap w r), cell_value (ref_heap ?w r)) \<in> C\<^sup>*"
    by (rule others_keepD(2) [OF others])
  have inside: ?thesis
    if run: "change_locked park r change ?w = Some (z, w')"
      and z: "\<And>b. z = Inr b \<Longrightarrow> x = Inr b" "\<And>p. z = Inl p \<Longrightarrow> \<exists>d. x = Inl (die_cause d)"
    for z
  proof -
    from change_locked_SomeE [OF assms(1) run mine] obtain w0 w1 y w2 where
      p: "park (\<lambda>w. \<not> cell_locked (ref_heap w r)) None ?w = Some (True, w0)"
      and c: "ref_heap w1 r = \<lparr>cell_locked = True, cell_value = cell_value (ref_heap w0 r)\<rparr>"
        "change (cell_value (ref_heap w0 r)) w1 = Some (y, w2)" "z = map_sum id snd y"
        "ref_heap w' r = \<lparr>cell_locked = False,
           cell_value = (case y of Inl _ \<Rightarrow> cell_value (ref_heap w0 r) | Inr (v, _) \<Rightarrow> v)\<rparr>" .
    have reach: "(cell_value (ref_heap w r), cell_value (ref_heap w0 r)) \<in> C\<^sup>*"
      by (rule rtrancl_trans [OF before others_keepD(1) [OF others p]])
    show ?thesis
    proof (cases y)
      case (Inl e)
      then show ?thesis using c(3,4) z(2) reach by auto
    next
      case (Inr vb)
      then show ?thesis using c z(1) reach by (cases vb) auto
    qed
  qed
  show ?thesis
    using ran unfolding modify_def
  proof (cases rule: from_runtime_SomeE)
    case (interrupted cause)
    then show ?thesis using before by blast
  next
    case (panicked p)
    then obtain z where "change_locked park r change ?w = Some (z, w')" "map_sum id Inr z = (Inl p :: 'b + ('b cause + 'e))"
      by auto
    then show ?thesis using panicked(2) by (intro inside [of z]) (cases z; auto)+
  next
    case returned
    then obtain z where "change_locked park r change ?w = Some (z, w')" "map_sum id Inr z = Inr x"
      by auto
    then show ?thesis by (intro inside [of z]) (auto split: sum.splits)
  qed
qed

definition counter_world :: "(string, string) shared" where
  "counter_world = \<lparr>scope_heap = (\<lambda>_. \<lparr>cell_scope = new_scope None, close_exit = Failed Empty\<rparr>), next_scope = 1,
     ledger_heap = (\<lambda>_. \<lparr>fiber_starts = 0, fiber_completions = 0, acquisitions = 0, releases = 0\<rparr>),
     identity_cell = \<lparr>next_span = 0, next_fiber = 0\<rparr>,
     ref_heap = (\<lambda>_. \<lparr>cell_locked = False, cell_value = ''a''\<rparr>), next_ref = 1,
     completion_heap = (\<lambda>_. None), next_completion = 0,
     queue_heap = (\<lambda>_. new_queue 1 BackPressure), next_queue = 0,
     hub_heap = (\<lambda>_. new_hub 1 BackPressure), next_hub = 0\<rparr>"

definition live_host :: "(string, bool, 'w) host" where
  "live_host = \<lparr>ctx_err = (\<lambda>cancelled w. ((if cancelled then Some (GoErr 0 ''cancelled'' []) else None, None), w)),
     stack_trace = (\<lambda>_. []), error_value = (\<lambda>t. t), string_value = (\<lambda>t. t), without_cancel = (\<lambda>_. False)\<rparr>"

definition live_interp :: "(string, bool, 'w) interp" where
  "live_interp = \<lparr>context_of = False,
     state_of = fst (new_state \<lparr>clock_now = (\<lambda>w. (0, w)), clock_sleep = (\<lambda>_ _ w. Some (None, w)),
       observer = None, diagnostics = None, config_source = None\<rparr> 0 None),
     environment = []\<rparr>"

lemma alone_keeps: "others_keep live_host alone R \<longleftrightarrow> (\<forall>w. R w w)"
  by (auto simp: others_keep_def alone_def live_host_def split: if_splits)

theorem ref_modify_loses_no_update_witness:
  "cell_value (ref_heap (snd (the (update_and_get live_host alone 0 (pure (\<lambda>v. v @ ''b'')) live_interp counter_world))) 0)
     = ''ab''"
proof -
  let ?change = "changing (pure (\<lambda>v. v @ ''b'')) (\<lambda>_ v'. v') :: string \<Rightarrow> (string, (string, string) shared, string \<times> string) callback"
  obtain x w' where r: "modify live_host alone 0 ?change live_interp counter_world = Some (x, w')"
    and x: "\<exists>b. x = Inr b"
    by (simp add: modify_def change_locked_def lock_ref_def alone_def fx_defs machine_interrupt_def live_host_def
        live_interp_def counter_world_def changing_def capture_def)
  have "(\<exists>v w1 v' b w2. (cell_value (ref_heap counter_world 0), v) \<in> {}\<^sup>*
        \<and> ref_heap w1 0 = \<lparr>cell_locked = True, cell_value = v\<rparr> \<and> ?change v w1 = Some (Inr (v', b), w2)
        \<and> x = Inr b \<and> ref_heap w' 0 = \<lparr>cell_locked = False, cell_value = v'\<rparr>)
    \<or> (\<exists>d v. x = Inl (die_cause d) \<and> (cell_value (ref_heap counter_world 0), v) \<in> {}\<^sup>*
        \<and> ref_heap w' 0 = \<lparr>cell_locked = False, cell_value = v\<rparr>)
    \<or> (\<exists>i. x = Inl (interrupt_cause i) \<and> (cell_value (ref_heap counter_world 0), cell_value (ref_heap w' 0)) \<in> {}\<^sup>*)"
    by (rule ref_modify_loses_no_update [OF alone_wakes _ _ r]) (auto simp: alone_keeps changing_def)
  moreover have "cell_value (ref_heap counter_world 0) = ''a''" by (simp add: counter_world_def)
  ultimately have "cell_value (ref_heap w' 0) = ''ab''" using x by (auto simp: changing_def)
  then show ?thesis by (simp add: update_and_get_def r)
qed

subsection \<open>Deferreds\<close>

text \<open>Waiting for a completion, with a context that may be cancelled and without one.\<close>

definition completion_await ::
  "('c, ('f, 'v, 'z) shared_scheme) scheduler \<Rightarrow> nat \<Rightarrow> 'c \<Rightarrow> ('f, 'v, 'z) shared_scheme
     \<Rightarrow> ('v exit option \<times> ('f, 'v, 'z) shared_scheme) option" where
  "completion_await park d ctx w =
     map_option (\<lambda>(written, w'). (if written then completion_heap w' d else None, w'))
       (park (\<lambda>w. completion_heap w d \<noteq> None) (Some ctx) w)"

definition completion_wait ::
  "('c, ('f, 'v, 'z) shared_scheme) scheduler \<Rightarrow> nat \<Rightarrow> ('f, 'v, 'z) shared_scheme
     \<Rightarrow> ('v exit \<times> ('f, 'v, 'z) shared_scheme) option" where
  "completion_wait park d w =
     map_option (\<lambda>(_, w'). (the (completion_heap w' d), w')) (park (\<lambda>w. completion_heap w d \<noteq> None) None w)"

definition complete_at ::
  "nat \<Rightarrow> 'v exit \<Rightarrow> ('f, 'v, 'z) shared_scheme \<Rightarrow> bool \<times> ('f, 'v, 'z) shared_scheme" where
  "complete_at d x w = (case complete x (completion_heap w d) of (won, c) \<Rightarrow> (won, put_completion d c w))"

definition new_deferred ::
  "('v, 'c, ('f, 'v, 'z) shared_scheme) host \<Rightarrow> ('v, 'c, ('f, 'v, 'z) shared_scheme, nat) fx" where
  "new_deferred h = from_runtime h (\<lambda>_ w.
     Some (Inr (Inr (next_completion w)),
       put_completion (next_completion w) new_completion (w\<lparr>next_completion := Suc (next_completion w)\<rparr>)))"

definition deferred_complete ::
  "('v, 'c, ('f, 'v, 'z) shared_scheme) host \<Rightarrow> nat \<Rightarrow> 'v cause + 'v \<Rightarrow> ('v, 'c, ('f, 'v, 'z) shared_scheme, bool) fx" where
  "deferred_complete h d x = from_runtime h (\<lambda>_ w.
     case complete_at d (erased_exit x) w of (won, w') \<Rightarrow> Some (Inr (Inr won), w'))"

definition deferred_succeed ::
  "('v, 'c, ('f, 'v, 'z) shared_scheme) host \<Rightarrow> nat \<Rightarrow> 'v \<Rightarrow> ('v, 'c, ('f, 'v, 'z) shared_scheme, bool) fx" where
  "deferred_succeed h d v = deferred_complete h d (Inr v)"

definition deferred_fail ::
  "('v, 'c, ('f, 'v, 'z) shared_scheme) host \<Rightarrow> nat \<Rightarrow> 'v \<Rightarrow> ('v, 'c, ('f, 'v, 'z) shared_scheme, bool) fx" where
  "deferred_fail h d e = deferred_complete h d (Inl (fail_cause e))"

text \<open>The typed answer of a wait: what was written, or the interruption of the caller.\<close>

definition adopt_awaited ::
  "('v, 'c, ('f, 'v, 'z) shared_scheme) host \<Rightarrow> ('c, ('f, 'v, 'z) shared_scheme) scheduler \<Rightarrow> nat
     \<Rightarrow> ('v cause + 'v \<Rightarrow> 'v cause + 'a) \<Rightarrow> 'c \<Rightarrow> ('v, ('f, 'v, 'z) shared_scheme, 'v cause + 'a) callback" where
  "adopt_awaited h park d answer ctx w =
     (case completion_await park d ctx w of
        None \<Rightarrow> None
      | Some (None, w') \<Rightarrow> interrupted_exit h ctx w'
      | Some (Some x, w') \<Rightarrow> Some (Inr (answer (typed_exit x)), w'))"

definition deferred_await ::
  "('v, 'c, ('f, 'v, 'z) shared_scheme) host \<Rightarrow> ('c, ('f, 'v, 'z) shared_scheme) scheduler \<Rightarrow> nat
     \<Rightarrow> ('v, 'c, ('f, 'v, 'z) shared_scheme, 'v) fx" where
  "deferred_await h park d = from_runtime h (\<lambda>I. adopt_awaited h park d (\<lambda>x. x) (context_of I))"

definition deferred_poll :: "nat \<Rightarrow> ('f, 'v, 'z) shared_scheme \<Rightarrow> ('v cause + 'v) option" where
  "deferred_poll d w = map_option typed_exit (poll (completion_heap w d))"

abbreviation write_once :: "nat \<Rightarrow> ('f, 'v, 'z) shared_scheme \<Rightarrow> ('f, 'v, 'z) shared_scheme \<Rightarrow> bool" where
  "write_once d w w' \<equiv> \<forall>x. completion_heap w d = Some x \<longrightarrow> completion_heap w' d = Some x"

lemma completion_await_SomeD:
  assumes "wakes_when_ready park" "others_keep h park (write_once d)" "completion_await park d ctx w = Some (a, w')"
  shows "write_once d w w'" "a = Some x \<Longrightarrow> completion_heap w' d = Some x"
  using assms(3) others_keepD(1) [OF assms(2)]
  by (auto simp: completion_await_def split: if_splits)

lemma completion_wait_SomeD:
  assumes "wakes_when_ready park" "others_keep h park (write_once d)" "completion_wait park d w = Some (x, w')"
  shows "completion_heap w' d = Some x" "write_once d w w'"
  using assms(3) others_keepD(1) [OF assms(2)] wakesD(2) [OF assms(1)]
  by (fastforce simp: completion_wait_def)+

text \<open>A wait that returns answers what was written, and what was written before is what it answers.\<close>

lemma adopt_awaited_SomeD:
  assumes "wakes_when_ready park" "others_keep h park (write_once d)"
    and "adopt_awaited h park d answer ctx w = Some (y, w')"
  shows "(\<exists>x. completion_heap w' d = Some x \<and> y = Inr (answer (typed_exit x)) \<and> write_once d w w')
    \<or> (\<exists>r. y = Inr (Inl (interrupt_cause r)) \<and> write_once d w w')"
proof -
  from assms(3) obtain a w1 where c: "completion_await park d ctx w = Some (a, w1)"
    by (auto simp: adopt_awaited_def split: option.splits)
  show ?thesis
  proof (cases a)
    case None
    then have "interrupted_exit h ctx w1 = Some (y, w')" using assms(3) c by (simp add: adopt_awaited_def)
    from interrupted_exit_SomeD [OF this] show ?thesis
      using completion_await_SomeD(1) [OF assms(1,2) c] others_keepD(2) [OF assms(2), of w1 ctx] by auto
  next
    case (Some x)
    then show ?thesis
      using assms(3) c completion_await_SomeD [OF assms(1,2) c] by (auto simp: adopt_awaited_def)
  qed
qed

text \<open>
  A deferred is fulfilled once and every waiter sees that outcome. After it holds one, completing
  it again is refused and changes nothing, and every wait that is not interrupted answers it, however
  many there are and whatever else runs; a completion that was accepted is the one it holds.
\<close>

theorem deferred_broadcasts_its_outcome:
  assumes "wakes_when_ready park" "others_keep h park (write_once d)"
  shows "(completion_heap w d = Some x \<and> deferred_complete h d y I w = Some (r, w') \<longrightarrow>
        (r = Inr False \<or> (\<exists>c. r = Inl (interrupt_cause c))) \<and> completion_heap w' d = Some x)
    \<and> (completion_heap w d = Some x \<and> deferred_await h park d I w = Some (a, w') \<longrightarrow>
        (a = typed_exit x \<or> (\<exists>c. a = Inl (interrupt_cause c))) \<and> completion_heap w' d = Some x)
    \<and> (deferred_complete h d y I w = Some (Inr True, w') \<longrightarrow> completion_heap w' d = Some (erased_exit y))
    \<and> (deferred_await h park d I w = Some (Inr v, w') \<longrightarrow> completion_heap w' d = Some (Succeeded v))"
proof (intro conjI impI; (elim conjE)?)
  have checked: "write_once d w (snd (ctx_err h (context_of I) w))"
    by (rule others_keepD(2) [OF assms(2)])
  show "r = Inr False \<or> (\<exists>c. r = Inl (interrupt_cause c))" "completion_heap w' d = Some x"
    if "completion_heap w d = Some x" "deferred_complete h d y I w = Some (r, w')"
    using that(2) unfolding deferred_complete_def
    by (cases rule: from_runtime_SomeE; use that(1) checked in \<open>auto simp: complete_at_def complete_def\<close>)+
  show "a = typed_exit x \<or> (\<exists>c. a = Inl (interrupt_cause c))" "completion_heap w' d = Some x"
    if "completion_heap w d = Some x" "deferred_await h park d I w = Some (a, w')"
    using that(2) unfolding deferred_await_def
    by (cases rule: from_runtime_SomeE; use that(1) checked in \<open>auto dest!: adopt_awaited_SomeD [OF assms]\<close>)+
  show "completion_heap w' d = Some (erased_exit y)" if "deferred_complete h d y I w = Some (Inr True, w')"
    using that unfolding deferred_complete_def
    by (cases rule: from_runtime_SomeE) (auto simp: complete_at_def complete_def split: option.splits)
  show "completion_heap w' d = Some (Succeeded v)" if "deferred_await h park d I w = Some (Inr v, w')"
    using that unfolding deferred_await_def
    by (cases rule: from_runtime_SomeE) (auto dest!: adopt_awaited_SomeD [OF assms] simp: typed_exit_def split: exit.splits)
qed

text \<open>Two completions and a wait, one after the other: the wait answers the first.\<close>

definition raced_world :: "(string, string) shared" where
  "raced_world = put_completion 0 (Some (Succeeded ''first'')) counter_world"

theorem deferred_broadcasts_its_outcome_witness:
  "deferred_await live_host alone 0 live_interp raced_world = Some (Inr ''first'', raced_world)
   \<and> completion_heap (snd (the (deferred_succeed live_host 0 ''second'' live_interp raced_world))) 0 = Some (Succeeded ''first'')"
proof -
  have keeps: "others_keep live_host alone (write_once 0)" by (simp add: alone_keeps)
  have held: "completion_heap raced_world 0 = Some (Succeeded ''first'')" by (simp add: raced_world_def)
  obtain a w' where a: "deferred_await live_host alone 0 live_interp raced_world = Some (a, w')"
    and s: "w' = raced_world" "\<nexists>c. a = Inl c"
    by (auto simp: deferred_await_def adopt_awaited_def completion_await_def held alone_def fx_defs machine_interrupt_def
        live_host_def live_interp_def capture_def typed_exit_def)
  obtain r w2 where r: "deferred_complete live_host 0 (Inr ''second'') live_interp raced_world = Some (r, w2)"
    by (simp add: deferred_complete_def complete_at_def complete_def held fx_defs machine_interrupt_def
        live_host_def live_interp_def capture_def)
  have "a = typed_exit (Succeeded ''first'') \<or> (\<exists>c. a = Inl (interrupt_cause c))"
    using deferred_broadcasts_its_outcome [OF alone_wakes keeps, THEN conjunct2, THEN conjunct1] held a by blast
  moreover have "completion_heap w2 0 = Some (Succeeded ''first'')"
    using deferred_broadcasts_its_outcome [OF alone_wakes keeps, THEN conjunct1] held r by blast
  ultimately show ?thesis using a s r by (simp add: deferred_succeed_def)
qed

end
