(* ===== verification/Fiber_Effects.thy ===== *)
theory Fiber_Effects
  imports Shared_State
begin

section \<open>Fibers as effects\<close>

text \<open>
  \<^verbatim>\<open>effect/internal/lifetime/fiber.go\<close>, \<^verbatim>\<open>effect/internal/runtime/spawn.go\<close>, \<^verbatim>\<open>effect/fork.go\<close> and
  \<^verbatim>\<open>effect/fiber.go\<close>: starting a computation on its own goroutine, the body that goroutine runs, and
  the handle that observes it. A fiber's terminal result is a completion of the shared world.

  The context library's \<open>WithCancelCause\<close> and the \<open>go\<close> statement come from outside: the first
  derives a context, \<open>cancel_context\<close> cancels one, and \<open>go_start body w\<close> is the world once the goroutine
  that runs \<open>body\<close> was started -- the scheduler may have run any part of it by then.
\<close>

record ('c, 'w) spawn_host =
  derive_context :: "'c \<Rightarrow> 'w \<Rightarrow> 'c \<times> 'w"
  cancel_context :: "'c \<Rightarrow> nilable_err \<Rightarrow> 'w \<Rightarrow> 'w"
  go_start :: "('w \<Rightarrow> 'w option) \<Rightarrow> 'w \<Rightarrow> 'w"
  fiber_interrupted :: nilable_err

record 'c fiber =
  fiber_number :: "64 word"
  fiber_context :: 'c
  terminal :: nat

subsection \<open>Starting a fiber\<close>

definition new_fiber ::
  "64 word \<Rightarrow> 'c \<Rightarrow> ('f, 'v, 'z) shared_scheme \<Rightarrow> 'c fiber \<times> ('f, 'v, 'z) shared_scheme" where
  "new_fiber n ctx w =
     (\<lparr>fiber_number = n, fiber_context = ctx, terminal = next_completion w\<rparr>,
      put_completion (next_completion w) new_completion (w\<lparr>next_completion := Suc (next_completion w)\<rparr>))"

text \<open>\<open>work\<close> is given the child's context and state, and guards every panic of the program it runs.\<close>

type_synonym ('v, 'c, 'w) fiber_work = "'c \<Rightarrow> ('c, 'w) state \<Rightarrow> 'w \<Rightarrow> ('v exit \<times> 'w) option"

definition finish_fiber ::
  "('c, ('f, 'v, 'z) shared_scheme) spawn_host \<Rightarrow> nat \<Rightarrow> 'c fiber \<Rightarrow> ('c, ('f, 'v, 'z) shared_scheme) state
     \<Rightarrow> 'v exit \<Rightarrow> ('f, 'v, 'z) shared_scheme \<Rightarrow> ('f, 'v, 'z) shared_scheme" where
  "finish_fiber G owner fb st x w =
     (let w1 = snd (complete_at (terminal fb) x w);
          w2 = count_in_ledger record_fiber_completion st w1;
          w3 = cancel_context G (fiber_context fb) (fiber_interrupted G) w2
      in put_scope owner (child_done (scope_in owner w3)) w3)"

definition run_fiber ::
  "('v, 'c, ('f, 'v, 'z) shared_scheme) host \<Rightarrow> ('v, 'c, ('f, 'v, 'z) shared_scheme, 'f) scope_host
     \<Rightarrow> ('c, ('f, 'v, 'z) shared_scheme) spawn_host \<Rightarrow> nat \<Rightarrow> nat \<Rightarrow> 'c fiber
     \<Rightarrow> ('c, ('f, 'v, 'z) shared_scheme) state \<Rightarrow> ('v, 'c, ('f, 'v, 'z) shared_scheme) fiber_work
     \<Rightarrow> ('f, 'v, 'z) shared_scheme \<Rightarrow> ('f, 'v, 'z) shared_scheme option" where
  "run_fiber h S G owner child fb st work w =
     (let ctx = child_context S (fiber_context fb) child in
      case emit_start ctx FiberStarted st w of
        (start, w1) \<Rightarrow>
          (case work ctx st w1 of
             None \<Rightarrow> None
           | Some (x, w2) \<Rightarrow>
               map_option (\<lambda>(cleanup, w3).
                   let y = after_cleanup x cleanup in
                   finish_fiber G owner fb st y (emit_end ctx FiberCompleted start (exit_status y) st w3))
                 (close_at h S child ctx x (scope_closed S) w2)))"

definition start_fiber_at ::
  "('v, 'c, ('f, 'v, 'z) shared_scheme) host \<Rightarrow> ('v, 'c, ('f, 'v, 'z) shared_scheme, 'f) scope_host
     \<Rightarrow> ('c, ('f, 'v, 'z) shared_scheme) spawn_host \<Rightarrow> nat \<Rightarrow> 'c \<Rightarrow> ('c, ('f, 'v, 'z) shared_scheme) state
     \<Rightarrow> ('v, 'c, ('f, 'v, 'z) shared_scheme) fiber_work \<Rightarrow> ('f, 'v, 'z) shared_scheme
     \<Rightarrow> 'c fiber option \<times> ('f, 'v, 'z) shared_scheme" where
  "start_fiber_at h S G owner parent st work w =
     (case derive_context G parent w of
        (ctx, w1) \<Rightarrow>
          (case new_scope_at h ctx w1 of
             (child, w2) \<Rightarrow>
               (case next_fiber_id (identity_cell w2) of
                  (n, ids) \<Rightarrow>
                    (case new_fiber n ctx (w2\<lparr>identity_cell := ids\<rparr>) of
                       (fb, w3) \<Rightarrow>
                         let st' = for_child child n st;
                             w4 = count_in_ledger record_fiber_start st w3
                         in (case fork (scope_in owner w4) of
                               (True, s) \<Rightarrow>
                                 (Some fb, go_start G (run_fiber h S G owner child fb st' work) (put_scope owner s w4))
                             | (False, _) \<Rightarrow>
                                 (None, cancel_context G ctx (scope_closed S)
                                    (count_in_ledger record_fiber_completion st w4)))))))"

subsection \<open>Forking\<close>

definition erase_work ::
  "('v, 'c, 'w, 'v) fx \<Rightarrow> 'v \<Rightarrow> ('v, 'c, 'w) fiber_work" where
  "erase_work fx env ctx st w =
     map_option (map_prod erased_exit id) (fx \<lparr>context_of = ctx, state_of = st, environment = env\<rparr> w)"

definition fork_fiber ::
  "('v, 'c, ('f, 'v, 'z) shared_scheme) host \<Rightarrow> ('v, 'c, ('f, 'v, 'z) shared_scheme, 'f) scope_host
     \<Rightarrow> ('c, ('f, 'v, 'z) shared_scheme) spawn_host \<Rightarrow> (('c, ('f, 'v, 'z) shared_scheme) state \<Rightarrow> nat)
     \<Rightarrow> ('v, 'c, ('f, 'v, 'z) shared_scheme, 'v) fx \<Rightarrow> ('v, 'c, ('f, 'v, 'z) shared_scheme, 'c fiber) fx" where
  "fork_fiber h S G select_owner fx = from_runtime h (\<lambda>I w.
     case start_fiber_at h S G (select_owner (state_of I)) (context_of I) (state_of I)
            (erase_work fx (environment I)) w of
       (Some fb, w') \<Rightarrow> Some (Inr (Inr fb), w')
     | (None, w') \<Rightarrow> Some (Inr (Inl (interrupt_cause (scope_closed S))), w'))"

definition fork_current ::
  "('v, 'c, ('f, 'v, 'z) shared_scheme) host \<Rightarrow> ('v, 'c, ('f, 'v, 'z) shared_scheme, 'f) scope_host
     \<Rightarrow> ('c, ('f, 'v, 'z) shared_scheme) spawn_host
     \<Rightarrow> ('v, 'c, ('f, 'v, 'z) shared_scheme, 'v) fx \<Rightarrow> ('v, 'c, ('f, 'v, 'z) shared_scheme, 'c fiber) fx" where
  "fork_current h S G = fork_fiber h S G scope_at"

definition fork_in ::
  "('v, 'c, ('f, 'v, 'z) shared_scheme) host \<Rightarrow> ('v, 'c, ('f, 'v, 'z) shared_scheme, 'f) scope_host
     \<Rightarrow> ('c, ('f, 'v, 'z) shared_scheme) spawn_host \<Rightarrow> nat
     \<Rightarrow> ('v, 'c, ('f, 'v, 'z) shared_scheme, 'v) fx \<Rightarrow> ('v, 'c, ('f, 'v, 'z) shared_scheme, 'c fiber) fx" where
  "fork_in h S G k = fork_fiber h S G (\<lambda>_. k)"

definition fork_daemon ::
  "('v, 'c, ('f, 'v, 'z) shared_scheme) host \<Rightarrow> ('v, 'c, ('f, 'v, 'z) shared_scheme, 'f) scope_host
     \<Rightarrow> ('c, ('f, 'v, 'z) shared_scheme) spawn_host
     \<Rightarrow> ('v, 'c, ('f, 'v, 'z) shared_scheme, 'v) fx \<Rightarrow> ('v, 'c, ('f, 'v, 'z) shared_scheme, 'c fiber) fx" where
  "fork_daemon h S G = fork_fiber h S G root_at"

subsection \<open>Observing\<close>

definition fiber_poll :: "'c fiber \<Rightarrow> ('f, 'v, 'z) shared_scheme \<Rightarrow> ('v cause + 'v) option" where
  "fiber_poll fb w = map_option typed_exit (poll (completion_heap w (terminal fb)))"

definition fiber_await ::
  "('v, 'c, ('f, 'v, 'z) shared_scheme) host \<Rightarrow> ('c, ('f, 'v, 'z) shared_scheme) scheduler \<Rightarrow> 'c fiber
     \<Rightarrow> ('v, 'c, ('f, 'v, 'z) shared_scheme, 'v cause + 'v) fx" where
  "fiber_await h park fb = from_runtime h (\<lambda>I. adopt_awaited h park (terminal fb) Inr (context_of I))"

definition fiber_join ::
  "('v, 'c, ('f, 'v, 'z) shared_scheme) host \<Rightarrow> ('c, ('f, 'v, 'z) shared_scheme) scheduler \<Rightarrow> 'c fiber
     \<Rightarrow> ('v, 'c, ('f, 'v, 'z) shared_scheme, 'v) fx" where
  "fiber_join h park fb = from_runtime h (\<lambda>I. adopt_awaited h park (terminal fb) (\<lambda>x. x) (context_of I))"

text \<open>\<open>Interrupt\<close> waits without the caller's context, so it cannot return before the fiber ended.\<close>

definition interrupt_and_wait ::
  "('c, ('f, 'v, 'z) shared_scheme) spawn_host \<Rightarrow> ('c, ('f, 'v, 'z) shared_scheme) scheduler \<Rightarrow> 'c fiber
     \<Rightarrow> nilable_err \<Rightarrow> ('f, 'v, 'z) shared_scheme \<Rightarrow> ('v exit \<times> ('f, 'v, 'z) shared_scheme) option" where
  "interrupt_and_wait G park fb reason w =
     completion_wait park (terminal fb) (cancel_context G (fiber_context fb) reason w)"

definition fiber_interrupt ::
  "('v, 'c, ('f, 'v, 'z) shared_scheme) host \<Rightarrow> ('c, ('f, 'v, 'z) shared_scheme) spawn_host
     \<Rightarrow> ('c, ('f, 'v, 'z) shared_scheme) scheduler \<Rightarrow> 'c fiber
     \<Rightarrow> ('v, 'c, ('f, 'v, 'z) shared_scheme, 'v cause + 'v) fx" where
  "fiber_interrupt h G park fb = from_runtime h (\<lambda>_ w.
     map_option (\<lambda>(x, w'). (Inr (Inr (typed_exit x)), w')) (interrupt_and_wait G park fb (fiber_interrupted G) w))"

subsection \<open>What observers see\<close>

lemma fiber_interrupt_live:
  assumes "ctx_err h (context_of I) w = ((None, reason), w1)"
  shows "fiber_interrupt h G park fb I w =
    map_option (\<lambda>(x, w'). (Inr (typed_exit x), w')) (interrupt_and_wait G park fb (fiber_interrupted G) w1)"
proof (cases "interrupt_and_wait G park fb (fiber_interrupted G) w1")
  case None
  with assms show ?thesis
    by (simp add: fiber_interrupt_def from_runtime_def at_checkpoint_def machine_interrupt_def guarded_def capture_def)
next
  case (Some r)
  with assms show ?thesis
    by (cases r) (simp add: fiber_interrupt_def from_runtime_def at_checkpoint_def machine_interrupt_def guarded_def capture_def)
qed

lemma finish_fiber_completes:
  assumes "\<And>ctx reason w. write_once (terminal fb) w (cancel_context G ctx reason w)"
    and "completion_heap w (terminal fb) = None"
  shows "completion_heap (finish_fiber G owner fb st x w) (terminal fb) = Some x"
proof -
  let ?w2 = "count_in_ledger record_fiber_completion st (snd (complete_at (terminal fb) x w))"
  have "completion_heap ?w2 (terminal fb) = Some x"
    using assms(2) by (simp add: complete_at_def complete_def count_in_ledger_def split: option.splits)
  then have "completion_heap (cancel_context G (fiber_context fb) (fiber_interrupted G) ?w2) (terminal fb) = Some x"
    using assms(1) by blast
  then show ?thesis by (simp add: finish_fiber_def Let_def put_scope_def)
qed

lemma run_fiber_completes:
  assumes quiet: "\<not> has_observer st"
    and clock: "clock_now (services st) w = (start, w1)"
    and body: "work (child_context S (fiber_context fb) child) st w1 = Some (x, w2)"
    and closed: "close_at h S child (child_context S (fiber_context fb) child) x (scope_closed S) w2 = Some (cleanup, w3)"
    and cancels: "\<And>ctx reason w. write_once (terminal fb) w (cancel_context G ctx reason w)"
    and unwritten: "completion_heap w3 (terminal fb) = None"
  shows "run_fiber h S G owner child fb st work w = Some (finish_fiber G owner fb st (after_cleanup x cleanup) w3)"
    and "completion_heap (finish_fiber G owner fb st (after_cleanup x cleanup) w3) (terminal fb) = Some (after_cleanup x cleanup)"
  using assms finish_fiber_completes [OF cancels unwritten]
  by (simp_all add: run_fiber_def emit_start_def no_observer_no_event Let_def)


text \<open>A goroutine that is run as soon as it is started, in a world where nobody else acts.\<close>

definition eager_spawn :: "(bool, 'w) spawn_host" where
  "eager_spawn = \<lparr>derive_context = (\<lambda>c w. (c, w)), cancel_context = (\<lambda>_ _ w. w),
     go_start = (\<lambda>body w. case body w of None \<Rightarrow> w | Some w' \<Rightarrow> w'), fiber_interrupted = None\<rparr>"

definition plain_scopes :: "(string, bool, 'w, string) scope_host" where
  "plain_scopes = \<lparr>child_context = (\<lambda>c _. c), perform = (\<lambda>_ _ _ w. Some (Inr Empty, w)),
     children_wait = (\<lambda>_ w. Some w), scope_closed = None\<rparr>"

definition done_fiber :: "bool fiber" where
  "done_fiber = \<lparr>fiber_number = 1, fiber_context = False, terminal = 0\<rparr>"

definition done_work :: "(string, bool, (string, string) shared) fiber_work" where
  "done_work ctx st w = Some (Succeeded ''done'', w)"


subsection \<open>What forking promises\<close>

definition live_at :: "('c, ('f, 'v, 'z) shared_scheme) state \<Rightarrow> ('f, 'v, 'z) shared_scheme \<Rightarrow> live_work" where
  "live_at st w = live (map_option (ledger_heap w) (ledger_at st))"

lemma live_at_started:
  "ledger_at st = Some l \<Longrightarrow> live_fibers (live_at st (count_in_ledger record_fiber_start st w)) = live_fibers (live_at st w) + 1"
  "live_at st (count_in_ledger record_fiber_completion st (count_in_ledger record_fiber_start st w)) = live_at st w"
  by (auto simp: live_at_def live_def count_in_ledger_def record_fiber_start_def record_fiber_completion_def
      split: option.split)

text \<open>
  A fork is owned or refused, before anything runs. Into an open scope it starts exactly the
  fiber's body, and when it does the scope already counts it, the ledger has recorded it, and its
  identity, its scope and its unwritten result are new. Into a closing or closed scope no goroutine
  starts: the scope is as it was, the live count is balanced, the derived context is cancelled.
\<close>

theorem fork_is_owned_or_refused:
  assumes "derive_context G parent w = (ctx, w1)" "new_scope_at h ctx w1 = (child, w2)"
    and fb: "fb = \<lparr>fiber_number = next_fiber (identity_cell w2) + 1, fiber_context = ctx, terminal = next_completion w2\<rparr>"
  shows "(status (scope_in owner w2) = ScopeOpen \<longrightarrow>
      (\<exists>wg. start_fiber_at h S G owner parent st work w =
          (Some fb, go_start G (run_fiber h S G owner child fb (for_child child (fiber_number fb) st) work) wg)
        \<and> running (scope_in owner wg) = Suc (running (scope_in owner w2)) \<and> status (scope_in owner wg) = ScopeOpen
        \<and> completion_heap wg (terminal fb) = None \<and> next_completion wg = Suc (terminal fb)
        \<and> next_fiber (identity_cell wg) = fiber_number fb
        \<and> (ledger_at st \<noteq> None \<longrightarrow> live_fibers (live_at st wg) = live_fibers (live_at st w2) + 1)))
    \<and> (status (scope_in owner w2) \<noteq> ScopeOpen \<longrightarrow>
      (\<exists>wg. start_fiber_at h S G owner parent st work w = (None, cancel_context G ctx (scope_closed S) wg)
        \<and> scope_in owner wg = scope_in owner w2 \<and> live_at st wg = live_at st w2))"
proof -
  let ?w3 = "put_completion (next_completion w2) new_completion
      (w2\<lparr>identity_cell := (identity_cell w2)\<lparr>next_fiber := fiber_number fb\<rparr>, next_completion := Suc (next_completion w2)\<rparr>)"
  let ?w4 = "count_in_ledger record_fiber_start st ?w3"
  have scope: "scope_in owner ?w4 = scope_in owner w2" by (simp add: put_completion_def)
  have live: "live_at st (count_in_ledger record_fiber_completion st ?w4) = live_at st w2"
    "ledger_at st \<noteq> None \<Longrightarrow> live_fibers (live_at st ?w4) = live_fibers (live_at st w2) + 1"
    using live_at_started(2) [of st ?w3] live_at_started(1) [of st _ ?w3]
    by (auto simp: live_at_def put_completion_def)
  show ?thesis
  proof (cases "status (scope_in owner w2) = ScopeOpen")
    case True
    let ?wg = "put_scope owner ((scope_in owner w2)\<lparr>running := Suc (running (scope_in owner w2))\<rparr>) ?w4"
    have rest: "completion_heap ?wg (terminal fb) = None" "next_completion ?wg = Suc (terminal fb)"
      "next_fiber (identity_cell ?wg) = fiber_number fb" "live_at st ?wg = live_at st ?w4"
      by (cases "ledger_at st"; simp add: fb put_scope_def put_completion_def count_in_ledger_def new_completion_def live_at_def)+
    show ?thesis
      using True scope rest live(2) assms(1,2)
      by (intro conjI impI exI [of _ ?wg])
         (simp_all add: fork_def start_fiber_at_def next_fiber_id_def new_fiber_def Let_def fb)
  next
    case False
    then show ?thesis
      using scope live(1) assms(1,2)
      by (intro conjI impI exI [of _ "count_in_ledger record_fiber_completion st ?w4"])
         (simp_all add: fork_def start_fiber_at_def next_fiber_id_def new_fiber_def Let_def fb)
  qed
qed

theorem fork_is_owned_or_refused_witness:
  "\<exists>wg. start_fiber_at live_host plain_scopes eager_spawn 0 False (state_of live_interp) done_work counter_world =
      (Some done_fiber, go_start eager_spawn
         (run_fiber live_host plain_scopes eager_spawn 0 1 done_fiber (for_child 1 1 (state_of live_interp)) done_work) wg)
    \<and> running (scope_in 0 wg) = 1"
proof -
  obtain w2 where n: "new_scope_at live_host False counter_world = (1, w2)" "scope_in 0 w2 = new_scope None"
    "next_fiber (identity_cell w2) = 0" "next_completion w2 = 0"
    by (simp add: new_scope_at_def live_host_def counter_world_def)
  have d: "derive_context eager_spawn False counter_world = (False, counter_world)" by (simp add: eager_spawn_def)
  have f: "done_fiber = \<lparr>fiber_number = next_fiber (identity_cell w2) + 1, fiber_context = False,
      terminal = next_completion w2\<rparr>"
    by (simp add: done_fiber_def n)
  show ?thesis
    using fork_is_owned_or_refused [where S = plain_scopes and owner = 0 and st = "state_of live_interp" and work = done_work,
        OF d n(1) f, THEN conjunct1, THEN mp] n(2)
    by (auto simp: new_scope_def done_fiber_def)
qed

end
