(* ===== verification/Queue_Effects.thy ===== *)
theory Queue_Effects
  imports Shared_State
begin

section \<open>Queues and hubs as effects\<close>

text \<open>
  \<^verbatim>\<open>effect/queue.go\<close> and \<^verbatim>\<open>effect/hub.go\<close>, with the waits of \<^verbatim>\<open>internal/lifetime/queue_waiter.go\<close>:
  what one goroutine does in a whole \<open>Offer\<close>, \<open>Take\<close>, \<open>TakeUpTo\<close> or \<open>Publish\<close>. The sections it runs under
  the lock are those of \<open>Work_Queue\<close> and \<open>Broadcast_Hub\<close>; between them it parks. A queue is reached
  through a handle, or through the subscription whose inbox it is.
\<close>

subsection \<open>Where queues are\<close>

datatype queue_ref = QueueAt nat | InboxAt nat nat

fun queue_at :: "queue_ref \<Rightarrow> ('f, 'v, 'z) shared_scheme \<Rightarrow> 'v queue" where
  "queue_at (QueueAt q) w = queue_heap w q"
| "queue_at (InboxAt b t) w = store (hub_heap w b) t"

definition put_hub :: "nat \<Rightarrow> 'v hub \<Rightarrow> ('f, 'v, 'z) shared_scheme \<Rightarrow> ('f, 'v, 'z) shared_scheme" where
  "put_hub b hb w = w\<lparr>hub_heap := (hub_heap w)(b := hb)\<rparr>"

fun put_queue_at :: "queue_ref \<Rightarrow> 'v queue \<Rightarrow> ('f, 'v, 'z) shared_scheme \<Rightarrow> ('f, 'v, 'z) shared_scheme" where
  "put_queue_at (QueueAt q) s w = w\<lparr>queue_heap := (queue_heap w)(q := s)\<rparr>"
| "put_queue_at (InboxAt b t) s w = put_hub b ((hub_heap w b)\<lparr>store := (store (hub_heap w b))(t := s)\<rparr>) w"

lemma queue_at_put [simp]: "queue_at q (put_queue_at q s w) = s"
  by (cases q) (simp_all add: put_hub_def)

subsection \<open>Whole operations of one goroutine\<close>

definition room_ready :: "queue_ref \<Rightarrow> nat \<Rightarrow> ('f, 'v, 'z) shared_scheme \<Rightarrow> bool" where
  "room_ready q i w \<longleftrightarrow> fst (chan_recv (admission (queue_at q w) i)) \<noteq> Blocked"

definition value_ready :: "queue_ref \<Rightarrow> nat \<Rightarrow> ('f, 'v, 'z) shared_scheme \<Rightarrow> bool" where
  "value_ready q i w \<longleftrightarrow> fst (chan_recv (ready (queue_at q w) i)) \<noteq> Blocked"

text \<open>A step of the queue on the world it lives in.\<close>

definition with_queue ::
  "queue_ref \<Rightarrow> ('v queue \<Rightarrow> ('a \<times> 'v queue) option) \<Rightarrow> ('f, 'v, 'z) shared_scheme
     \<Rightarrow> ('a \<times> ('f, 'v, 'z) shared_scheme) option" where
  "with_queue q step w = map_option (\<lambda>(a, s). (a, put_queue_at q s w)) (step (queue_at q w))"

definition await_room ::
  "('c, ('f, 'v, 'z) shared_scheme) scheduler \<Rightarrow> queue_ref \<Rightarrow> nat \<Rightarrow> 'c \<Rightarrow> ('f, 'v, 'z) shared_scheme
     \<Rightarrow> ((bool \<times> bool) \<times> ('f, 'v, 'z) shared_scheme) option" where
  "await_room park q i ctx w =
     (case park (room_ready q i) (Some ctx) w of
        None \<Rightarrow> None
      | Some (True, w1) \<Rightarrow> with_queue q (room_received i) w1
      | Some (False, w1) \<Rightarrow>
          (case abandon_offerer i (queue_at q w1) of
             (True, s) \<Rightarrow> Some ((False, True), put_queue_at q s w1)
           | (False, _) \<Rightarrow>
               (case park (room_ready q i) None w1 of
                  None \<Rightarrow> None
                | Some (_, w2) \<Rightarrow> with_queue q (room_received i) w2)))"

definition await_value ::
  "('c, ('f, 'v, 'z) shared_scheme) scheduler \<Rightarrow> queue_ref \<Rightarrow> nat \<Rightarrow> 'c \<Rightarrow> ('f, 'v, 'z) shared_scheme
     \<Rightarrow> (('v option \<times> bool) \<times> ('f, 'v, 'z) shared_scheme) option" where
  "await_value park q i ctx w =
     (case park (value_ready q i) (Some ctx) w of
        None \<Rightarrow> None
      | Some (True, w1) \<Rightarrow> with_queue q (value_received i) w1
      | Some (False, w1) \<Rightarrow>
          (case abandon_taker i (queue_at q w1) of
             (True, s) \<Rightarrow> Some ((None, True), put_queue_at q s w1)
           | (False, _) \<Rightarrow>
               (case park (value_ready q i) None w1 of
                  None \<Rightarrow> None
                | Some (_, w2) \<Rightarrow> with_queue q (value_received i) w2)))"

text \<open>The two results are (accepted, interrupted); calling a nil policy would panic.\<close>

definition queue_offer ::
  "('v, 'c, ('f, 'v, 'z) shared_scheme) host \<Rightarrow> ('c, ('f, 'v, 'z) shared_scheme) scheduler \<Rightarrow> queue_ref \<Rightarrow> 'v \<Rightarrow> 'c
     \<Rightarrow> ('v, ('f, 'v, 'z) shared_scheme, bool \<times> bool) callback" where
  "queue_offer h park q v ctx w =
     (case offer v (queue_at q w) of
        (OfferReturned accepted interrupted, s) \<Rightarrow> Some (Inr (accepted, interrupted), put_queue_at q s w)
      | (OfferParked i, s) \<Rightarrow> map_option (map_prod Inr id) (await_room park q i ctx (put_queue_at q s w))
      | (OfferPanicked, s) \<Rightarrow>
          Some (Inl (error_value h ''invalid memory address or nil pointer dereference''), put_queue_at q s w))"

text \<open>The value with OK true is \<open>Some\<close>; the bool is whether the caller was interrupted.\<close>

definition queue_take ::
  "('c, ('f, 'v, 'z) shared_scheme) scheduler \<Rightarrow> queue_ref \<Rightarrow> 'c \<Rightarrow> ('f, 'v, 'z) shared_scheme
     \<Rightarrow> (('v option \<times> bool) \<times> ('f, 'v, 'z) shared_scheme) option" where
  "queue_take park q ctx w =
     (case take_value (queue_at q w) of
        (Took v, s) \<Rightarrow> Some ((Some v, False), put_queue_at q s w)
      | (TookNothing, s) \<Rightarrow> Some ((None, False), put_queue_at q s w)
      | (TakeParked i, s) \<Rightarrow> await_value park q i ctx (put_queue_at q s w))"

text \<open>
  The batch of \<open>TakeUpTo\<close> is allocated with room for \<open>limit\<close> values after the first one was taken;
  \<open>fits\<close> says whether the Go runtime makes a slice of that capacity, and otherwise it panics.
\<close>

definition queue_take_up_to ::
  "('v, 'c, ('f, 'v, 'z) shared_scheme) host \<Rightarrow> ('c, ('f, 'v, 'z) shared_scheme) scheduler \<Rightarrow> (int \<Rightarrow> bool)
     \<Rightarrow> queue_ref \<Rightarrow> int \<Rightarrow> 'c \<Rightarrow> ('v, ('f, 'v, 'z) shared_scheme, 'v list \<times> bool) callback" where
  "queue_take_up_to h park fits q limit ctx w =
     (if limit < 1 then Some (Inr ([], False), w)
      else case queue_take park q ctx w of
        None \<Rightarrow> None
      | Some ((_, True), w1) \<Rightarrow> Some (Inr ([], True), w1)
      | Some ((None, False), w1) \<Rightarrow> Some (Inr ([], False), w1)
      | Some ((Some v, False), w1) \<Rightarrow>
          if \<not> fits limit then Some (Inl (error_value h ''makeslice: cap out of range''), w1)
          else (case fill_batch limit v (queue_at q w1) of (batch, s) \<Rightarrow> Some (Inr (batch, False), put_queue_at q s w1)))"

text \<open>\<open>Publish\<close> offers to each inbox of its snapshot in turn, and each offer may wait.\<close>

fun publish_each ::
  "('v, 'c, ('f, 'v, 'z) shared_scheme) host \<Rightarrow> ('c, ('f, 'v, 'z) shared_scheme) scheduler \<Rightarrow> nat \<Rightarrow> nat list \<Rightarrow> 'v \<Rightarrow> 'c
     \<Rightarrow> ('v, ('f, 'v, 'z) shared_scheme, bool \<times> bool) callback" where
  "publish_each h park b [] v ctx w = Some (Inr (True, False), w)"
| "publish_each h park b (t # ts) v ctx w =
     (case queue_offer h park (InboxAt b t) v ctx w of
        None \<Rightarrow> None
      | Some (Inl p, w') \<Rightarrow> Some (Inl p, w')
      | Some (Inr (_, True), w') \<Rightarrow> Some (Inr (False, True), w')
      | Some (Inr (_, False), w') \<Rightarrow> publish_each h park b ts v ctx w')"

definition hub_publish ::
  "('v, 'c, ('f, 'v, 'z) shared_scheme) host \<Rightarrow> ('c, ('f, 'v, 'z) shared_scheme) scheduler \<Rightarrow> nat \<Rightarrow> 'v \<Rightarrow> 'c
     \<Rightarrow> ('v, ('f, 'v, 'z) shared_scheme, bool \<times> bool) callback" where
  "hub_publish h park b v ctx w =
     (case current_inboxes (hub_heap w b) of
        None \<Rightarrow> Some (Inr (False, False), w)
      | Some ts \<Rightarrow> publish_each h park b ts v ctx w)"

subsection \<open>Queue effects\<close>

text \<open>\<open>WhenFull\<close> is a \<^verbatim>\<open>uint8\<close>; what is not one of its constants selects the default branch.\<close>

definition full_queue_policy_of :: "8 word \<Rightarrow> full_queue_policy" where
  "full_queue_policy_of when_full =
     (if when_full = 1 then DropNewest else if when_full = 2 then DropOldest else BackPressure)"

definition allocate_queue ::
  "'v queue \<Rightarrow> ('v, ('f, 'v, 'z) shared_scheme, 'v cause + queue_ref) callback" where
  "allocate_queue s w =
     Some (Inr (Inr (QueueAt (next_queue w))),
       put_queue_at (QueueAt (next_queue w)) s (w\<lparr>next_queue := Suc (next_queue w)\<rparr>))"

definition new_queue_fx ::
  "('v, 'c, ('f, 'v, 'z) shared_scheme) host \<Rightarrow> int \<Rightarrow> 8 word \<Rightarrow> ('v, 'c, ('f, 'v, 'z) shared_scheme, queue_ref) fx" where
  "new_queue_fx h cap when_full = from_runtime h (\<lambda>_. allocate_queue (new_queue cap (full_queue_policy_of when_full)))"

definition new_unbounded_queue_fx ::
  "('v, 'c, ('f, 'v, 'z) shared_scheme) host \<Rightarrow> ('v, 'c, ('f, 'v, 'z) shared_scheme, queue_ref) fx" where
  "new_unbounded_queue_fx h = from_runtime h (\<lambda>_. allocate_queue new_unbounded_queue)"

text \<open>A leaf that answers an interruption when its operation was interrupted, and its result otherwise.\<close>

definition interruptible ::
  "('v, 'c, 'w) host \<Rightarrow> ('c \<Rightarrow> ('v, 'w, 'a \<times> bool) callback) \<Rightarrow> ('v, 'c, 'w, 'a) fx" where
  "interruptible h op = from_runtime h (\<lambda>I w.
     case op (context_of I) w of
       None \<Rightarrow> None
     | Some (Inl p, w') \<Rightarrow> Some (Inl p, w')
     | Some (Inr (a, interrupted), w') \<Rightarrow>
         if interrupted then interrupted_exit h (context_of I) w' else Some (Inr (Inr a), w'))"

definition offer_fx ::
  "('v, 'c, ('f, 'v, 'z) shared_scheme) host \<Rightarrow> ('c, ('f, 'v, 'z) shared_scheme) scheduler \<Rightarrow> queue_ref \<Rightarrow> 'v
     \<Rightarrow> ('v, 'c, ('f, 'v, 'z) shared_scheme, bool) fx" where
  "offer_fx h park q v = interruptible h (queue_offer h park q v)"

definition take_fx ::
  "('v, 'c, ('f, 'v, 'z) shared_scheme) host \<Rightarrow> ('c, ('f, 'v, 'z) shared_scheme) scheduler \<Rightarrow> queue_ref
     \<Rightarrow> ('v, 'c, ('f, 'v, 'z) shared_scheme, 'v option) fx" where
  "take_fx h park q = interruptible h (\<lambda>ctx w. map_option (map_prod Inr id) (queue_take park q ctx w))"

definition take_up_to_fx ::
  "('v, 'c, ('f, 'v, 'z) shared_scheme) host \<Rightarrow> ('c, ('f, 'v, 'z) shared_scheme) scheduler \<Rightarrow> (int \<Rightarrow> bool) \<Rightarrow> queue_ref
     \<Rightarrow> int \<Rightarrow> ('v, 'c, ('f, 'v, 'z) shared_scheme, 'v list) fx" where
  "take_up_to_fx h park fits q limit = interruptible h (queue_take_up_to h park fits q limit)"

definition take_available_fx ::
  "('v, 'c, ('f, 'v, 'z) shared_scheme) host \<Rightarrow> queue_ref \<Rightarrow> int \<Rightarrow> ('v, 'c, ('f, 'v, 'z) shared_scheme, 'v list) fx" where
  "take_available_fx h q limit = from_runtime h (\<lambda>_ w.
     case take_available limit (queue_at q w) of (batch, s) \<Rightarrow> Some (Inr (Inr batch), put_queue_at q s w))"

definition shutdown_fx ::
  "('v, 'c, ('f, 'v, 'z) shared_scheme) host \<Rightarrow> queue_ref \<Rightarrow> ('v, 'c, ('f, 'v, 'z) shared_scheme, unit) fx" where
  "shutdown_fx h q = from_runtime h (\<lambda>_ w. Some (Inr (Inr ()), put_queue_at q (shutdown (queue_at q w)) w))"

text \<open>A scoped queue registers its shutdown as the release; \<open>closure\<close> names that finalizer.\<close>

definition acquire_queue ::
  "('v, 'c, ('f, 'v, 'z) shared_scheme) host \<Rightarrow> ('v, 'c, ('f, 'v, 'z) shared_scheme, 'f) scope_host \<Rightarrow> nat
     \<Rightarrow> ('v, 'c, ('f, 'v, 'z) shared_scheme, queue_ref) fx
     \<Rightarrow> (('v, 'c, ('f, 'v, 'z) shared_scheme) interp \<Rightarrow> queue_ref \<Rightarrow> 'f)
     \<Rightarrow> ('v, 'c, ('f, 'v, 'z) shared_scheme, queue_ref) fx" where
  "acquire_queue h S k create closure = acquire_release h S k create closure"

definition queue_release ::
  "('v, 'c, ('f, 'v, 'z) shared_scheme) host \<Rightarrow> queue_ref
     \<Rightarrow> ('v, ('f, 'v, 'z) shared_scheme, ('v, 'c, ('f, 'v, 'z) shared_scheme, unit) fx) callback" where
  "queue_release h q = pure (shutdown_fx h) q"

definition scope_queue ::
  "('v, 'c, ('f, 'v, 'z) shared_scheme) host \<Rightarrow> ('v, 'c, ('f, 'v, 'z) shared_scheme, 'f) scope_host \<Rightarrow> nat \<Rightarrow> int \<Rightarrow> 8 word
     \<Rightarrow> (('v, 'c, ('f, 'v, 'z) shared_scheme) interp \<Rightarrow> queue_ref \<Rightarrow> 'f)
     \<Rightarrow> ('v, 'c, ('f, 'v, 'z) shared_scheme, queue_ref) fx" where
  "scope_queue h S k cap when_full = acquire_queue h S k (new_queue_fx h cap when_full)"

definition scope_unbounded_queue ::
  "('v, 'c, ('f, 'v, 'z) shared_scheme) host \<Rightarrow> ('v, 'c, ('f, 'v, 'z) shared_scheme, 'f) scope_host \<Rightarrow> nat
     \<Rightarrow> (('v, 'c, ('f, 'v, 'z) shared_scheme) interp \<Rightarrow> queue_ref \<Rightarrow> 'f)
     \<Rightarrow> ('v, 'c, ('f, 'v, 'z) shared_scheme, queue_ref) fx" where
  "scope_unbounded_queue h S k = acquire_queue h S k (new_unbounded_queue_fx h)"

subsection \<open>Hub effects\<close>

record subscription =
  subscribed_hub :: nat
  subscription_token :: nat

definition inbox_of :: "subscription \<Rightarrow> queue_ref" where
  "inbox_of s = InboxAt (subscribed_hub s) (subscription_token s)"

definition new_hub_fx ::
  "('v, 'c, ('f, 'v, 'z) shared_scheme) host \<Rightarrow> int \<Rightarrow> 8 word \<Rightarrow> ('v, 'c, ('f, 'v, 'z) shared_scheme, nat) fx" where
  "new_hub_fx h cap when_full = from_runtime h (\<lambda>_ w.
     Some (Inr (Inr (next_hub w)),
       put_hub (next_hub w) (new_hub cap (full_queue_policy_of when_full)) (w\<lparr>next_hub := Suc (next_hub w)\<rparr>)))"

definition hub_shutdown_fx ::
  "('v, 'c, ('f, 'v, 'z) shared_scheme) host \<Rightarrow> nat \<Rightarrow> ('v, 'c, ('f, 'v, 'z) shared_scheme, unit) fx" where
  "hub_shutdown_fx h b = from_runtime h (\<lambda>_ w. Some (Inr (Inr ()), put_hub b (hub_shutdown (hub_heap w b)) w))"

definition scope_hub ::
  "('v, 'c, ('f, 'v, 'z) shared_scheme) host \<Rightarrow> ('v, 'c, ('f, 'v, 'z) shared_scheme, 'f) scope_host \<Rightarrow> nat \<Rightarrow> int \<Rightarrow> 8 word
     \<Rightarrow> (('v, 'c, ('f, 'v, 'z) shared_scheme) interp \<Rightarrow> nat \<Rightarrow> 'f) \<Rightarrow> ('v, 'c, ('f, 'v, 'z) shared_scheme, nat) fx" where
  "scope_hub h S k cap when_full closure = acquire_release h S k (new_hub_fx h cap when_full) closure"

text \<open>\<open>hub_gone\<close> is the sentinel \<open>ErrHubShutdown\<close>.\<close>

definition subscribe_fx ::
  "('v, 'c, ('f, 'v, 'z) shared_scheme) host \<Rightarrow> nilable_err \<Rightarrow> nat
     \<Rightarrow> ('v, 'c, ('f, 'v, 'z) shared_scheme, subscription) fx" where
  "subscribe_fx h hub_gone b = from_runtime h (\<lambda>_ w.
     case subscribe (hub_heap w b) of
       (None, s) \<Rightarrow> Some (Inr (Inl (interrupt_cause hub_gone)), put_hub b s w)
     | (Some t, s) \<Rightarrow> Some (Inr (Inr \<lparr>subscribed_hub = b, subscription_token = t\<rparr>), put_hub b s w))"

definition unsubscribe_fx ::
  "('v, 'c, ('f, 'v, 'z) shared_scheme) host \<Rightarrow> subscription \<Rightarrow> ('v, 'c, ('f, 'v, 'z) shared_scheme, unit) fx" where
  "unsubscribe_fx h s = from_runtime h (\<lambda>_ w.
     Some (Inr (Inr ()), put_hub (subscribed_hub s) (unsubscribe (subscription_token s) (hub_heap w (subscribed_hub s))) w))"

definition scope_subscribe ::
  "('v, 'c, ('f, 'v, 'z) shared_scheme) host \<Rightarrow> ('v, 'c, ('f, 'v, 'z) shared_scheme, 'f) scope_host \<Rightarrow> nilable_err
     \<Rightarrow> nat \<Rightarrow> nat \<Rightarrow> (('v, 'c, ('f, 'v, 'z) shared_scheme) interp \<Rightarrow> subscription \<Rightarrow> 'f)
     \<Rightarrow> ('v, 'c, ('f, 'v, 'z) shared_scheme, subscription) fx" where
  "scope_subscribe h S hub_gone k b closure = acquire_release h S k (subscribe_fx h hub_gone b) closure"

definition publish_fx ::
  "('v, 'c, ('f, 'v, 'z) shared_scheme) host \<Rightarrow> ('c, ('f, 'v, 'z) shared_scheme) scheduler \<Rightarrow> nat \<Rightarrow> 'v
     \<Rightarrow> ('v, 'c, ('f, 'v, 'z) shared_scheme, bool) fx" where
  "publish_fx h park b v = interruptible h (hub_publish h park b v)"

definition subscription_take ::
  "('v, 'c, ('f, 'v, 'z) shared_scheme) host \<Rightarrow> ('c, ('f, 'v, 'z) shared_scheme) scheduler \<Rightarrow> subscription
     \<Rightarrow> ('v, 'c, ('f, 'v, 'z) shared_scheme, 'v option) fx" where
  "subscription_take h park s = take_fx h park (inbox_of s)"

definition subscription_take_available ::
  "('v, 'c, ('f, 'v, 'z) shared_scheme) host \<Rightarrow> subscription \<Rightarrow> int \<Rightarrow> ('v, 'c, ('f, 'v, 'z) shared_scheme, 'v list) fx" where
  "subscription_take_available h s limit = take_available_fx h (inbox_of s) limit"

definition subscription_take_up_to ::
  "('v, 'c, ('f, 'v, 'z) shared_scheme) host \<Rightarrow> ('c, ('f, 'v, 'z) shared_scheme) scheduler \<Rightarrow> (int \<Rightarrow> bool)
     \<Rightarrow> subscription \<Rightarrow> int \<Rightarrow> ('v, 'c, ('f, 'v, 'z) shared_scheme, 'v list) fx" where
  "subscription_take_up_to h park fits s limit = take_up_to_fx h park fits (inbox_of s) limit"

definition subscription_pending :: "subscription \<Rightarrow> ('f, 'v, 'z) shared_scheme \<Rightarrow> nat" where
  "subscription_pending s w = queue_size (queue_at (inbox_of s) w)"

subsection \<open>A take removes what it returns\<close>

lemma take_value_contents:
  assumes "queue_inv q" "take_value q = (r, q')"
  shows "case r of Took v \<Rightarrow> contents q = v # contents q'
    | TookNothing \<Rightarrow> contents q = [] \<and> contents q' = []
    | TakeParked i \<Rightarrow> contents q = [] \<and> contents q' = []"
proof (cases "contents q")
  case Nil
  then have "dequeue q = (None, q)" by (simp add: dequeue_None contents_def)
  then show ?thesis using assms(2) Nil by (auto simp: take_value_def contents_def split: if_splits)
next
  case (Cons v vs)
  then show ?thesis
    using dequeue_contents [of q v vs] assms by (auto simp: take_value_def queue_inv_def)
qed

lemma contents_kept:
  "value_received i q = Some (r, q') \<Longrightarrow> contents q' = contents q"
  "abandon_taker i q = (b, q') \<Longrightarrow> contents q' = contents q"
  by (auto simp: value_received_def abandon_taker_def contents_def split: received.splits prod.splits if_splits)

abbreviation queue_changes :: "('v list \<times> 'v list) set \<Rightarrow> queue_ref \<Rightarrow> ('f, 'v, 'z) shared_scheme \<Rightarrow> ('f, 'v, 'z) shared_scheme \<Rightarrow> bool" where
  "queue_changes C q w w' \<equiv>
     (queue_inv (queue_at q w) \<longrightarrow> queue_inv (queue_at q w')) \<and> (contents (queue_at q w), contents (queue_at q w')) \<in> C\<^sup>*"

lemma await_value_contents:
  assumes "others_keep h park (queue_changes C q)" "await_value park q i ctx w = Some ((v, stopped), w')"
  shows "(contents (queue_at q w), contents (queue_at q w')) \<in> C\<^sup>*"
proof -
  have woken: "(contents (queue_at q w), contents (queue_at q w1)) \<in> C\<^sup>*" if "park cond ctx' w = Some (b, w1)" for cond ctx' w b w1
    using others_keepD(1) [OF assms(1) that] by simp
  have received: "contents (queue_at q w2) = contents (queue_at q w1)" if "with_queue q (value_received i) w1 = Some (r, w2)" for r w1 w2
    using that by (auto simp: with_queue_def dest: contents_kept)
  from assms(2) obtain b w1 where p: "park (value_ready q i) (Some ctx) w = Some (b, w1)"
    by (auto simp: await_value_def split: option.splits)
  note here = woken [OF p]
  obtain abandoned s where ab: "abandon_taker i (queue_at q w1) = (abandoned, s)" by fastforce
  consider (ready) "b" | (left) "\<not> b" "abandoned" | (late) "\<not> b" "\<not> abandoned" by blast
  then show ?thesis
  proof cases
    case ready
    then show ?thesis using assms(2) p here by (auto simp: await_value_def dest: received)
  next
    case left
    then show ?thesis using assms(2) p here ab contents_kept(2) [OF ab] by (auto simp: await_value_def)
  next
    case late
    then obtain b2 w2 where p2: "park (value_ready q i) None w1 = Some (b2, w2)" "with_queue q (value_received i) w2 = Some ((v, stopped), w')"
      using assms(2) p ab by (auto simp: await_value_def split: option.splits)
    then show ?thesis using rtrancl_trans [OF here woken [OF p2(1)]] received [OF p2(2)] by simp
  qed
qed


text \<open>
  A batch larger than a slice can be: \<open>TakeUpTo\<close> has taken the first value by the time the allocation
  panics, so the value is gone from the queue and the caller gets a defect.
\<close>

lemma take_up_to_loses_value_when_too_large:
  assumes live: "ctx_err h (context_of I) w = ((None, reason), w)"
    and "queue_inv (queue_at q w)" "contents (queue_at q w) = v # vs" "1 \<le> limit" "\<not> fits limit"
  shows "\<exists>d w'. take_up_to_fx h park fits q limit I w = Some (Inl (die_cause d), w') \<and> contents (queue_at q w') = vs"
proof -
  obtain s where "take_value (queue_at q w) = (Took v, s)" "contents s = vs"
    using dequeue_contents [of "queue_at q w" v vs] assms(2,3) by (auto simp: take_value_def queue_inv_def)
  then show ?thesis
    using assms
    by (auto simp: take_up_to_fx_def interruptible_def queue_take_up_to_def queue_take_def from_runtime_def at_checkpoint_def
        machine_interrupt_def guarded_def capture_def)
qed

subsection \<open>Scoped queues and subscriptions\<close>

lemma scope_ops_keep [simp]:
  "queue_at q (put_scope k s w) = queue_at q w" "queue_at q (count_in_ledger f st w) = queue_at q w"
  "hub_heap (put_scope k s w) = hub_heap w" "hub_heap (count_in_ledger f st w) = hub_heap w"
  by (cases q; simp add: put_scope_def count_in_ledger_def split: option.split)+

text \<open>A resource whose release is one step that cannot fail: the step has been made when the scope is closed.\<close>

lemma scoped_leaf_release:
  fixes use :: "'a \<Rightarrow> ('v, 'c, ('f, 'v, 'z) shared_scheme, 'b) fx"
  assumes quiet: "\<not> has_observer (state_of I)"
    and opened: "new_scope_at h (context_of I) w = (k, w1)" "clock_now (services (state_of I)) w1 = (start, w2)"
    and inside: "I' = I\<lparr>context_of := child_context S (context_of I) k, state_of := with_scope k (state_of I)\<rparr>"
    and acquired: "acquire I' w2 = Some (Inr a, w3)"
    and fresh: "status (scope_in k w3) = ScopeOpen" "finalizers (scope_in k w3) = []"
    and f: "perform S (closure I' a) = release_closure I' (pure (\<lambda>a. from_runtime h (\<lambda>_ w. Some (Inr (Inr ()), g a w)))) a"
    and u: "use a I' (holding k (closure I' a) (state_of I') w3) = Some (x, w4)"
    and s: "status (scope_in k w4) = ScopeOpen" "finalizers (scope_in k w4) = [closure I' a]"
    and j: "children_wait S k (closing_world S k (erase_exit any_of x) w4) = Some w5"
    and detached: "\<And>w. ctx_err h (without_cancel h (context_of I')) w = ((None, None), w)"
    and w8: "w8 = count_in_ledger record_release (state_of I') (g a w5)"
  shows "scoped h S any_of (\<lambda>k w. Some (Inr (flat_map h (acquire_release h S k acquire closure) (pure use)), w)) I w =
    Some (x, put_scope k ((scope_in k w8)\<lparr>status := ScopeClosed\<rparr>) w8)"
proof -
  let ?fin = "from_runtime h (\<lambda>_ w. Some (Inr (Inr ()), g a w)) :: ('v, 'c, ('f, 'v, 'z) shared_scheme, unit) fx"
  let ?program = "\<lambda>k w. Some (Inr (flat_map h (acquire_release h S k acquire closure) (pure use)), w)"
  have p: "suspend_runtime h (\<lambda>_. ?program k) I' w2 = flat_map h (acquire_release h S k acquire closure) (pure use) I' w2"
    by (simp add: fx_defs capture_def)
  have fin: "?fin (I'\<lparr>context_of := without_cancel h (context_of I')\<rparr>) w5 = Some (Inr (), g a w5)"
    by (simp add: fx_defs machine_interrupt_def capture_def detached)
  have r: "pure (\<lambda>a. from_runtime h (\<lambda>_ w. Some (Inr (Inr ()), g a w))) a w5 = Some (Inr ?fin, w5)" by simp
  show ?thesis
    using scoped_bracket [where use = use and program = ?program and closure = closure and acquire = acquire and any_of = any_of,
        OF quiet opened inside acquired fresh p f u s j r fin w8]
    by simp
qed


text \<open>
  A queue created in a scope is shut down when the scope has closed, whatever the outcome of the
  work in it and whatever the work did to the queue: nobody is left waiting on it, and what it held can
  still be drained.
\<close>

theorem scoped_queue_is_shut_down:
  fixes use :: "queue_ref \<Rightarrow> ('v, 'c, ('f, 'v, 'z) shared_scheme, 'b) fx"
  assumes quiet: "\<not> has_observer (state_of I)"
    and opened: "new_scope_at h (context_of I) w = (k, w1)" "clock_now (services (state_of I)) w1 = (start, w2)"
    and inside: "I' = I\<lparr>context_of := child_context S (context_of I) k, state_of := with_scope k (state_of I)\<rparr>"
    and acquired: "new_queue_fx h cap when_full I' w2 = Some (Inr q, w3)"
    and fresh: "status (scope_in k w3) = ScopeOpen" "finalizers (scope_in k w3) = []"
    and f: "perform S (closure I' q) = release_closure I' (queue_release h) q"
    and u: "use q I' (holding k (closure I' q) (state_of I') w3) = Some (x, w4)"
    and s: "status (scope_in k w4) = ScopeOpen" "finalizers (scope_in k w4) = [closure I' q]"
    and j: "children_wait S k (closing_world S k (erase_exit any_of x) w4) = Some w5"
    and detached: "\<And>w. ctx_err h (without_cancel h (context_of I')) w = ((None, None), w)"
    and inv: "queue_inv (queue_at q w5)"
  shows "\<exists>w'. scoped h S any_of
        (\<lambda>k w. Some (Inr (flat_map h (scope_queue h S k cap when_full closure) (pure use)), w)) I w = Some (x, w')
      \<and> queue_inv (queue_at q w') \<and> closed (queue_at q w') \<and> takers (queue_at q w') = [] \<and> offerers (queue_at q w') = []
      \<and> items (queue_at q w') = items (queue_at q w5) \<and> status (scope_in k w') = ScopeClosed"
proof -
  let ?g = "\<lambda>q w. put_queue_at q (shutdown (queue_at q w)) w"
  have release: "queue_release h = pure (\<lambda>q. from_runtime h (\<lambda>_ w. Some (Inr (Inr ()), ?g q w)))"
    by (simp add: queue_release_def shutdown_fx_def fun_eq_iff)
  let ?w8 = "count_in_ledger record_release (state_of I') (?g q w5)"
  let ?w' = "put_scope k ((scope_in k ?w8)\<lparr>status := ScopeClosed\<rparr>) ?w8"
  have "scoped h S any_of (\<lambda>k w. Some (Inr (flat_map h (scope_queue h S k cap when_full closure) (pure use)), w)) I w
      = Some (x, ?w')"
    unfolding scope_queue_def acquire_queue_def
    by (rule scoped_leaf_release [where use = use and g = ?g and any_of = any_of and a = q and closure = closure
          and acquire = "new_queue_fx h cap when_full", OF quiet opened inside acquired fresh f [unfolded release] u s j detached refl])
  moreover have "queue_inv (shutdown (queue_at q w5)) \<and> closed (shutdown (queue_at q w5))
      \<and> items (shutdown (queue_at q w5)) = items (queue_at q w5)"
    by (rule shutdown_inv [OF inv])
  moreover from this have "takers (shutdown (queue_at q w5)) = [] \<and> offerers (shutdown (queue_at q w5)) = []"
    by (auto simp: queue_inv_def shaped_def)
  ultimately show ?thesis by (intro exI [of _ ?w']) simp
qed

text \<open>A scope whose body offers one value to its queue and fails.\<close>

definition queue_interp :: "(string, bool, (string, string) shared) interp" where
  "queue_interp = live_interp\<lparr>context_of := False, state_of := with_scope 1 (state_of live_interp)\<rparr>"

definition queue_scopes :: "(string, bool, (string, string) shared, string) scope_host" where
  "queue_scopes = \<lparr>child_context = (\<lambda>c _. c), perform = (\<lambda>_. release_closure queue_interp (queue_release live_host) (QueueAt 0)),
     children_wait = (\<lambda>_ w. Some w), scope_closed = None\<rparr>"

definition scope_world :: "(string, string) shared" where
  "scope_world = counter_world\<lparr>next_scope := 2\<rparr>"

definition queue_world :: "(string, string) shared" where
  "queue_world = put_queue_at (QueueAt 0) (new_queue 1 BackPressure) (scope_world\<lparr>next_queue := 1\<rparr>)"

definition offered_world :: "(string, string) shared" where
  "offered_world = (let w = holding 1 ''shutdown'' (state_of queue_interp) queue_world in
     put_queue_at (QueueAt 0) ((new_queue 1 BackPressure)\<lparr>items := [''a'']\<rparr>) w)"

definition offer_and_fail :: "queue_ref \<Rightarrow> (string, bool, (string, string) shared, unit) fx" where
  "offer_and_fail q = and_then live_host (offer_fx live_host alone q ''a'') (fail_at live_host [] ''lost'')"

lemma queue_entry:
  "\<not> has_observer (state_of (live_interp :: (string, bool, (string, string) shared) interp))"
  "new_scope_at live_host (context_of live_interp) counter_world = (1, scope_world)"
  "clock_now (services (state_of live_interp)) scope_world = (0, scope_world)"
  "queue_interp = live_interp\<lparr>context_of := child_context queue_scopes (context_of live_interp) 1,
     state_of := with_scope 1 (state_of live_interp)\<rparr>"
  "new_queue_fx live_host 1 0 queue_interp scope_world = Some (Inr (QueueAt 0), queue_world)"
  "status (scope_in 1 queue_world) = ScopeOpen" "finalizers (scope_in 1 queue_world) = []"
  by (simp_all add: live_interp_def live_host_def new_state_def has_observer_def queue_scopes_def queue_interp_def
      new_scope_at_def counter_world_def scope_world_def queue_world_def fun_eq_iff new_queue_fx_def fx_defs
      machine_interrupt_def capture_def allocate_queue_def full_queue_policy_of_def new_scope_def)

lemma queue_offered:
  "offer_fx live_host alone (QueueAt 0) ''a'' queue_interp (holding 1 ''shutdown'' (state_of queue_interp) queue_world)
     = Some (Inr True, offered_world)"
proof -
  let ?w = "holding 1 ''shutdown'' (state_of queue_interp) queue_world"
  have "queue_at (QueueAt 0) ?w = queue_at (QueueAt 0) queue_world"
    unfolding holding_def by (simp only: scope_ops_keep)
  then have q: "queue_heap ?w 0 = new_queue 1 BackPressure" by (simp add: queue_world_def)
  have "offer ''a'' (new_queue 1 BackPressure) = (OfferReturned True False, (new_queue 1 BackPressure)\<lparr>items := [''a'']\<rparr>)"
    by (simp add: offer_def new_queue_def hand_off_def enqueue_def)
  then have o: "queue_offer live_host alone (QueueAt 0) ''a'' ctx ?w = Some (Inr (True, False), offered_world)" for ctx
    unfolding queue_offer_def offered_world_def Let_def queue_at.simps q by simp
  have "ctx_err live_host (context_of queue_interp) ?w = ((None, None), ?w)"
    by (simp add: live_host_def queue_interp_def)
  then show ?thesis
    unfolding offer_fx_def interruptible_def by (rule from_runtime_live) (simp add: o del: One_nat_def)
qed

lemma queue_use:
  "offer_and_fail (QueueAt 0) queue_interp (holding 1 ''shutdown'' (state_of queue_interp) queue_world)
     = Some (Inl (fail_cause ''lost''), offered_world)"
  "status (scope_in 1 offered_world) = ScopeOpen" "finalizers (scope_in 1 offered_world) = [''shutdown'']"
proof -
  have "fail_at live_host [] ''lost'' queue_interp offered_world = Some (Inl (fail_cause ''lost'') :: string cause + unit, offered_world)"
    by (simp add: fail_at_def fx_defs machine_interrupt_def live_host_def queue_interp_def live_interp_def new_state_def
        with_scope_def no_metadata_def outcome_defs fill_from_def no_origin_def)
  then show "offer_and_fail (QueueAt 0) queue_interp (holding 1 ''shutdown'' (state_of queue_interp) queue_world)
     = Some (Inl (fail_cause ''lost''), offered_world)"
    by (simp add: offer_and_fail_def and_then_def flat_map_def queue_offered guarded_def capture_def del: One_nat_def)
  show "status (scope_in 1 offered_world) = ScopeOpen" "finalizers (scope_in 1 offered_world) = [''shutdown'']"
    using queue_entry(6,7) by (simp_all add: offered_world_def Let_def holding_def)
qed

theorem scoped_queue_is_shut_down_witness:
  "\<exists>w'. scoped live_host queue_scopes (\<lambda>_. []) (\<lambda>k w. Some (Inr (flat_map live_host
        (scope_queue live_host queue_scopes k 1 0 (\<lambda>_ _. ''shutdown'')) (pure offer_and_fail)), w)) live_interp counter_world
      = Some (Inl (fail_cause ''lost''), w')
    \<and> closed (queue_heap w' 0) \<and> items (queue_heap w' 0) = [''a'']"
proof -
  let ?w5 = "closing_world queue_scopes 1 (erase_exit (\<lambda>_. []) (Inl (fail_cause ''lost'') :: string cause + unit)) offered_world"
  have j: "children_wait queue_scopes 1 ?w5 = Some ?w5"
    and f: "perform queue_scopes ''shutdown'' = release_closure queue_interp (queue_release live_host) (QueueAt 0)"
    by (simp_all add: queue_scopes_def)
  have q: "queue_at (QueueAt 0) ?w5 = (new_queue 1 BackPressure)\<lparr>items := [''a'']\<rparr>"
    by (simp add: closing_world_def put_close_exit_def put_scope_def offered_world_def Let_def)
  have inv: "queue_inv (queue_at (QueueAt 0) ?w5)"
    unfolding q by (simp add: new_queue_def queue_inv_def shaped_def waiting_def)
  have "\<And>w. ctx_err live_host (without_cancel live_host (context_of queue_interp)) w = ((None, None), w)"
    by (simp add: live_host_def)
  from scoped_queue_is_shut_down [where use = offer_and_fail and any_of = "\<lambda>_. []" and closure = "\<lambda>_ _. ''shutdown''",
      OF queue_entry f queue_use j this inv]
  show ?thesis using q by auto
qed

text \<open>Likewise a subscription made in a scope: the hub no longer delivers to it once the scope is closed.\<close>

lemma scoped_subscription_ends:
  fixes use :: "subscription \<Rightarrow> ('v, 'c, ('f, 'v, 'z) shared_scheme, 'b) fx"
  assumes quiet: "\<not> has_observer (state_of I)"
    and opened: "new_scope_at h (context_of I) w = (k, w1)" "clock_now (services (state_of I)) w1 = (start, w2)"
    and inside: "I' = I\<lparr>context_of := child_context S (context_of I) k, state_of := with_scope k (state_of I)\<rparr>"
    and acquired: "subscribe_fx h hub_gone b I' w2 = Some (Inr sub, w3)"
    and fresh: "status (scope_in k w3) = ScopeOpen" "finalizers (scope_in k w3) = []"
    and f: "perform S (closure I' sub) = release_closure I' (pure (unsubscribe_fx h)) sub"
    and u: "use sub I' (holding k (closure I' sub) (state_of I') w3) = Some (x, w4)"
    and s: "status (scope_in k w4) = ScopeOpen" "finalizers (scope_in k w4) = [closure I' sub]"
    and j: "children_wait S k (closing_world S k (erase_exit any_of x) w4) = Some w5"
    and detached: "\<And>w. ctx_err h (without_cancel h (context_of I')) w = ((None, None), w)"
  shows "\<exists>w'. scoped h S any_of
        (\<lambda>k w. Some (Inr (flat_map h (scope_subscribe h S hub_gone k b closure) (pure use)), w)) I w = Some (x, w')
      \<and> subscription_token sub \<notin> inboxes (hub_heap w' (subscribed_hub sub))
      \<and> (subscription_token sub \<in> inboxes (hub_heap w5 (subscribed_hub sub)) \<longrightarrow> closed (queue_at (inbox_of sub) w'))"
proof -
  let ?g = "\<lambda>s w. put_hub (subscribed_hub s) (unsubscribe (subscription_token s) (hub_heap w (subscribed_hub s))) w"
  let ?w8 = "count_in_ledger record_release (state_of I') (?g sub w5)"
  let ?w' = "put_scope k ((scope_in k ?w8)\<lparr>status := ScopeClosed\<rparr>) ?w8"
  have "scoped h S any_of (\<lambda>k w. Some (Inr (flat_map h (scope_subscribe h S hub_gone k b closure) (pure use)), w)) I w
      = Some (x, ?w')"
    unfolding scope_subscribe_def
    by (rule scoped_leaf_release [where use = use and g = ?g and any_of = any_of and a = sub and closure = closure
          and acquire = "subscribe_fx h hub_gone b", OF quiet opened inside acquired fresh f [unfolded unsubscribe_fx_def] u s j detached refl])
  then show ?thesis
    by (intro exI [of _ ?w'])
       (simp add: unsubscribe_def Let_def put_hub_def inbox_of_def inbox.close_ends)
qed

end
