(* ===== verification/Typed_Programs.thy ===== *)
theory Typed_Programs
  imports Interpreter
begin

section \<open>Typed programs\<close>

text \<open>
  \<^verbatim>\<open>effect/erasure.go\<close>: the boundary between \<open>Effect[R, E, A]\<close> and the erased instructions it is
  compiled to. The interpreter moves values of type \<^verbatim>\<open>any\<close>, and each typed callback recovers its
  argument with a type assertion that answers the zero value when the assertion fails. A Go type is
  the set of erased values that pass its assertion; \<open>typed R E A n\<close> is what the type checker knows of the
  instructions of an \<open>Effect[R, E, A]\<close>: given an environment in \<open>R\<close>, they end with a value in \<open>A\<close> or with
  failures in \<open>E\<close>.

  Programs need not be well-founded, so the judgement is coinductive. It is Go's, with one premise the Go
  type checker does not have: where a recovery or an exit hook narrows the failure channel, its
  callback must not panic. A handler's panic is appended to the cause it was handling, whose failures are
  of the old channel; \<open>panicking_handler_leaks_failures\<close> shows what happens without that premise.
\<close>

subsection \<open>The erasing wrappers\<close>

definition unerase :: "'v set \<Rightarrow> 'v \<Rightarrow> 'v \<Rightarrow> 'v" where
  "unerase T zero v = (if v \<in> T then v else zero)"

definition as_environment :: "'v set \<Rightarrow> 'v \<Rightarrow> 'v \<Rightarrow> 'v" where
  "as_environment R zero v = unerase R zero v"

definition as_value :: "'v set \<Rightarrow> 'v \<Rightarrow> 'v \<Rightarrow> 'v" where
  "as_value A zero v = unerase A zero v"

definition as_failure :: "'v set \<Rightarrow> 'v \<Rightarrow> 'v \<Rightarrow> 'v" where
  "as_failure E zero v = unerase E zero v"

definition erase_transform :: "'v set \<Rightarrow> 'v \<Rightarrow> ('v \<Rightarrow> ('v, 'w, 'v) callback) \<Rightarrow> 'v \<Rightarrow> ('v, 'w, 'v) callback" where
  "erase_transform A zero transform v = transform (as_value A zero v)"

definition erase_continuation ::
  "'v set \<Rightarrow> 'v \<Rightarrow> ('v \<Rightarrow> ('v, 'w, ('v, 'c, 'w) node) callback) \<Rightarrow> 'v \<Rightarrow> ('v, 'w, ('v, 'c, 'w) node) callback" where
  "erase_continuation A zero continue_with v = continue_with (as_value A zero v)"

definition erase_adapter :: "'v set \<Rightarrow> 'v \<Rightarrow> ('v \<Rightarrow> ('v, 'w, 'v) callback) \<Rightarrow> 'v \<Rightarrow> ('v, 'w, 'v) callback" where
  "erase_adapter R zero adapt env = adapt (as_environment R zero env)"

definition erase_failure_transform :: "'v set \<Rightarrow> 'v \<Rightarrow> ('v \<Rightarrow> 'v) \<Rightarrow> 'v cause \<Rightarrow> ('v, 'w, 'v cause) callback" where
  "erase_failure_transform E zero transform c w =
     Some (Inr (map_cause_failure (\<lambda>e. transform (as_failure E zero e)) c), w)"

definition erase_eval ::
  "'v set \<Rightarrow> 'v \<Rightarrow> ('c \<Rightarrow> ('c, 'w) state \<Rightarrow> 'v \<Rightarrow> ('v, 'w, 'v exit) callback)
     \<Rightarrow> ('v, 'c, 'w) interp \<Rightarrow> ('v, 'w, 'v exit) callback" where
  "erase_eval R zero eval I = eval (context_of I) (state_of I) (as_environment R zero (environment I))"

definition erase_creation ::
  "'v set \<Rightarrow> 'v \<Rightarrow> ('c \<Rightarrow> ('c, 'w) state \<Rightarrow> 'v \<Rightarrow> ('v, 'w, ('v, 'c, 'w) node) callback)
     \<Rightarrow> ('v, 'c, 'w) interp \<Rightarrow> ('v, 'w, ('v, 'c, 'w) node) callback" where
  "erase_creation R zero create I = create (context_of I) (state_of I) (as_environment R zero (environment I))"

text \<open>The zero \<open>Effect\<close> has no instructions; running it panics.\<close>

definition no_instructions :: "('v, 'c, 'w) host \<Rightarrow> ('v, 'c, 'w) interp \<Rightarrow> ('v, 'w, 'v exit) callback" where
  "no_instructions h I w = Some (Inl (string_value h ''effect: zero Effect has no instructions''), w)"

definition instructions :: "('v, 'c, 'w) host \<Rightarrow> ('v, 'c, 'w) node option \<Rightarrow> ('v, 'c, 'w) node" where
  "instructions h fx = (case fx of None \<Rightarrow> Eval (no_instructions h) | Some n \<Rightarrow> n)"

subsection \<open>The judgement\<close>

definition cause_in :: "'v set \<Rightarrow> 'v cause \<Rightarrow> bool" where
  "cause_in E c \<longleftrightarrow> proper c \<and> set (failures c) \<subseteq> E"

fun exit_in :: "'v set \<Rightarrow> 'v set \<Rightarrow> 'v exit \<Rightarrow> bool" where
  "exit_in E A (Failed c) \<longleftrightarrow> cause_in E c"
| "exit_in E A (Succeeded v) \<longleftrightarrow> v \<in> A"

coinductive typed :: "'v set \<Rightarrow> 'v set \<Rightarrow> 'v set \<Rightarrow> ('v, 'c, 'w) node \<Rightarrow> bool" where
  succeeds: "v \<in> A \<Longrightarrow> typed R E A (Succeed v)"
| fails: "cause_in E c \<Longrightarrow> typed R E A (FailNode c)"
| evals: "(\<And>I w x w'. environment I \<in> R \<Longrightarrow> f I w = Some (Inr x, w') \<Longrightarrow> exit_in E A x) \<Longrightarrow> typed R E A (Eval f)"
| suspends: "(\<And>I w n w'. environment I \<in> R \<Longrightarrow> create I w = Some (Inr n, w') \<Longrightarrow> typed R E A n) \<Longrightarrow>
    typed R E A (Suspend create)"
| transforms: "typed R E A s \<Longrightarrow> (\<And>v w b w'. v \<in> A \<Longrightarrow> f v w = Some (Inr b, w') \<Longrightarrow> b \<in> B) \<Longrightarrow>
    typed R E B (Transform s f)"
| binds: "typed R E A s \<Longrightarrow> (\<And>v w n w'. v \<in> A \<Longrightarrow> k v w = Some (Inr n, w') \<Longrightarrow> typed R E B n) \<Longrightarrow>
    typed R E B (Bind s k)"
| maps_cause: "typed R E A s \<Longrightarrow>
    (\<And>c w d w'. cause_in E c \<Longrightarrow> f c w = Some (Inr d, w') \<Longrightarrow> cause_in E2 d) \<Longrightarrow> typed R E2 A (TransformCause s f)"
| recovers: "typed R E A s \<Longrightarrow>
    (\<And>c w n w'. cause_in E c \<Longrightarrow> k c w = Some (Inr n, w') \<Longrightarrow> typed R E2 A n) \<Longrightarrow>
    E \<subseteq> E2 \<or> (\<forall>c w p w'. k c w \<noteq> Some (Inl p, w')) \<Longrightarrow> typed R E2 A (Recover s k)"
| adapts: "typed R2 E A s \<Longrightarrow> (\<And>e w e' w'. e \<in> R \<Longrightarrow> f e w = Some (Inr e', w') \<Longrightarrow> e' \<in> R2) \<Longrightarrow>
    typed R E A (WithEnvironment s f)"
| changes_state: "typed R E A s \<Longrightarrow> typed R E A (WithState s st)"
| changes_context: "typed R E A s \<Longrightarrow> typed R E A (WithContext s ct)"
| hooks: "typed R E A s \<Longrightarrow>
    (\<And>I x w y w'. environment I \<in> R \<Longrightarrow> exit_in E A x \<Longrightarrow> f I x w = Some (Inr y, w') \<Longrightarrow> exit_in E2 B y) \<Longrightarrow>
    E \<subseteq> E2 \<or> (\<forall>I x w p w'. f I x w \<noteq> Some (Inl p, w')) \<Longrightarrow> typed R E2 B (OnExit s f)"
| unsupported: "typed R E A (OtherNode t)"

inductive_simps typed_simps:
  "typed R E A (Succeed v)"
  "typed R E A (FailNode c)"
  "typed R E A (Eval f)"
  "typed R E A (Suspend create)"
  "typed R E A (Transform s g)"
  "typed R E A (Bind s k)"
  "typed R E A (TransformCause s d)"
  "typed R E A (Recover s r)"
  "typed R E A (WithEnvironment s a)"
  "typed R E A (WithState s st)"
  "typed R E A (WithContext s ct)"
  "typed R E A (OnExit s ob)"

subsection \<open>Causes in a channel\<close>

lemma cause_in_simps [simp]:
  "cause_in E Empty" "cause_in E (interrupt_cause r)" "cause_in E (die_cause d)"
  "cause_in E (fail_cause e) \<longleftrightarrow> e \<in> E"
  by (simp_all add: cause_in_def interrupt_cause_def die_cause_def fail_cause_def List.map_filter_simps)

lemma cause_in_then [simp]: "cause_in E c \<Longrightarrow> cause_in E d \<Longrightarrow> cause_in E (then_cause c d)"
  by (auto simp: cause_in_def List.map_filter_def)

lemma failure_of_with_origin: "failure_of (with_origin c o') = failure_of c"
  by (cases c) simp_all

lemma failures_with_origin: "List.map_filter failure_of (map (\<lambda>l. with_origin l o') ls) = List.map_filter failure_of ls"
  by (induction ls) (simp_all add: List.map_filter_simps failure_of_with_origin split: option.split)

lemma cause_in_with_origin [simp]: "cause_in E (with_origin c o') \<longleftrightarrow> cause_in E c"
  by (simp add: cause_in_def leaves_with_origin failures_with_origin)

lemma exit_in_die [simp]: "exit_in E A (Failed (die_cause d))"
  by simp

lemma cause_in_mono: "cause_in E c \<Longrightarrow> E \<subseteq> E2 \<Longrightarrow> cause_in E2 c"
  by (auto simp: cause_in_def)

subsection \<open>Running a typed program\<close>

lemma settle_typed:
  assumes "settle h I n w = Some (x, w')" "typed R E A n" "\<not> composed n" "environment I \<in> R"
  shows "exit_in E A x"
proof -
  obtain r w1 where c: "machine_interrupt h (context_of I) w = (r, w1)" by fastforce
  show ?thesis
  proof (cases r)
    case (Some cause)
    then obtain reason where "cause = interrupt_cause reason"
      using c by (auto simp: machine_interrupt_def split: prod.splits option.splits)
    then show ?thesis using assms(1) c Some by (auto simp: settle_def)
  next
    case None
    show ?thesis
    proof (cases n)
      case (Eval f)
      then show ?thesis
        using assms c None
        by (auto simp: settle_def typed_simps eval_leaf_def capture_exit_def capture_def split: option.splits sum.splits prod.splits)
    qed (use assms c None in \<open>auto simp: settle_def typed_simps\<close>)
  qed
qed

lemma map_sum_eq [simp]:
  "map_sum id g z = Inr y \<longleftrightarrow> (\<exists>b. z = Inr b \<and> y = g b)" "map_sum id g z = Inl p \<longleftrightarrow> z = Inl p"
  by (cases z; auto)+

lemma captured:
  "capture h r = Some (Inr a, w) \<longleftrightarrow> r = Some (Inr a, w)"
  "capture h r = Some (Inl d, w) \<Longrightarrow> \<exists>p. r = Some (Inl p, w)"
  by (auto simp: capture_def split: option.splits sum.splits prod.splits)

lemma executes_typed:
  "executes h I n w x w' \<Longrightarrow> typed R E A n \<Longrightarrow> environment I \<in> R \<Longrightarrow> exit_in E A x"
proof (induction arbitrary: R E A rule: executes.induct)
  case (leaf n I w x w')
  then show ?case by (blast intro: settle_typed)
next
  case (transform I s w x w1 f y w2)
  from transform.prems(1) obtain A' where s: "typed R E A' s"
    and f: "\<And>v w b w'. v \<in> A' \<Longrightarrow> f v w = Some (Inr b, w') \<Longrightarrow> b \<in> A"
    by (cases rule: typed.cases) auto
  have "exit_in E A' x" by (rule transform.IH [OF s transform.prems(2)])
  then show ?case
    using transform.hyps f
    by (cases x) (auto simp: on_success_def transform_exit_def capture_exit_def capture_def
        split: option.splits sum.splits prod.splits)
next
  case (transform_failure I s w x w1 f y w2)
  from transform_failure.prems(1) obtain E' where s: "typed R E' A s"
    and f: "\<And>c w d w'. cause_in E' c \<Longrightarrow> f c w = Some (Inr d, w') \<Longrightarrow> cause_in E d"
    by (cases rule: typed.cases) auto
  have "exit_in E' A x" by (rule transform_failure.IH [OF s transform_failure.prems(2)])
  then show ?case
    using transform_failure.hyps f
    by (cases x) (auto simp: on_failure_def transform_cause_def capture_exit_def capture_def
        split: option.splits sum.splits prod.splits)
next
  case (hook I s w x w1 f y w2)
  from hook.prems(1) obtain E' A' where s: "typed R E' A' s"
    and f: "\<And>I x w y w'. environment I \<in> R \<Longrightarrow> exit_in E' A' x \<Longrightarrow> f I x w = Some (Inr y, w') \<Longrightarrow> exit_in E A y"
    and p: "E' \<subseteq> E \<or> (\<forall>I x w p w'. f I x w \<noteq> Some (Inl p, w'))"
    by (cases rule: typed.cases) auto
  have x: "exit_in E' A' x" by (rule hook.IH [OF s hook.prems(2)])
  show ?case
  proof (cases "\<exists>p w3. f I x w1 = Some (Inl p, w3)")
    case True
    then have "cause_in E (exit_cause x)" using p x by (cases x) (auto intro: cause_in_mono)
    then show ?thesis using True hook.hyps by (auto simp: observe_exit_def capture_def)
  next
    case False
    then show ?thesis using hook.hyps f [OF hook.prems(2) x]
      by (auto simp: observe_exit_def capture_def split: option.splits sum.splits prod.splits)
  qed
next
  case (bind_continued I s w v w1 k n w2 x w3)
  then show ?case by (fastforce simp: typed_simps captured)
next
  case (recover_panicked I s w c w1 k d w2)
  from recover_panicked.prems(1) obtain E' where s: "typed R E' A s"
    and p: "E' \<subseteq> E \<or> (\<forall>c w p w'. k c w \<noteq> Some (Inl p, w'))"
    by (cases rule: typed.cases) auto
  have "exit_in E' A (Failed c)" by (rule recover_panicked.IH [OF s recover_panicked.prems(2)])
  moreover have "E' \<subseteq> E" using p captured(2) [OF recover_panicked.hyps(2)] by blast
  ultimately have "cause_in E c" using cause_in_mono by auto
  then show ?case by simp
next
  case (recover_continued I s w c w1 k n w2 x w3)
  then show ?case by (fastforce simp: typed_simps captured)
next
  case (environment_given f I w e w1 s x w2)
  then show ?case by (fastforce simp: typed_simps captured)
next
  case (suspend_created create I w n w1 x w2)
  then show ?case by (fastforce simp: typed_simps captured)
qed (fastforce simp: typed_simps captured)+


definition small_host :: "(string, bool, unit) host" where
  "small_host = \<lparr>ctx_err = (\<lambda>cancelled w. ((if cancelled then Some (GoErr 0 ''cancelled'' []) else None, None), w)),
     stack_trace = (\<lambda>_. []), error_value = (\<lambda>t. t), string_value = (\<lambda>t. t), without_cancel = (\<lambda>_. False)\<rparr>"

definition small_interp :: "(string, bool, unit) interp" where
  "small_interp = \<lparr>context_of = False,
     state_of = fst (new_state \<lparr>clock_now = (\<lambda>w. (0, w)), clock_sleep = (\<lambda>_ _ w. Some (None, w)),
       observer = None, diagnostics = None, config_source = None\<rparr> 0 None),
     environment = ''env''\<rparr>"

text \<open>A failure of one channel, recovered into a value of another program.\<close>

definition recovered_program :: "(string, bool, unit) node" where
  "recovered_program = Recover (FailNode (fail_cause ''lost''))
     (\<lambda>c w. Some (Inr (Succeed (if failures c = [''lost''] then ''found'' else ''odd'')), w))"

lemma recovered_program_typed: "typed {''env''} {} {''found'', ''odd''} recovered_program"
proof -
  have "typed {''env''} {''lost''} {''found'', ''odd''} (FailNode (fail_cause ''lost'') :: (string, bool, unit) node)"
    by (simp add: typed_simps)
  then show ?thesis
    unfolding recovered_program_def by (rule recovers) (auto simp: typed_simps)
qed


text \<open>So no erased callback of a typed source is ever given the zero value of a failed assertion.\<close>

lemma run_congruence:
  assumes "typed R E A s" "environment I \<in> R"
  shows "(\<And>v w. v \<in> A \<Longrightarrow> f v w = g v w) \<Longrightarrow>
      executes h I (Transform s f) w x w' \<longleftrightarrow> executes h I (Transform s g) w x w'"
    and "(\<And>v w. v \<in> A \<Longrightarrow> k v w = l v w) \<Longrightarrow>
      executes h I (Bind s k) w x w' \<longleftrightarrow> executes h I (Bind s l) w x w'"
proof -
  have v: "v \<in> A" if "executes h I s w (Succeeded v) w1" for v w w1
    using executes_typed [OF that assms] by simp
  show "executes h I (Transform s f) w x w' \<longleftrightarrow> executes h I (Transform s g) w x w'"
    if "\<And>v w. v \<in> A \<Longrightarrow> f v w = g v w"
  proof -
    have "on_success (transform_exit h f) y w1 = on_success (transform_exit h g) y w1" if "executes h I s w y w1" for y w1
      using v that \<open>\<And>v w. v \<in> A \<Longrightarrow> f v w = g v w\<close>
      by (cases y) (simp_all add: on_success_def transform_exit_def)
    then show ?thesis unfolding executes_simps by metis
  qed
  show "executes h I (Bind s k) w x w' \<longleftrightarrow> executes h I (Bind s l) w x w'"
    if "\<And>v w. v \<in> A \<Longrightarrow> k v w = l v w"
  proof -
    have "executes_bind h I k y w1 x w' = executes_bind h I l y w1 x w'" if "executes h I s w y w1" for y w1
      using v that \<open>\<And>v w. v \<in> A \<Longrightarrow> k v w = l v w\<close> by (cases y) (simp_all add: executes_bind_def)
    then show ?thesis unfolding executes_Bind by metis
  qed
qed

lemma erasure_is_invisible:
  assumes "typed R E A s" "environment I \<in> R"
  shows "executes h I (Transform s (erase_transform A zero f)) w x w' \<longleftrightarrow> executes h I (Transform s f) w x w'"
    and "executes h I (Bind s (erase_continuation A zero k)) w x w' \<longleftrightarrow> executes h I (Bind s k) w x w'"
    and "executes h I (WithEnvironment s (erase_adapter R zero g)) w x w' \<longleftrightarrow> executes h I (WithEnvironment s g) w x w'"
proof -
  show "executes h I (Transform s (erase_transform A zero f)) w x w' \<longleftrightarrow> executes h I (Transform s f) w x w'"
    by (rule run_congruence(1) [OF assms]) (simp add: erase_transform_def as_value_def unerase_def)
  show "executes h I (Bind s (erase_continuation A zero k)) w x w' \<longleftrightarrow> executes h I (Bind s k) w x w'"
    by (rule run_congruence(2) [OF assms]) (simp add: erase_continuation_def as_value_def unerase_def)
  have "erase_adapter R zero g (environment I) = g (environment I)"
    using assms(2) by (simp add: erase_adapter_def as_environment_def unerase_def)
  then show "executes h I (WithEnvironment s (erase_adapter R zero g)) w x w' \<longleftrightarrow> executes h I (WithEnvironment s g) w x w'"
    unfolding executes_simps by simp
qed

text \<open>
  The premise on panics is needed. A handler that panics while it translates failures of type
  \<open>E\<close> into an effect that has none leaves an effect that fails with one; the next assertion turns it into
  a zero value of the wrong channel.
\<close>

lemma panicking_handler_leaks_failures:
  assumes "ctx_err h (context_of I) w = ((None, reason), w)" "handle = (\<lambda>c w. Some (Inl p, w))"
  shows "\<exists>c. interpret_node h I (Recover (FailNode (fail_cause e)) handle) w = Some (Failed c, w) \<and> failures c = [e]
    \<and> \<not> exit_in {} A (Failed c)"
proof -
  let ?fail = "with_origin (fail_cause e) \<lparr>source = [], operation = operation_name (meta (state_of I))\<rparr>"
  let ?d = "capture_defect p (stack_trace h w)"
  have "executes h I (FailNode (fail_cause e)) w (Failed ?fail) w"
    using assms(1) by (simp add: executes_simps settle_def machine_interrupt_def)
  moreover have "capture h (handle ?fail w) = Some (Inl ?d, w)" by (simp add: assms(2) capture_def)
  ultimately have "executes h I (Recover (FailNode (fail_cause e)) handle) w (Failed (then_cause ?fail (die_cause ?d))) w"
    by (rule recover_panicked)
  moreover have "failures (then_cause ?fail (die_cause ?d)) = [e]"
    by (simp add: fail_cause_def die_cause_def List.map_filter_simps)
  ultimately show ?thesis by (auto simp: interpret_executes cause_in_def simp del: collectors)
qed

end
