(* ===== verification/Manual_Clock.thy ===== *)
theory Manual_Clock
  imports Prelude
begin

section \<open>The manual clock\<close>

text \<open>
  \<^verbatim>\<open>effecttest/clock.go\<close>: the clock that tests drive by hand. The sections under its mutex are
  functions of its state; \<open>clock_step\<close> interleaves goroutines that sleep, are cancelled and wait for
  sleepers with the one that advances the time. A sleeper is a pointer in the code and a number here;
  its \<open>ready\<close> channel is closed when the number is in \<open>woken\<close>. The \<open>changes\<close> channel is replaced each time
  it is closed, so a channel is the number of replacements before it: it is closed when that number is
  below \<open>generation\<close>. Instants are in nanoseconds.
\<close>

record manual_clock =
  clock_time :: int
  sleepers :: "(nat \<times> int) list"
  woken :: "nat set"
  generation :: nat
  next_sleeper :: nat

definition new_manual_clock :: "int \<Rightarrow> manual_clock" where
  "new_manual_clock start = \<lparr>clock_time = start, sleepers = [], woken = {}, generation = 0, next_sleeper = 0\<rparr>"

definition signal_change :: "manual_clock \<Rightarrow> manual_clock" where
  "signal_change c = c\<lparr>generation := Suc (generation c)\<rparr>"

text \<open>What \<open>Sleep\<close> does before it waits; a duration that is not positive returns at once.\<close>

definition begin_sleep :: "int \<Rightarrow> manual_clock \<Rightarrow> nat option \<times> manual_clock" where
  "begin_sleep d c =
     (if d \<le> 0 then (None, c)
      else (Some (next_sleeper c),
            signal_change (c\<lparr>sleepers := sleepers c @ [(next_sleeper c, clock_time c + d)],
              next_sleeper := Suc (next_sleeper c)\<rparr>)))"

fun drop_sleeper :: "nat \<Rightarrow> (nat \<times> int) list \<Rightarrow> (nat \<times> int) list option" where
  "drop_sleeper i [] = None"
| "drop_sleeper i ((j, t) # ss) = (if j = i then Some ss else map_option ((#) (j, t)) (drop_sleeper i ss))"

definition remove_sleeper :: "nat \<Rightarrow> manual_clock \<Rightarrow> bool \<times> manual_clock" where
  "remove_sleeper i c =
     (case drop_sleeper i (sleepers c) of
        None \<Rightarrow> (False, c)
      | Some ss \<Rightarrow> (True, signal_change (c\<lparr>sleepers := ss\<rparr>)))"

text \<open>The loop over the sleepers keeps those still to come and closes the others' channels.\<close>

fun wake_due :: "int \<Rightarrow> (nat \<times> int) list \<Rightarrow> (nat \<times> int) list \<times> nat set \<Rightarrow> (nat \<times> int) list \<times> nat set" where
  "wake_due now [] (pending, closed) = (pending, closed)"
| "wake_due now ((i, t) # ss) (pending, closed) =
     wake_due now ss (if now < t then (pending @ [(i, t)], closed) else (pending, insert i closed))"

text \<open>\<open>None\<close> is the panic of a clock that is moved backwards.\<close>

definition advance :: "int \<Rightarrow> manual_clock \<Rightarrow> manual_clock option" where
  "advance d c =
     (if d < 0 then None
      else let now = clock_time c + d in
        case wake_due now (sleepers c) ([], woken c) of
          (pending, closed) \<Rightarrow> Some (signal_change (c\<lparr>clock_time := now, sleepers := pending, woken := closed\<rparr>)))"

definition pending_sleeps :: "manual_clock \<Rightarrow> nat" where
  "pending_sleeps c = length (sleepers c)"

text \<open>
  One round of the loop of \<open>WaitForPending\<close> under the lock: \<open>Inl\<close> returns, \<open>Inr\<close> is the channel to wait
  on. A negative count panics.
\<close>

definition wait_round :: "int \<Rightarrow> manual_clock \<Rightarrow> (unit + nat) option" where
  "wait_round n c =
     (if n < 0 then None else Some (if n \<le> int (length (sleepers c)) then Inl () else Inr (generation c)))"

subsection \<open>Goroutines on the clock\<close>

text \<open>
  A sleeping goroutine selects between its channel and its context; when it was cancelled and no longer
  is among the sleepers it receives from its channel. \<open>Slept\<close> is the nil result, \<open>SleepCancelled\<close> the
  context's cause. \<open>ended_at\<close> and \<open>due\<close> record the time of the result and the deadline, for the claims.
\<close>

datatype sleep_phase = Selecting | Receiving | Slept | SleepCancelled

record clock_world =
  clock :: manual_clock
  phase_of :: "nat \<Rightarrow> sleep_phase option"
  due :: "nat \<Rightarrow> int"
  ended_at :: "nat \<Rightarrow> int"
  watching :: "nat \<Rightarrow> (int \<times> nat) option"

definition clock_started :: "int \<Rightarrow> clock_world" where
  "clock_started start = \<lparr>clock = new_manual_clock start, phase_of = (\<lambda>_. None), due = (\<lambda>_. 0), ended_at = (\<lambda>_. 0),
     watching = (\<lambda>_. None)\<rparr>"

inductive clock_step :: "clock_world \<Rightarrow> clock_world \<Rightarrow> bool" where
  sleeps: "begin_sleep d (clock s) = (Some i, c) \<Longrightarrow>
    clock_step s (s\<lparr>clock := c, phase_of := (phase_of s)(i := Some Selecting),
      due := (due s)(i := clock_time (clock s) + d)\<rparr>)"
| wakes: "phase_of s i \<in> {Some Selecting, Some Receiving} \<Longrightarrow> i \<in> woken (clock s) \<Longrightarrow>
    clock_step s (s\<lparr>phase_of := (phase_of s)(i := Some Slept), ended_at := (ended_at s)(i := clock_time (clock s))\<rparr>)"
| cancelled: "phase_of s i = Some Selecting \<Longrightarrow> remove_sleeper i (clock s) = (True, c) \<Longrightarrow>
    clock_step s (s\<lparr>clock := c, phase_of := (phase_of s)(i := Some SleepCancelled),
      ended_at := (ended_at s)(i := clock_time (clock s))\<rparr>)"
| cancelled_late: "phase_of s i = Some Selecting \<Longrightarrow> remove_sleeper i (clock s) = (False, c) \<Longrightarrow>
    clock_step s (s\<lparr>clock := c, phase_of := (phase_of s)(i := Some Receiving)\<rparr>)"
| advances: "advance d (clock s) = Some c \<Longrightarrow> clock_step s (s\<lparr>clock := c\<rparr>)"
| watches: "wait_round n (clock s) = Some (Inr g) \<Longrightarrow> clock_step s (s\<lparr>watching := (watching s)(k := Some (n, g))\<rparr>)"
| watched: "watching s k = Some (n, g) \<Longrightarrow> g < generation (clock s) \<Longrightarrow> wait_round n (clock s) = Some (Inl ()) \<Longrightarrow>
    clock_step s (s\<lparr>watching := (watching s)(k := None)\<rparr>)"
| stops_watching: "clock_step s (s\<lparr>watching := (watching s)(k := None)\<rparr>)"

inductive clock_reachable :: "clock_world \<Rightarrow> bool" where
  starts: "clock_reachable (clock_started start)"
| steps: "clock_reachable s \<Longrightarrow> clock_step s s' \<Longrightarrow> clock_reachable s'"

subsection \<open>The invariant\<close>

text \<open>A watcher that waits for its channel has seen too few sleepers, unless the channel is closed.\<close>

definition settled :: "int \<Rightarrow> nat \<Rightarrow> manual_clock \<Rightarrow> bool" where
  "settled n g c \<longleftrightarrow> g \<le> generation c \<and> (g = generation c \<longrightarrow> int (length (sleepers c)) < n)"

definition clock_inv :: "clock_world \<Rightarrow> bool" where
  "clock_inv s \<longleftrightarrow>
     distinct (map fst (sleepers (clock s)))
   \<and> (\<forall>i t. (i, t) \<in> set (sleepers (clock s)) \<longrightarrow>
        t = due s i \<and> clock_time (clock s) < t \<and> i \<notin> woken (clock s) \<and> phase_of s i = Some Selecting)
   \<and> (\<forall>i\<in>woken (clock s). due s i \<le> clock_time (clock s))
   \<and> (\<forall>i. i \<ge> next_sleeper (clock s) \<longrightarrow> phase_of s i = None \<and> i \<notin> woken (clock s))
   \<and> (\<forall>i. phase_of s i = Some Selecting \<longrightarrow> (i, due s i) \<in> set (sleepers (clock s)) \<or> i \<in> woken (clock s))
   \<and> (\<forall>i. phase_of s i = Some Receiving \<longrightarrow> i \<in> woken (clock s))
   \<and> (\<forall>i. phase_of s i = Some Slept \<longrightarrow> due s i \<le> ended_at s i)
   \<and> (\<forall>i. phase_of s i = Some SleepCancelled \<longrightarrow> ended_at s i < due s i \<and> i \<notin> woken (clock s))
   \<and> (\<forall>k n g. watching s k = Some (n, g) \<longrightarrow> settled n g (clock s))"

lemma clock_invD:
  assumes "clock_inv s"
  shows sleeper_due: "(i, t) \<in> set (sleepers (clock s)) \<Longrightarrow> t = due s i"
    and sleeper_ahead: "(i, t) \<in> set (sleepers (clock s)) \<Longrightarrow> clock_time (clock s) < t"
    and sleeper_asleep: "(i, t) \<in> set (sleepers (clock s)) \<Longrightarrow> i \<notin> woken (clock s) \<and> phase_of s i = Some Selecting"
    and woken_due: "i \<in> woken (clock s) \<Longrightarrow> due s i \<le> clock_time (clock s)"
    and selecting_known: "phase_of s i = Some Selecting \<Longrightarrow> (i, due s i) \<in> set (sleepers (clock s)) \<or> i \<in> woken (clock s)"
    and watching_settled: "watching s k = Some (n, g) \<Longrightarrow> settled n g (clock s)"
  by (use assms [unfolded clock_inv_def] in blast)+

lemma drop_sleeper_None: "drop_sleeper i ss = None \<longleftrightarrow> (\<forall>t. (i, t) \<notin> set ss)"
  by (induction ss) (auto split: if_splits)

lemma drop_sleeper_Some:
  "drop_sleeper i ss = Some ts \<Longrightarrow> distinct (map fst ss) \<Longrightarrow>
   ts = filter (\<lambda>p. fst p \<noteq> i) ss \<and> (\<exists>t. (i, t) \<in> set ss)"
proof (induction ss arbitrary: ts)
  case (Cons s ss)
  obtain j t where s: "s = (j, t)" by (cases s)
  show ?case
  proof (cases "j = i")
    case True
    then have "filter (\<lambda>p. fst p \<noteq> i) ss = ss" using Cons.prems s by (force simp: filter_id_conv)
    then show ?thesis using Cons.prems s True by auto
  next
    case False
    then show ?thesis using Cons s by auto
  qed
qed simp

lemma wake_due_partition:
  "wake_due now ss (p, c) = (p @ filter (\<lambda>(i, t). now < t) ss, c \<union> fst ` set (filter (\<lambda>(i, t). t \<le> now) ss))"
  by (induction now ss "(p, c)" arbitrary: p c rule: wake_due.induct) auto

lemma advance_Some:
  "advance d c = Some c' \<longleftrightarrow> 0 \<le> d \<and>
   c' = c\<lparr>clock_time := clock_time c + d, sleepers := filter (\<lambda>(i, t). clock_time c + d < t) (sleepers c),
     woken := woken c \<union> fst ` set (filter (\<lambda>(i, t). t \<le> clock_time c + d) (sleepers c)),
     generation := Suc (generation c)\<rparr>"
  by (auto simp: advance_def wake_due_partition signal_change_def Let_def)

lemma settled_change: "settled n g c \<Longrightarrow> generation c' = Suc (generation c) \<Longrightarrow> settled n g c'"
  by (simp add: settled_def)

lemma clock_inv_start: "clock_inv (clock_started start)"
  by (simp add: clock_inv_def clock_started_def new_manual_clock_def)

lemma clock_inv_step: "clock_step s s' \<Longrightarrow> clock_inv s \<Longrightarrow> clock_inv s'"
proof (induction rule: clock_step.induct)
  case (sleeps d s i c)
  then have c: "0 < d" "i = next_sleeper (clock s)"
    "c = (clock s)\<lparr>sleepers := sleepers (clock s) @ [(i, clock_time (clock s) + d)],
       next_sleeper := Suc i, generation := Suc (generation (clock s))\<rparr>"
    by (auto simp: begin_sleep_def signal_change_def split: if_splits)
  have bound: "j < i" if "(j, t) \<in> set (sleepers (clock s)) \<or> j \<in> woken (clock s)" for j t
    using that sleeps.prems c(2) unfolding clock_inv_def by (metis linorder_not_le option.distinct(1))
  have new: "\<And>t. (i, t) \<notin> set (sleepers (clock s))" "phase_of s i = None" "i \<notin> woken (clock s)"
    using bound sleeps.prems c(2) by (auto simp: clock_inv_def)
  note old = sleeps.prems [unfolded clock_inv_def]
  have w: "settled n g c" if "watching s k = Some (n, g)" for k n g
  proof (rule settled_change)
    show "settled n g (clock s)" using that old by blast
  qed (simp add: c(3))
  show ?case
    unfolding clock_inv_def
  proof (intro conjI)
    show "distinct (map fst (sleepers (clock (s\<lparr>clock := c, phase_of := (phase_of s)(i := Some Selecting),
        due := (due s)(i := clock_time (clock s) + d)\<rparr>))))"
      using old c(3) new(1) by auto
  qed (use old c new w in \<open>auto simp: less_Suc_eq_le\<close>)
next
  case (wakes s i)
  then have "\<And>t. (i, t) \<notin> set (sleepers (clock s))" "due s i \<le> clock_time (clock s)" "i < next_sleeper (clock s)"
    unfolding clock_inv_def by (auto simp: not_le [symmetric])
  then show ?case using wakes unfolding clock_inv_def by auto
next
  case (cancelled s i c)
  then have d: "distinct (map fst (sleepers (clock s)))" by (simp add: clock_inv_def)
  obtain ss where "drop_sleeper i (sleepers (clock s)) = Some ss"
    and c: "c = (clock s)\<lparr>sleepers := ss, generation := Suc (generation (clock s))\<rparr>"
    using cancelled.hyps by (auto simp: remove_sleeper_def signal_change_def split: option.splits)
  then have ss: "ss = filter (\<lambda>p. fst p \<noteq> i) (sleepers (clock s))" "\<exists>t. (i, t) \<in> set (sleepers (clock s))"
    using drop_sleeper_Some d by auto
  then have i: "clock_time (clock s) < due s i" "i \<notin> woken (clock s)"
    using cancelled.prems by (auto simp: clock_inv_def)
  have "distinct (map fst ss)" using d ss(1) by (simp add: distinct_map_filter)
  moreover have "settled n g c" if "watching s k = Some (n, g)" for k n g
  proof (rule settled_change)
    show "settled n g (clock s)" using that cancelled.prems unfolding clock_inv_def by blast
  qed (simp add: c)
  ultimately show ?case
    using cancelled c ss i unfolding clock_inv_def by auto
next
  case (cancelled_late s i c)
  then have "drop_sleeper i (sleepers (clock s)) = None" "c = clock s"
    by (auto simp: remove_sleeper_def split: option.splits)
  then show ?case using cancelled_late unfolding clock_inv_def drop_sleeper_None by auto
next
  case (advances d s c)
  have "settled n g c" if "watching s k = Some (n, g)" for k n g
  proof (rule settled_change)
    show "settled n g (clock s)" using that advances.prems unfolding clock_inv_def by blast
    show "generation c = Suc (generation (clock s))" using advances.hyps by (simp add: advance_Some)
  qed
  then have w: "\<forall>k n g. watching s k = Some (n, g) \<longrightarrow> settled n g c" by blast
  note old = advances.prems [unfolded clock_inv_def]
  have c: "0 \<le> d" "c = (clock s)\<lparr>clock_time := clock_time (clock s) + d,
      sleepers := filter (\<lambda>(i, t). clock_time (clock s) + d < t) (sleepers (clock s)),
      woken := woken (clock s) \<union> fst ` set (filter (\<lambda>(i, t). t \<le> clock_time (clock s) + d) (sleepers (clock s))),
      generation := Suc (generation (clock s))\<rparr>"
    using advances.hyps by (simp_all add: advance_Some)
  show ?case
    unfolding clock_inv_def
  proof (intro conjI)
    show "\<forall>i. phase_of (s\<lparr>clock := c\<rparr>) i = Some Selecting \<longrightarrow>
        (i, due (s\<lparr>clock := c\<rparr>) i) \<in> set (sleepers (clock (s\<lparr>clock := c\<rparr>))) \<or> i \<in> woken (clock (s\<lparr>clock := c\<rparr>))"
    proof (intro allI impI)
      fix i assume "phase_of (s\<lparr>clock := c\<rparr>) i = Some Selecting"
      then have "(i, due s i) \<in> set (sleepers (clock s)) \<or> i \<in> woken (clock s)"
        using selecting_known [OF advances.prems, of i] by simp
      moreover have "i \<in> woken c" if "(i, due s i) \<in> set (sleepers (clock s))" "due s i \<le> clock_time (clock s) + d"
        unfolding c(2) using that by (auto intro: rev_image_eqI)
      moreover have "(i, due s i) \<in> set (sleepers c)"
        if "(i, due s i) \<in> set (sleepers (clock s))" "clock_time (clock s) + d < due s i"
        unfolding c(2) using that by simp
      moreover have "i \<in> woken c" if "i \<in> woken (clock s)" unfolding c(2) using that by simp
      ultimately show "(i, due (s\<lparr>clock := c\<rparr>) i) \<in> set (sleepers (clock (s\<lparr>clock := c\<rparr>))) \<or> i \<in> woken (clock (s\<lparr>clock := c\<rparr>))"
        by (cases "due s i \<le> clock_time (clock s) + d") auto
    qed
    show "\<forall>i t. (i, t) \<in> set (sleepers (clock (s\<lparr>clock := c\<rparr>))) \<longrightarrow>
        t = due (s\<lparr>clock := c\<rparr>) i \<and> clock_time (clock (s\<lparr>clock := c\<rparr>)) < t \<and> i \<notin> woken (clock (s\<lparr>clock := c\<rparr>))
        \<and> phase_of (s\<lparr>clock := c\<rparr>) i = Some Selecting"
    proof (intro allI impI)
      fix i t assume "(i, t) \<in> set (sleepers (clock (s\<lparr>clock := c\<rparr>)))"
      then have it: "(i, t) \<in> set (sleepers (clock s))" "clock_time (clock s) + d < t" unfolding c(2) by auto
      have other: "t = b" if "(i, b) \<in> set (sleepers (clock s))" for b
        using sleeper_due [OF advances.prems it(1)] sleeper_due [OF advances.prems that] by simp
      have sel: "t = due s i" "i \<notin> woken (clock s)" "phase_of s i = Some Selecting"
        using sleeper_due [OF advances.prems it(1)] sleeper_asleep [OF advances.prems it(1)] by simp_all
      have "i \<notin> woken c" unfolding c(2) using sel(2) other it(2) by auto
      then show "t = due (s\<lparr>clock := c\<rparr>) i \<and> clock_time (clock (s\<lparr>clock := c\<rparr>)) < t
          \<and> i \<notin> woken (clock (s\<lparr>clock := c\<rparr>)) \<and> phase_of (s\<lparr>clock := c\<rparr>) i = Some Selecting"
        using sel it(2) unfolding c(2) by simp
    qed
    show "\<forall>k n g. watching (s\<lparr>clock := c\<rparr>) k = Some (n, g) \<longrightarrow> settled n g (clock (s\<lparr>clock := c\<rparr>))"
      using w by simp
  qed (use old c in \<open>auto simp: distinct_map_filter\<close>)
next
  case (watches n s g k)
  then show ?case by (auto simp: clock_inv_def wait_round_def settled_def split: if_splits)
next
  case (watched s k n g)
  then show ?case by (auto simp: clock_inv_def)
next
  case (stops_watching s k)
  then show ?case by (auto simp: clock_inv_def)
qed

lemma clock_reachable_inv: "clock_reachable s \<Longrightarrow> clock_inv s"
  by (induction rule: clock_reachable.induct) (auto intro: clock_inv_start clock_inv_step)

text \<open>
  C38: sleepers wake exactly when they are due. Whatever the order of sleeps, cancellations and
  advances: a goroutine that still waits has an open channel and is counted as pending precisely while
  its deadline is ahead of the clock, and otherwise its channel is closed, so that it can return; one
  that lost the race against being woken finds its channel closed. A sleep answers nil only at or after
  its deadline and an interruption only before it, and nobody who waits for sleepers to register waits
  on an open channel when enough of them have.
\<close>

theorem manual_clock_wakes_when_due:
  assumes "clock_reachable s"
  shows "(phase_of s i = Some Selecting \<longrightarrow> (i \<in> woken (clock s) \<longleftrightarrow> due s i \<le> clock_time (clock s)))
    \<and> (phase_of s i = Some Receiving \<longrightarrow> i \<in> woken (clock s))
    \<and> pending_sleeps (clock s) = card {i. phase_of s i = Some Selecting \<and> clock_time (clock s) < due s i}
    \<and> (phase_of s i = Some Slept \<longrightarrow> due s i \<le> ended_at s i)
    \<and> (phase_of s i = Some SleepCancelled \<longrightarrow> ended_at s i < due s i)
    \<and> (watching s k = Some (n, g) \<and> n \<le> int (pending_sleeps (clock s)) \<longrightarrow> g < generation (clock s))"
proof (intro conjI impI)
  note reached = clock_reachable_inv [OF assms]
  note inv = reached [unfolded clock_inv_def]
  have set_eq: "fst ` set (sleepers (clock s)) = {i. phase_of s i = Some Selecting \<and> clock_time (clock s) < due s i}"
  proof (intro set_eqI iffI)
    fix i assume "i \<in> fst ` set (sleepers (clock s))"
    then obtain t where "(i, t) \<in> set (sleepers (clock s))" by auto
    then show "i \<in> {i. phase_of s i = Some Selecting \<and> clock_time (clock s) < due s i}"
      using sleeper_due [OF reached] sleeper_ahead [OF reached] sleeper_asleep [OF reached] by auto
  next
    fix i assume i: "i \<in> {i. phase_of s i = Some Selecting \<and> clock_time (clock s) < due s i}"
    then have "i \<notin> woken (clock s)" using woken_due [OF reached, of i] by auto
    then have "(i, due s i) \<in> set (sleepers (clock s))" using selecting_known [OF reached, of i] i by simp
    then show "i \<in> fst ` set (sleepers (clock s))" by (rule rev_image_eqI) simp
  qed
  have "pending_sleeps (clock s) = card (fst ` set (sleepers (clock s)))"
    using inv distinct_card [of "map fst (sleepers (clock s))"] by (simp add: pending_sleeps_def)
  then show "pending_sleeps (clock s) = card {i. phase_of s i = Some Selecting \<and> clock_time (clock s) < due s i}"
    by (simp add: set_eq)
  show "i \<in> woken (clock s)" if "phase_of s i = Some Receiving" using inv that by blast
  show "due s i \<le> ended_at s i" if "phase_of s i = Some Slept" using inv that by blast
  show "ended_at s i < due s i" if "phase_of s i = Some SleepCancelled" using inv that by blast
  show "i \<in> woken (clock s) \<longleftrightarrow> due s i \<le> clock_time (clock s)" if "phase_of s i = Some Selecting"
  proof
    assume "i \<in> woken (clock s)"
    then show "due s i \<le> clock_time (clock s)" by (rule woken_due [OF reached])
  next
    assume "due s i \<le> clock_time (clock s)"
    then have "(i, due s i) \<notin> set (sleepers (clock s))" using sleeper_ahead [OF reached, of i "due s i"] by auto
    then show "i \<in> woken (clock s)" using selecting_known [OF reached that] by simp
  qed
  show "g < generation (clock s)" if "watching s k = Some (n, g) \<and> n \<le> int (pending_sleeps (clock s))"
  proof -
    have "settled n g (clock s)" using watching_settled [OF reached, of k n g] that by simp
    then show ?thesis using that by (auto simp: settled_def pending_sleeps_def)
  qed
qed

text \<open>A sleeper of ten that is still asleep after five.\<close>

definition asleep :: "int \<Rightarrow> nat \<Rightarrow> clock_world" where
  "asleep now gen = \<lparr>clock = \<lparr>clock_time = now, sleepers = [(0, 10)], woken = {}, generation = gen, next_sleeper = 1\<rparr>,
     phase_of = (\<lambda>_. None)(0 := Some Selecting), due = (\<lambda>_. 0)(0 := 10), ended_at = (\<lambda>_. 0), watching = (\<lambda>_. None)\<rparr>"

definition dozing :: clock_world where
  "dozing = asleep 5 2"

lemma dozing_reachable: "clock_reachable dozing"
proof -
  have "clock_step (clock_started 0) (asleep 0 1)"
    using sleeps [of 10 "clock_started 0" 0 "clock (asleep 0 1)"]
    by (simp add: begin_sleep_def signal_change_def clock_started_def new_manual_clock_def asleep_def)
  moreover have "clock_step (asleep 0 1) dozing"
    using advances [of 5 "asleep 0 1" "clock dozing"] by (simp add: advance_Some dozing_def asleep_def)
  ultimately show ?thesis by (blast intro: starts steps)
qed

theorem manual_clock_wakes_when_due_witness:
  "0 \<notin> woken (clock dozing) \<and> pending_sleeps (clock dozing) = card {i. phase_of dozing i = Some Selecting \<and> 5 < due dozing i}"
  using manual_clock_wakes_when_due [OF dozing_reachable, of 0] by (simp add: dozing_def asleep_def)

end
