(* ===== verification/Config_Document.thy ===== *)
theory Config_Document
  imports Config_Read Retry Environments
begin

section \<open>Configuration documents and loading\<close>

text \<open>
  \<^verbatim>\<open>effect/config/document.go\<close>, \<^verbatim>\<open>effect/config/secret.go\<close> and \<^verbatim>\<open>effect/configuration.go\<close>: the table a
  program prints of what it reads, and reading a description as an effect. \<open>None\<close> is a panic of
  \<^verbatim>\<open>strings.Repeat\<close> or of an index out of range, which the theory shows not to happen.
\<close>

subsection \<open>Secrets\<close>

definition redacted :: string where
  "redacted = ''<redacted>''"

definition new_secret :: "string \<Rightarrow> secret" where
  "new_secret v = Secret v"

fun reveal :: "secret \<Rightarrow> string" where
  "reveal (Secret v) = v"

fun secret_is_empty :: "secret \<Rightarrow> bool" where
  "secret_is_empty (Secret v) \<longleftrightarrow> v = []"

text \<open>What \<^verbatim>\<open>fmt\<close>, the text encoders and the log print of a secret.\<close>

definition secret_string :: "secret \<Rightarrow> string" where
  "secret_string _ = redacted"

definition secret_marshal_text :: "secret \<Rightarrow> string" where
  "secret_marshal_text _ = redacted"

definition secret_log_value :: "secret \<Rightarrow> string" where
  "secret_log_value _ = redacted"

subsection \<open>The table\<close>

definition new_line :: char where
  "new_line = CHR 0x0A"

definition expectation_text :: "expectation \<Rightarrow> string" where
  "expectation_text e =
     (if exp_default e \<noteq> [] then exp_default e else if exp_optional e then ''optional'' else ''required'')"

definition rows_of :: "expectation list \<Rightarrow> string list list" where
  "rows_of es = map (\<lambda>e. [render_path (exp_path e), exp_type e, expectation_text e, exp_description e])
     (sort_key (\<lambda>e. render_path (exp_path e)) es)"

definition widths_of :: "string list list \<Rightarrow> nat list" where
  "widths_of rows = foldl
     (\<lambda>ws row. foldl (\<lambda>ws (column, cell). if length cell > ws ! column then ws[column := length cell] else ws)
        ws (enumerate 0 row))
     (replicate (length (hd rows)) 0) rows"

definition repeat_space :: "int \<Rightarrow> string option" where
  "repeat_space n = (if n < 0 then None else Some (replicate (nat n) CHR '' ''))"

text \<open>The cells from a column on; the loop breaks after the last one.\<close>

fun row_cells :: "nat list \<Rightarrow> nat \<Rightarrow> string list \<Rightarrow> string option" where
  "row_cells ws column [] = Some []"
| "row_cells ws column [cell] = Some cell"
| "row_cells ws column (cell # cells) =
     (if column \<ge> length ws then None
      else case repeat_space (int (ws ! column) - int (length cell) + 2) of
        None \<Rightarrow> None
      | Some pad \<Rightarrow> map_option (\<lambda>line. cell @ pad @ line) (row_cells ws (Suc column) cells))"

definition trim_right_spaces :: "string \<Rightarrow> string" where
  "trim_right_spaces s = rev (dropWhile (\<lambda>c. c = CHR '' '') (rev s))"

fun lines_of :: "nat list \<Rightarrow> string list list \<Rightarrow> string option" where
  "lines_of ws [] = Some []"
| "lines_of ws (row # rows) =
     (case row_cells ws 0 row of
        None \<Rightarrow> None
      | Some cells \<Rightarrow>
          map_option (\<lambda>text. trim_right_spaces (''  '' @ cells) @ [new_line] @ text) (lines_of ws rows))"

definition document :: "expectation list \<Rightarrow> string option" where
  "document es =
     (if es = [] then Some (''nothing'' @ [new_line])
      else let rows = rows_of es in lines_of (widths_of rows) rows)"

definition expectation_string :: "expectation \<Rightarrow> string" where
  "expectation_string e =
     (let line = render_path (exp_path e) @ '' ('' @ exp_type e @ '', '' @ expectation_text e @ '')''
      in if exp_description e = [] then line else line @ '': '' @ exp_description e)"

text \<open>\<open>Load\<close>: the settings, or an error that wraps the failure and lists what is read.\<close>

definition load :: "source option \<Rightarrow> 'a config \<Rightarrow> ((cerror \<times> string) + 'a) option" where
  "load src d =
     (case read_config src d of
        Inr a \<Rightarrow> Some (Inr a)
      | Inl e \<Rightarrow> map_option (\<lambda>table. Inl (e, error_text e @ [new_line, new_line] @ ''what this program reads:'' @ [new_line] @ table))
          (document (expects d)))"

subsection \<open>The table as a reference\<close>

text \<open>The width of a column is the longest of its cells, and a cell is filled to two past it.\<close>

definition column_width :: "(expectation \<Rightarrow> string) \<Rightarrow> expectation list \<Rightarrow> nat" where
  "column_width cell es = Max (insert 0 ((\<lambda>e. length (cell e)) ` set es))"

definition fill :: "nat \<Rightarrow> string \<Rightarrow> string" where
  "fill n s = s @ replicate (n + 2 - length s) CHR '' ''"

definition table_line :: "expectation list \<Rightarrow> expectation \<Rightarrow> string" where
  "table_line es e = trim_right_spaces (''  ''
     @ fill (column_width (\<lambda>e. render_path (exp_path e)) es) (render_path (exp_path e))
     @ fill (column_width exp_type es) (exp_type e)
     @ fill (column_width expectation_text es) (expectation_text e)
     @ exp_description e)"

lemma column_width_simps [simp]:
  "column_width cell [] = 0"
  "column_width cell (e # es) = max (length (cell e)) (column_width cell es)"
  by (simp_all add: column_width_def insert_commute [of 0])

lemma column_width_ge: "e \<in> set es \<Longrightarrow> length (cell e) \<le> column_width cell es"
  by (simp add: column_width_def)

lemma column_width_sort [simp]: "column_width cell (sort_key k es) = column_width cell es"
  by (simp add: column_width_def)

lemma widths_of_columns:
  "foldl (\<lambda>ws row. foldl (\<lambda>ws (column, cell). if length cell > ws ! column then ws[column := length cell] else ws)
      ws (enumerate 0 row)) [k, l, m, n] (map (\<lambda>e. [f e, g e, h e, i e]) es)
   = [max k (column_width f es), max l (column_width g es), max m (column_width h es), max n (column_width i es)]"
proof (induction es arbitrary: k l m n)
  case (Cons e es)
  have "foldl (\<lambda>ws (column, cell). if length cell > ws ! column then ws[column := length cell] else ws)
      [k, l, m, n] (enumerate 0 [f e, g e, h e, i e])
    = [max k (length (f e)), max l (length (g e)), max m (length (h e)), max n (length (i e))]"
    by (simp add: max_def)
  then show ?case by (simp add: Cons.IH max.assoc del: enumerate_simps)
qed simp

lemma widths_of_rows:
  assumes "es \<noteq> []"
  shows "widths_of (rows_of es) =
    [column_width (\<lambda>e. render_path (exp_path e)) es, column_width exp_type es, column_width expectation_text es,
     column_width exp_description es]"
proof -
  have "sort_key (\<lambda>e. render_path (exp_path e)) es \<noteq> []"
    using assms by (metis length_0_conv length_sort)
  then show ?thesis
    by (simp add: widths_of_def rows_of_def hd_map numeral_eq_Suc widths_of_columns del: enumerate_simps)
qed

lemma repeat_space_fill:
  "length s \<le> n \<Longrightarrow> \<exists>pad. repeat_space (int n - int (length s) + 2) = Some pad \<and> fill n s = s @ pad"
  by (auto simp: repeat_space_def fill_def nat_diff_distrib nat_add_distrib algebra_simps nat_int_add)

lemma lines_of_rows:
  assumes "set xs \<subseteq> set es"
  shows "lines_of (widths_of (rows_of es)) (map (\<lambda>e. [render_path (exp_path e), exp_type e, expectation_text e, exp_description e]) xs)
    = Some (concat (map (\<lambda>e. table_line es e @ [new_line]) xs))"
  using assms
proof (induction xs)
  case (Cons e xs)
  then have e: "e \<in> set es" and ne: "es \<noteq> []" by auto
  have fits: "\<exists>pad. repeat_space (int (column_width cell es) - int (length (cell e)) + 2) = Some pad
      \<and> fill (column_width cell es) (cell e) = cell e @ pad" for cell
    by (rule repeat_space_fill [OF column_width_ge [OF e]])
  obtain p where p: "repeat_space (int (column_width (\<lambda>e. render_path (exp_path e)) es) - int (length (render_path (exp_path e))) + 2) = Some p"
      "fill (column_width (\<lambda>e. render_path (exp_path e)) es) (render_path (exp_path e)) = render_path (exp_path e) @ p"
    using fits [of "\<lambda>e. render_path (exp_path e)"] by auto
  obtain q where q: "repeat_space (int (column_width exp_type es) - int (length (exp_type e)) + 2) = Some q"
      "fill (column_width exp_type es) (exp_type e) = exp_type e @ q"
    using fits [of exp_type] by auto
  obtain r where r: "repeat_space (int (column_width expectation_text es) - int (length (expectation_text e)) + 2) = Some r"
      "fill (column_width expectation_text es) (expectation_text e) = expectation_text e @ r"
    using fits [of expectation_text] by auto
  show ?case
    using Cons by (simp add: widths_of_rows [OF ne] p q r table_line_def)
qed simp

text \<open>
  C36: the document is a table. It never panics: it has one line per expectation, in the order of their
  rendered paths and for equal paths in the order of the description, and in each line every cell but
  the last starts at the same column, two past the longest cell of the column before.
\<close>

theorem document_is_a_table:
  "document es = Some
     (if es = [] then ''nothing'' @ [new_line]
      else concat (map (\<lambda>e. table_line es e @ [new_line]) (sort_key (\<lambda>e. render_path (exp_path e)) es)))"
  by (simp add: document_def Let_def rows_of_def lines_of_rows [unfolded rows_of_def])

lemma load_never_panics: "load src d \<noteq> None"
  by (auto simp: load_def document_def Let_def rows_of_def lines_of_rows [unfolded rows_of_def] split: sum.splits)

text \<open>
  The document does not look at \<open>exp_secret\<close>: a secret transformed into its text prints its default,
  although the documentation of \<open>Document\<close> says that a secret's value is never there.
\<close>

definition revealed_password :: "string config" where
  "revealed_password = with_default (\<lambda>t. t) (map_config (secret_config ''pw'') reveal) ''hunter2''"

lemma document_prints_default_of_mapped_secret:
  "document (expects revealed_password) = Some (''  pw  a secret  hunter2'' @ [new_line])
   \<and> map exp_secret (expects revealed_password) = [True]"
  by (simp add: revealed_password_def with_default_def map_config_def secret_config_def of_config_def Let_def
      expectation_of_def path_of_def document_def rows_of_def widths_of_def expectation_text_def render_path_def
      repeat_space_def trim_right_spaces_def numeral_eq_Suc)

text \<open>A stand-in that prints as nothing is taken for no stand-in.\<close>

lemma empty_default_reads_required:
  "map expectation_text (expects (with_default (\<lambda>t. t) (text_config ''name'') [])) = [''required'']
   \<and> reader (with_default (\<lambda>t. t) (text_config ''name'') []) \<lparr>at_source = from_map Map.empty, at_path = []\<rparr> = Inr []"
  by (simp add: with_default_def text_config_def of_config_def value_here_def from_map_def expectation_of_def
      expectation_text_def under_def path_of_def Let_def is_missing_only_def)

subsection \<open>Loading as an effect\<close>

text \<open>\<open>as_failure\<close> is the erasure of a configuration error into a typed failure.\<close>

definition load_config :: "('v, 'c, 'w) host \<Rightarrow> (cerror \<Rightarrow> 'v) \<Rightarrow> 'a config \<Rightarrow> ('r, 'v, 'c, 'w, 'a) req_fx" where
  "load_config h as_failure d _ = from_runtime h (\<lambda>I w.
     let r = read_config (config_source (services (state_of I))) d in
     case interruption_reason h (context_of I) w of
       (Some reason, w') \<Rightarrow> Some (Inr (Inl (interrupt_cause (Some reason))), w')
     | (None, w') \<Rightarrow> Some (Inr (map_sum (\<lambda>e. fail_cause (as_failure e)) id r), w'))"

definition with_config_source_fx :: "('v, 'c, 'w) host \<Rightarrow> ('v, 'c, 'w, 'a) fx \<Rightarrow> source option \<Rightarrow> ('v, 'c, 'w, 'a) fx" where
  "with_config_source_fx h fx src =
     (case src of None \<Rightarrow> fx | Some s \<Rightarrow> with_state h fx (pure (with_config_source (Some s))))"

definition config_layer :: "('v, 'c, 'w) host \<Rightarrow> (cerror \<Rightarrow> 'v) \<Rightarrow> 'a config \<Rightarrow> ('r, 'v, 'c, 'w, 'a) layer" where
  "config_layer h as_failure d = load_config h as_failure d"

text \<open>
  A description read as an effect answers what the nearest source gives: the runtime's, or the one the
  effect was given with \<open>WithConfigSource\<close>; a failure of the description is a typed failure, and an
  interruption that came meanwhile goes before it.
\<close>

lemma load_config_reads_nearest_source:
  assumes "ctx_err h (context_of I) w = ((None, reason), w)"
  shows "with_config_source_fx h (load_config h as_failure d r) src I w = Some
    (case read_config (if src = None then config_source (services (state_of I)) else src) d of
       Inl e \<Rightarrow> Inl (fail_cause (as_failure e))
     | Inr a \<Rightarrow> Inr a, w)"
  using assms
  by (cases src) (auto simp: with_config_source_fx_def load_config_def from_runtime_def at_checkpoint_def
      machine_interrupt_def interruption_reason_def guarded_def capture_def with_state_def with_config_source_def
      Let_def split: sum.splits)

lemma load_config_interrupted_while_reading:
  assumes "ctx_err h (context_of I) w = ((None, reason), w1)" "ctx_err h (context_of I) w1 = ((Some e, reason'), w2)"
    and "cancellation_reason (Some e) reason' = Some c"
  shows "load_config h as_failure d r I w = Some (Inl (interrupt_cause (Some c)), w2)"
  using assms
  by (simp add: load_config_def from_runtime_def at_checkpoint_def machine_interrupt_def interruption_reason_def
      guarded_def capture_def Let_def)

end
