(* ===== verification/Platform_Services.thy ===== *)
theory Platform_Services
  imports Retry Go_Strings
begin

section \<open>Logging and files\<close>

text \<open>
  \<^verbatim>\<open>effect/log.go\<close>, \<^verbatim>\<open>effect/filesystem.go\<close>, \<^verbatim>\<open>effect/io_error.go\<close>, the live services of
  \<^verbatim>\<open>effect/internal/platform\<close> and the recording ones of \<^verbatim>\<open>effecttest\<close>. The logger and the file system
  are ports a runtime is given, functions on the world as the other services are: they answer an error
  or a value, panic (\<open>Inl\<close> of a callback) or never return. File contents are byte strings; the answers
  of \<^verbatim>\<open>Stat\<close> and \<^verbatim>\<open>ReadDir\<close> are of types \<open>'i\<close> and \<open>'d\<close>, which the code only passes on.
\<close>

subsection \<open>Records\<close>

text \<open>The levels of \<^verbatim>\<open>log/slog\<close>.\<close>

definition level_debug :: int where "level_debug = - 4"
definition level_info :: int where "level_info = 0"
definition level_warn :: int where "level_warn = 4"
definition level_error :: int where "level_error = 8"

record log_record =
  log_timestamp :: int
  log_level :: int
  log_message :: string
  log_fields :: "attr list"
  log_operation :: string
  log_fiber :: "64 word"
  log_span :: "64 word"
  log_parent :: "64 word"

type_synonym ('v, 'c, 'w) logger_port = "'c \<Rightarrow> log_record \<Rightarrow> ('v, 'w, nilable_err) callback"

definition merge_attributes :: "attr list \<Rightarrow> attr list \<Rightarrow> attr list" where
  "merge_attributes span own =
     (if own = [] then span else filter (\<lambda>field. fst field \<notin> fst ` set own) span @ own)"

definition log_record_of :: "int \<Rightarrow> int \<Rightarrow> string \<Rightarrow> attr list \<Rightarrow> metadata \<Rightarrow> log_record" where
  "log_record_of now level message own m =
     \<lparr>log_timestamp = now, log_level = level, log_message = message,
      log_fields = merge_attributes (attributes m) own, log_operation = operation_name m,
      log_fiber = fiber_id m, log_span = span_id m, log_parent = parent_id m\<rparr>"

definition log_fx ::
  "('v, 'c, 'w) host \<Rightarrow> ('v, 'c, 'w) logger_port \<Rightarrow> int \<Rightarrow> string \<Rightarrow> attr list \<Rightarrow> ('v, 'c, 'w, unit) fx" where
  "log_fx h logger level message own = from_runtime h (\<lambda>I w.
     let st = state_of I; ctx = context_of I in
     case clock_now (services st) w of
       (now, w1) \<Rightarrow>
         (case logger ctx (log_record_of now level message own (meta st)) w1 of
            None \<Rightarrow> None
          | Some (Inl p, w2) \<Rightarrow> Some (Inl p, w2)
          | Some (Inr (Some err), w2) \<Rightarrow>
              Some (Inr (Inr ()),
                report ctx \<lparr>component = FaultLogger, fault_operation = ''log'', fault_err = err_text err\<rparr> st w2)
          | Some (Inr None, w2) \<Rightarrow>
              Some (Inr (Inr ()),
                if has_observer st
                then case event LogEmitted st w2 of
                  (ev, w3) \<Rightarrow> emit ctx (ev\<lparr>ev_timestamp := now, ev_status := StatusSuccess\<rparr>) st w3
                else w2)))"

definition log_debug ::
  "('v, 'c, 'w) host \<Rightarrow> ('v, 'c, 'w) logger_port \<Rightarrow> string \<Rightarrow> attr list \<Rightarrow> ('v, 'c, 'w, unit) fx" where
  "log_debug h logger = log_fx h logger level_debug"

definition log_info ::
  "('v, 'c, 'w) host \<Rightarrow> ('v, 'c, 'w) logger_port \<Rightarrow> string \<Rightarrow> attr list \<Rightarrow> ('v, 'c, 'w, unit) fx" where
  "log_info h logger = log_fx h logger level_info"

definition log_warn ::
  "('v, 'c, 'w) host \<Rightarrow> ('v, 'c, 'w) logger_port \<Rightarrow> string \<Rightarrow> attr list \<Rightarrow> ('v, 'c, 'w, unit) fx" where
  "log_warn h logger = log_fx h logger level_warn"

definition log_error ::
  "('v, 'c, 'w) host \<Rightarrow> ('v, 'c, 'w) logger_port \<Rightarrow> string \<Rightarrow> attr list \<Rightarrow> ('v, 'c, 'w, unit) fx" where
  "log_error h logger = log_fx h logger level_error"

subsection \<open>What a record carries\<close>

text \<open>
  A record's own field wins over the span's, the span's other fields keep their order before it, and
  keys that were distinct on each side are distinct together.
\<close>

lemma merge_attributes_map: "map_of (rev (merge_attributes span own)) = map_of (rev span) ++ map_of (rev own)"
proof (rule ext)
  fix k
  have "map_of (rev (filter (\<lambda>field. fst field \<notin> fst ` set own) span)) k =
      (if k \<in> fst ` set own then None else map_of (rev span) k)"
    by (induction span rule: rev_induct) (auto simp: image_iff)
  moreover have "map_of (rev own) k = None \<longleftrightarrow> k \<notin> fst ` set own"
    by (simp add: map_of_eq_None_iff)
  ultimately show "map_of (rev (merge_attributes span own)) k = (map_of (rev span) ++ map_of (rev own)) k"
    by (auto simp: merge_attributes_def map_add_def split: option.split)
qed

lemma merge_attributes_distinct:
  assumes "distinct (map fst span)" "distinct (map fst own)"
  shows "distinct (map fst (merge_attributes span own))"
  using assms by (auto simp: merge_attributes_def distinct_map_filter)

lemma merge_attributes_order:
  "\<exists>kept. subseq kept span \<and> merge_attributes span own = kept @ own"
  by (cases "own = []") (auto simp: merge_attributes_def intro: exI [of _ span] subseq_filter_left)

text \<open>A key that two nested spans state is still there twice.\<close>

lemma nested_spans_repeat_a_key:
  "map fst (merge_attributes (attributes (meta (with_attributes [(''k'', ''2'')] (with_attributes [(''k'', ''1'')] st)))) [(''m'', ''3'')])
     = filter (\<lambda>k. k \<noteq> ''m'') (map fst (attributes (meta st))) @ [''k'', ''k'', ''m'']"
  by (simp add: merge_attributes_def with_attributes_def filter_map comp_def)

text \<open>
  Logging has no failures. A record that the logger cannot deliver is one fault for diagnostics
  and no event; the program goes on with its value. Only a panic of the logger and an interruption
  before the call end the effect otherwise, neither as a typed failure.
\<close>

theorem logging_never_fails:
  assumes "log_fx h logger level message own I w = Some (x, w')"
    and "ctx_err h (context_of I) w = ((None, reason), w0)" "clock_now (services (state_of I)) w0 = (now, w1)"
    and "r = logger (context_of I) (log_record_of now level message own (meta (state_of I))) w1"
  shows "(\<forall>c. x = Inl c \<longrightarrow> failures c = [] \<and> proper c)
    \<and> (\<forall>err w2. r = Some (Inr (Some err), w2) \<longrightarrow>
        x = Inr () \<and> w' = report (context_of I)
          \<lparr>component = FaultLogger, fault_operation = ''log'', fault_err = err_text err\<rparr> (state_of I) w2)
    \<and> (\<forall>w2. r = Some (Inr None, w2) \<and> \<not> has_observer (state_of I) \<longrightarrow> x = Inr () \<and> w' = w2)
    \<and> (\<forall>p w2. r = Some (Inl p, w2) \<longrightarrow> w' = w2 \<and> x = Inl (die_cause (capture_defect p (stack_trace h w2))))"
proof -
  have run: "log_fx h logger level message own I w =
      (case r of
         None \<Rightarrow> None
       | Some (Inl p, w2) \<Rightarrow> Some (Inl (die_cause (capture_defect p (stack_trace h w2))), w2)
       | Some (Inr (Some err), w2) \<Rightarrow> Some (Inr (), report (context_of I)
           \<lparr>component = FaultLogger, fault_operation = ''log'', fault_err = err_text err\<rparr> (state_of I) w2)
       | Some (Inr None, w2) \<Rightarrow> Some (Inr (), if has_observer (state_of I)
           then case event LogEmitted (state_of I) w2 of
             (ev, w3) \<Rightarrow> emit (context_of I) (ev\<lparr>ev_timestamp := now, ev_status := StatusSuccess\<rparr>) (state_of I) w3
           else w2))"
    using assms(2-4)
    by (auto simp: log_fx_def from_runtime_def at_checkpoint_def machine_interrupt_def guarded_def capture_def Let_def
        split: option.split sum.split)
  show ?thesis
    using assms(1) unfolding run by (auto simp: die_cause_def split: option.splits sum.splits)
qed

text \<open>A logger that cannot deliver.\<close>

definition full_disk :: "(string, bool, string list) logger_port" where
  "full_disk _ _ w = Some (Inr (Some (GoErr 9 ''disk full'' [])), w)"

definition reporting_interp :: "(string, bool, string list) interp" where
  "reporting_interp = plain_interp\<lparr>state_of := fst (new_state \<lparr>clock_now = (\<lambda>w. (0, w)),
     clock_sleep = (\<lambda>_ _ w. Some (None, w)), observer = None,
     diagnostics = Some (\<lambda>_ f w. (None, w @ [fault_err f])), config_source = None\<rparr> 0 None)\<rparr>"

theorem logging_never_fails_witness:
  "log_info plain_host full_disk ''hello'' [] reporting_interp [] = Some (Inr (), [''disk full''])"
proof -
  obtain x w' where run: "log_fx plain_host full_disk level_info ''hello'' [] reporting_interp [] = Some (x, w')"
    by (simp add: log_fx_def fx_defs machine_interrupt_def plain_host_def reporting_interp_def plain_interp_def
        capture_def full_disk_def new_state_def)
  have "x = Inr () \<and> w' = report (context_of reporting_interp)
      \<lparr>component = FaultLogger, fault_operation = ''log'', fault_err = ''disk full''\<rparr> (state_of reporting_interp) []"
    using logging_never_fails [OF run, of None "[]" 0 "[]" "full_disk (context_of reporting_interp)
        (log_record_of 0 level_info ''hello'' [] (meta (state_of reporting_interp))) []"]
    by (simp add: plain_host_def reporting_interp_def plain_interp_def new_state_def full_disk_def)
  then show ?thesis
    using run by (simp add: log_info_def report_def reporting_interp_def plain_interp_def new_state_def)
qed

subsection \<open>Files\<close>

text \<open>What is asked of a file system; \<^verbatim>\<open>os\<close> answers the same without a context.\<close>

record ('v, 'w, 'i, 'd) file_calls =
  call_read_file :: "string \<Rightarrow> ('v, 'w, go_err + string) callback"
  call_write_file :: "string \<Rightarrow> string \<Rightarrow> nat \<Rightarrow> ('v, 'w, go_err + unit) callback"
  call_stat :: "string \<Rightarrow> ('v, 'w, go_err + 'i) callback"
  call_read_dir :: "string \<Rightarrow> ('v, 'w, go_err + 'd list) callback"
  call_mkdir_all :: "string \<Rightarrow> nat \<Rightarrow> ('v, 'w, go_err + unit) callback"
  call_remove :: "string \<Rightarrow> ('v, 'w, go_err + unit) callback"
  call_rename :: "string \<Rightarrow> string \<Rightarrow> ('v, 'w, go_err + unit) callback"

type_synonym ('v, 'c, 'w, 'i, 'd) file_system = "'c \<Rightarrow> ('v, 'w, 'i, 'd) file_calls"

datatype io_operation = IOReadFile | IOWriteFile | IOStat | IOReadDir | IOMkdirAll | IORemove | IORename

fun io_operation_string :: "io_operation \<Rightarrow> string" where
  "io_operation_string IOReadFile = ''read-file''"
| "io_operation_string IOWriteFile = ''write-file''"
| "io_operation_string IOStat = ''stat''"
| "io_operation_string IOReadDir = ''read-dir''"
| "io_operation_string IOMkdirAll = ''mkdir-all''"
| "io_operation_string IORemove = ''remove''"
| "io_operation_string IORename = ''rename''"

record io_error =
  io_operation :: io_operation
  io_path :: string
  io_target_path :: string
  io_err :: go_err

text \<open>\<open>quoted\<close> is \<^verbatim>\<open>fmt\<close>'s \<^verbatim>\<open>%q\<close>.\<close>

definition io_error_text :: "(string \<Rightarrow> string) \<Rightarrow> io_error \<Rightarrow> string" where
  "io_error_text quoted e =
     (if io_target_path e = []
      then io_operation_string (io_operation e) @ '' '' @ quoted (io_path e) @ '': '' @ err_text (io_err e)
      else io_operation_string (io_operation e) @ '' '' @ quoted (io_path e) @ '' -> '' @ quoted (io_target_path e)
        @ '': '' @ err_text (io_err e))"

definition io_error_unwrap :: "io_error \<Rightarrow> go_err" where
  "io_error_unwrap e = io_err e"

record file_operation =
  file_name :: io_operation
  file_path :: string
  file_target_path :: string

text \<open>\<open>as_failure\<close> is the erasure of an \<open>io_error\<close> into a typed failure.\<close>

definition filesystem_effect ::
  "('v, 'c, 'w) host \<Rightarrow> ('v, 'c, 'w, 'i, 'd) file_system \<Rightarrow> (io_error \<Rightarrow> 'v) \<Rightarrow> file_operation
     \<Rightarrow> (('v, 'w, 'i, 'd) file_calls \<Rightarrow> ('v, 'w, go_err + 'a) callback) \<Rightarrow> ('v, 'c, 'w, 'a) fx" where
  "filesystem_effect h files as_failure op execute = from_runtime h (\<lambda>I w.
     case execute (files (context_of I)) w of
       None \<Rightarrow> None
     | Some (Inl p, w1) \<Rightarrow> Some (Inl p, w1)
     | Some (Inr r, w1) \<Rightarrow>
         (case interruption_reason h (context_of I) w1 of
            (Some reason, w2) \<Rightarrow> Some (Inr (Inl (interrupt_cause (Some reason))), w2)
          | (None, w2) \<Rightarrow>
              Some (Inr (map_sum (\<lambda>e. fail_cause (as_failure \<lparr>io_operation = file_name op, io_path = file_path op,
                 io_target_path = file_target_path op, io_err = e\<rparr>)) id r), w2)))"

definition read_file ::
  "('v, 'c, 'w) host \<Rightarrow> ('v, 'c, 'w, 'i, 'd) file_system \<Rightarrow> (io_error \<Rightarrow> 'v) \<Rightarrow> string \<Rightarrow> ('v, 'c, 'w, string) fx" where
  "read_file h files f p = filesystem_effect h files f \<lparr>file_name = IOReadFile, file_path = p, file_target_path = []\<rparr>
     (\<lambda>fs. call_read_file fs p)"

definition write_file ::
  "('v, 'c, 'w) host \<Rightarrow> ('v, 'c, 'w, 'i, 'd) file_system \<Rightarrow> (io_error \<Rightarrow> 'v) \<Rightarrow> string \<Rightarrow> string \<Rightarrow> nat
     \<Rightarrow> ('v, 'c, 'w, unit) fx" where
  "write_file h files f p contents permissions =
     filesystem_effect h files f \<lparr>file_name = IOWriteFile, file_path = p, file_target_path = []\<rparr>
       (\<lambda>fs. call_write_file fs p contents permissions)"

definition stat_file ::
  "('v, 'c, 'w) host \<Rightarrow> ('v, 'c, 'w, 'i, 'd) file_system \<Rightarrow> (io_error \<Rightarrow> 'v) \<Rightarrow> string \<Rightarrow> ('v, 'c, 'w, 'i) fx" where
  "stat_file h files f p = filesystem_effect h files f \<lparr>file_name = IOStat, file_path = p, file_target_path = []\<rparr>
     (\<lambda>fs. call_stat fs p)"

definition read_dir ::
  "('v, 'c, 'w) host \<Rightarrow> ('v, 'c, 'w, 'i, 'd) file_system \<Rightarrow> (io_error \<Rightarrow> 'v) \<Rightarrow> string \<Rightarrow> ('v, 'c, 'w, 'd list) fx" where
  "read_dir h files f p = filesystem_effect h files f \<lparr>file_name = IOReadDir, file_path = p, file_target_path = []\<rparr>
     (\<lambda>fs. call_read_dir fs p)"

definition mkdir_all ::
  "('v, 'c, 'w) host \<Rightarrow> ('v, 'c, 'w, 'i, 'd) file_system \<Rightarrow> (io_error \<Rightarrow> 'v) \<Rightarrow> string \<Rightarrow> nat \<Rightarrow> ('v, 'c, 'w, unit) fx" where
  "mkdir_all h files f p permissions =
     filesystem_effect h files f \<lparr>file_name = IOMkdirAll, file_path = p, file_target_path = []\<rparr>
       (\<lambda>fs. call_mkdir_all fs p permissions)"

definition remove_file ::
  "('v, 'c, 'w) host \<Rightarrow> ('v, 'c, 'w, 'i, 'd) file_system \<Rightarrow> (io_error \<Rightarrow> 'v) \<Rightarrow> string \<Rightarrow> ('v, 'c, 'w, unit) fx" where
  "remove_file h files f p = filesystem_effect h files f \<lparr>file_name = IORemove, file_path = p, file_target_path = []\<rparr>
     (\<lambda>fs. call_remove fs p)"

definition rename_file ::
  "('v, 'c, 'w) host \<Rightarrow> ('v, 'c, 'w, 'i, 'd) file_system \<Rightarrow> (io_error \<Rightarrow> 'v) \<Rightarrow> string \<Rightarrow> string \<Rightarrow> ('v, 'c, 'w, unit) fx" where
  "rename_file h files f p q = filesystem_effect h files f \<lparr>file_name = IORename, file_path = p, file_target_path = q\<rparr>
     (\<lambda>fs. call_rename fs p q)"

subsection \<open>The live services\<close>

text \<open>\<open>context.Cause\<close> is looked at before the operating system is asked.\<close>

definition checked ::
  "('v, 'c, 'w) host \<Rightarrow> 'c \<Rightarrow> ('v, 'w, go_err + 'a) callback \<Rightarrow> ('v, 'w, go_err + 'a) callback" where
  "checked h ctx call w =
     (case ctx_err h ctx w of
        ((None, _), w1) \<Rightarrow> call w1
      | ((Some e, reason), w1) \<Rightarrow> Some (Inr (Inl (case reason of Some r \<Rightarrow> r | None \<Rightarrow> e)), w1))"

definition live_file_system ::
  "('v, 'c, 'w) host \<Rightarrow> ('v, 'w, 'i, 'd) file_calls \<Rightarrow> ('v, 'c, 'w, 'i, 'd) file_system" where
  "live_file_system h os ctx =
     \<lparr>call_read_file = (\<lambda>p. checked h ctx (call_read_file os p)),
      call_write_file = (\<lambda>p contents permissions. checked h ctx (call_write_file os p contents permissions)),
      call_stat = (\<lambda>p. checked h ctx (call_stat os p)),
      call_read_dir = (\<lambda>p. checked h ctx (call_read_dir os p)),
      call_mkdir_all = (\<lambda>p permissions. checked h ctx (call_mkdir_all os p permissions)),
      call_remove = (\<lambda>p. checked h ctx (call_remove os p)),
      call_rename = (\<lambda>p q. checked h ctx (call_rename os p q))\<rparr>"

text \<open>
  The live clock's wait: \<open>fires d ctx\<close> is the \<open>select\<close> between a timer of \<open>d\<close> nanoseconds, which answers
  \<open>True\<close>, and the context being done.
\<close>

definition live_sleep ::
  "('v, 'c, 'w) host \<Rightarrow> (int \<Rightarrow> 'c \<Rightarrow> 'w \<Rightarrow> (bool \<times> 'w) option) \<Rightarrow> 'c \<Rightarrow> int \<Rightarrow> 'w \<Rightarrow> (nilable_err \<times> 'w) option" where
  "live_sleep h fires ctx d w =
     (case fires (if d < 0 then 0 else d) ctx w of
        None \<Rightarrow> None
      | Some (True, w1) \<Rightarrow> Some (None, w1)
      | Some (False, w1) \<Rightarrow>
          (case ctx_err h ctx w1 of ((err, reason), w2) \<Rightarrow> Some (cancellation_reason err reason, w2)))"

text \<open>A handler of \<^verbatim>\<open>log/slog\<close>: whether it takes a level, and its handling of a record.\<close>

definition live_logger ::
  "('c \<Rightarrow> int \<Rightarrow> 'w \<Rightarrow> bool) \<Rightarrow> ('c \<Rightarrow> int \<Rightarrow> int \<Rightarrow> string \<Rightarrow> attr list \<Rightarrow> ('v, 'w, nilable_err) callback)
     \<Rightarrow> ('v, 'c, 'w) logger_port" where
  "live_logger enabled handle ctx r w =
     (if \<not> enabled ctx (log_level r) w then Some (Inr None, w)
      else handle ctx (log_timestamp r) (log_level r) (log_message r) (log_fields r) w)"

fun fault_component_string :: "fault_component \<Rightarrow> string" where
  "fault_component_string FaultLogger = ''logger''"
| "fault_component_string FaultObserver = ''observer''"
| "fault_component_string FaultRuntime = ''runtime''"

definition live_diagnostics ::
  "(string \<Rightarrow> string) \<Rightarrow> (string \<Rightarrow> 'w \<Rightarrow> 'w) \<Rightarrow> 'c \<Rightarrow> runtime_fault \<Rightarrow> 'w \<Rightarrow> string option \<times> 'w" where
  "live_diagnostics quoted write _ f w =
     (None, write (''effect: '' @ fault_component_string (component f) @ '' fault during '' @ quoted (fault_operation f)
       @ '': '' @ fault_err f @ [CHR 0x0A]) w)"

text \<open>
  An operation that finds its context cancelled is interrupted and leaves the files alone; one whose
  context stays live fails with the operating system's error, its operation and its paths, and
  otherwise gives its answer.
\<close>

lemma cancelled_file_effect_leaves_files:
  assumes "ctx_err h (context_of I) w = ((None, r), w0)"
    and "ctx_err h (context_of I) w0 = ((Some e, reason), w1)"
    and "ctx_err h (context_of I) w1 = ((Some e', reason'), w2)"
    and "execute (live_file_system h os (context_of I)) = checked h (context_of I) call"
  shows "\<exists>c. filesystem_effect h (live_file_system h os) f op execute I w = Some (Inl (interrupt_cause (Some c)), w2)"
  using assms
  by (auto simp: filesystem_effect_def from_runtime_def at_checkpoint_def machine_interrupt_def guarded_def capture_def
      checked_def interruption_reason_def cancellation_reason_def split: option.split)

lemma live_file_effect_answers:
  assumes "ctx_err h (context_of I) w = ((None, r), w0)" "ctx_err h (context_of I) w0 = ((None, r'), w1)"
    and "call w1 = Some (Inr answer, w2)" "ctx_err h (context_of I) w2 = ((None, r''), w3)"
    and "execute (live_file_system h os (context_of I)) = checked h (context_of I) call"
  shows "filesystem_effect h (live_file_system h os) f op execute I w =
    Some (case answer of
        Inl e \<Rightarrow> Inl (fail_cause (f \<lparr>io_operation = file_name op, io_path = file_path op,
          io_target_path = file_target_path op, io_err = e\<rparr>))
      | Inr a \<Rightarrow> Inr a, w3)"
  using assms
  by (auto simp: filesystem_effect_def from_runtime_def at_checkpoint_def machine_interrupt_def guarded_def capture_def
      checked_def interruption_reason_def split: sum.split)

subsection \<open>Recording services\<close>

text \<open>The recorders of \<^verbatim>\<open>effecttest\<close>, as functions on what they have recorded.\<close>

definition track :: "string \<Rightarrow> string list \<Rightarrow> string list" where
  "track e events = events @ [e]"

definition tracked :: "string list \<Rightarrow> string list" where
  "tracked events = events"

definition times_tracked :: "string \<Rightarrow> string list \<Rightarrow> int" where
  "times_tracked e events = foldl (\<lambda>total entry. if entry = e then total + 1 else total) 0 events"

definition record_log :: "'c \<Rightarrow> log_record \<Rightarrow> log_record list \<Rightarrow> nilable_err \<times> log_record list" where
  "record_log _ r records = (None, records @ [r])"

definition recorded_logs :: "log_record list \<Rightarrow> log_record list" where
  "recorded_logs records = records"

definition record_fault :: "'c \<Rightarrow> runtime_fault \<Rightarrow> runtime_fault list \<Rightarrow> runtime_fault list" where
  "record_fault _ f faults = faults @ [f]"

definition recorded_faults :: "runtime_fault list \<Rightarrow> runtime_fault list" where
  "recorded_faults faults = faults"

lemma times_tracked_count: "times_tracked e events = int (count_list events e)"
proof -
  have "foldl (\<lambda>total entry. if entry = e then total + 1 else total) n events = n + int (count_list events e)" for n
    by (induction events arbitrary: n) auto
  then show ?thesis by (simp add: times_tracked_def)
qed

text \<open>A stub answers its own error for an operation that was not set.\<close>

definition err_unimplemented_operation :: go_err where
  "err_unimplemented_operation = GoErr 40 ''effecttest: filesystem operation is not implemented'' []"

record ('v, 'c, 'w, 'i, 'd) file_system_stub =
  stub_read_file :: "('c \<Rightarrow> string \<Rightarrow> ('v, 'w, go_err + string) callback) option"
  stub_write_file :: "('c \<Rightarrow> string \<Rightarrow> string \<Rightarrow> nat \<Rightarrow> ('v, 'w, go_err + unit) callback) option"
  stub_stat :: "('c \<Rightarrow> string \<Rightarrow> ('v, 'w, go_err + 'i) callback) option"
  stub_read_dir :: "('c \<Rightarrow> string \<Rightarrow> ('v, 'w, go_err + 'd list) callback) option"
  stub_mkdir_all :: "('c \<Rightarrow> string \<Rightarrow> nat \<Rightarrow> ('v, 'w, go_err + unit) callback) option"
  stub_remove :: "('c \<Rightarrow> string \<Rightarrow> ('v, 'w, go_err + unit) callback) option"
  stub_rename :: "('c \<Rightarrow> string \<Rightarrow> string \<Rightarrow> ('v, 'w, go_err + unit) callback) option"

definition unimplemented :: "('v, 'w, go_err + 'a) callback" where
  "unimplemented w = Some (Inr (Inl err_unimplemented_operation), w)"

definition stub_file_system ::
  "('v, 'c, 'w, 'i, 'd) file_system_stub \<Rightarrow> ('v, 'c, 'w, 'i, 'd) file_system" where
  "stub_file_system s ctx =
     \<lparr>call_read_file = (\<lambda>p. case stub_read_file s of None \<Rightarrow> unimplemented | Some f \<Rightarrow> f ctx p),
      call_write_file = (\<lambda>p b m. case stub_write_file s of None \<Rightarrow> unimplemented | Some f \<Rightarrow> f ctx p b m),
      call_stat = (\<lambda>p. case stub_stat s of None \<Rightarrow> unimplemented | Some f \<Rightarrow> f ctx p),
      call_read_dir = (\<lambda>p. case stub_read_dir s of None \<Rightarrow> unimplemented | Some f \<Rightarrow> f ctx p),
      call_mkdir_all = (\<lambda>p m. case stub_mkdir_all s of None \<Rightarrow> unimplemented | Some f \<Rightarrow> f ctx p m),
      call_remove = (\<lambda>p. case stub_remove s of None \<Rightarrow> unimplemented | Some f \<Rightarrow> f ctx p),
      call_rename = (\<lambda>p q. case stub_rename s of None \<Rightarrow> unimplemented | Some f \<Rightarrow> f ctx p q)\<rparr>"

end
