(* ===== verification/Runtime_Host.thy ===== *)
theory Runtime_Host
  imports Platform_Services Scoped_Effects Cause_Report
begin

section \<open>The runtime\<close>

text \<open>
  \<^verbatim>\<open>effect/runtime_options.go\<close>, \<^verbatim>\<open>effect/runtime.go\<close> and \<^verbatim>\<open>effect/process.go\<close>: the capabilities a
  runtime is built from, the lifetime a run opens and closes around its effect, and the closing of the
  root lifetime, which releases, flushes and reports. A world is the memory of one runtime: its root
  scope and its ledger share an address. A call that panics answers \<open>Inl\<close> of the panic's value.
\<close>

subsection \<open>Options\<close>

record 'w clock_port =
  port_now :: "'w \<Rightarrow> int \<times> 'w"

record ('c, 'w) sleeping_clock = "'w clock_port" +
  port_sleep :: "'c \<Rightarrow> int \<Rightarrow> 'w \<Rightarrow> (nilable_err \<times> 'w) option"

text \<open>A logger and an observer may also be a \<^verbatim>\<open>Flusher\<close>.\<close>

type_synonym ('v, 'c, 'w) flusher = "'c \<Rightarrow> ('v, 'w, nilable_err) callback"

record ('v, 'c, 'w) logger_service =
  log_call :: "('v, 'c, 'w) logger_port"
  logger_flush :: "('v, 'c, 'w) flusher option"

record ('v, 'c, 'w) observer_service =
  observe_call :: "'c \<Rightarrow> runtime_event \<Rightarrow> 'w \<Rightarrow> string option \<times> 'w"
  observer_flush :: "('v, 'c, 'w) flusher option"

record ('v, 'c, 'w, 'i, 'd) runtime_config =
  set_clock :: "('c, 'w) sleeping_clock"
  set_files :: "('v, 'c, 'w, 'i, 'd) file_system"
  set_logger :: "('v, 'c, 'w) logger_service"
  set_observer :: "('v, 'c, 'w) observer_service option"
  set_diagnostics :: "'c \<Rightarrow> runtime_fault \<Rightarrow> 'w \<Rightarrow> string option \<times> 'w"
  set_config_source :: source
  set_tracking :: bool

text \<open>An option carries the interface value it was given, which may be nil.\<close>

datatype ('v, 'c, 'w, 'i, 'd) runtime_option =
    ClockOption "('c, 'w) sleeping_clock option"
  | FileSystemOption "('v, 'c, 'w, 'i, 'd) file_system option"
  | LoggerOption "('v, 'c, 'w) logger_service option"
  | ConfigSourceOption "source option"
  | DebugTracking
  | DiagnosticsOption "('c \<Rightarrow> runtime_fault \<Rightarrow> 'w \<Rightarrow> string option \<times> 'w) option"
  | ObserverOption "('v, 'c, 'w) observer_service option"

fun apply_option ::
  "('v, 'c, 'w, 'i, 'd) runtime_option \<Rightarrow> ('v, 'c, 'w, 'i, 'd) runtime_config
     \<Rightarrow> string + ('v, 'c, 'w, 'i, 'd) runtime_config" where
  "apply_option (ClockOption None) s = Inl ''effect: Clock capability must not be nil''"
| "apply_option (ClockOption (Some c)) s = Inr (s\<lparr>set_clock := c\<rparr>)"
| "apply_option (FileSystemOption None) s = Inl ''effect: FileSystem capability must not be nil''"
| "apply_option (FileSystemOption (Some f)) s = Inr (s\<lparr>set_files := f\<rparr>)"
| "apply_option (LoggerOption None) s = Inl ''effect: Logger capability must not be nil''"
| "apply_option (LoggerOption (Some l)) s = Inr (s\<lparr>set_logger := l\<rparr>)"
| "apply_option (ConfigSourceOption None) s = Inl ''effect: ConfigSource capability must not be nil''"
| "apply_option (ConfigSourceOption (Some src)) s = Inr (s\<lparr>set_config_source := src\<rparr>)"
| "apply_option DebugTracking s = Inr (s\<lparr>set_tracking := True\<rparr>)"
| "apply_option (DiagnosticsOption None) s = Inl ''effect: Diagnostics capability must not be nil''"
| "apply_option (DiagnosticsOption (Some d)) s = Inr (s\<lparr>set_diagnostics := d\<rparr>)"
| "apply_option (ObserverOption None) s = Inl ''effect: Observer must not be nil''"
| "apply_option (ObserverOption (Some ob)) s = Inr (s\<lparr>set_observer := Some ob\<rparr>)"

fun apply_options ::
  "('v, 'c, 'w, 'i, 'd) runtime_option option list \<Rightarrow> ('v, 'c, 'w, 'i, 'd) runtime_config
     \<Rightarrow> string + ('v, 'c, 'w, 'i, 'd) runtime_config" where
  "apply_options [] s = Inr s"
| "apply_options (None # os) s = Inl ''effect: RuntimeOption must not be nil''"
| "apply_options (Some o' # os) s =
     (case apply_option o' s of Inl err \<Rightarrow> Inl err | Inr s' \<Rightarrow> apply_options os s')"

record ('v, 'c, 'w, 'i, 'd) runtime =
  rt_state :: "('c, 'w) state"
  rt_root :: nat
  rt_ledger :: "nat option"
  rt_setup :: "('v, 'c, 'w, 'i, 'd) runtime_config"

definition capabilities_of :: "('v, 'c, 'w, 'i, 'd) runtime_config \<Rightarrow> ('c, 'w) capabilities" where
  "capabilities_of s =
     \<lparr>clock_now = port_now (set_clock s), clock_sleep = port_sleep (set_clock s),
      observer = map_option observe_call (set_observer s), diagnostics = Some (set_diagnostics s),
      config_source = Some (set_config_source s)\<rparr>"

text \<open>\<open>live_defaults\<close> is the set of live services, and \<open>background\<close> the context of no parent.\<close>

definition new_runtime ::
  "('v, 'c, ('f, 'v, 'z) heap_scheme) host \<Rightarrow> 'c \<Rightarrow> ('v, 'c, ('f, 'v, 'z) heap_scheme, 'i, 'd) runtime_config
     \<Rightarrow> ('v, 'c, ('f, 'v, 'z) heap_scheme, 'i, 'd) runtime_option option list \<Rightarrow> ('f, 'v, 'z) heap_scheme
     \<Rightarrow> (string + ('v, 'c, ('f, 'v, 'z) heap_scheme, 'i, 'd) runtime) \<times> ('f, 'v, 'z) heap_scheme" where
  "new_runtime h background live_defaults options w =
     (case apply_options options (live_defaults\<lparr>set_observer := None, set_tracking := False\<rparr>) of
        Inl err \<Rightarrow> (Inl err, w)
      | Inr s \<Rightarrow>
          (case new_scope_at h background w of
             (root, w1) \<Rightarrow>
               let l = (if set_tracking s then Some root else None) in
               (case new_state (capabilities_of s) root l of
                  (st, ids) \<Rightarrow>
                    (Inr \<lparr>rt_state = st, rt_root = root, rt_ledger = l, rt_setup = s\<rparr>,
                     w1\<lparr>identity_cell := ids, ledger_heap := (ledger_heap w1)(root :=
                       \<lparr>fiber_starts = 0, fiber_completions = 0, acquisitions = 0, releases = 0\<rparr>)\<rparr>))))"

subsection \<open>Running\<close>

definition compose_cleanup :: "'v cause + 'a \<Rightarrow> 'v cause \<Rightarrow> 'v cause + 'a" where
  "compose_cleanup x cleanup = (if is_empty cleanup then x else Inl (then_cause (cause_part x) cleanup))"

definition runtime_run ::
  "('v, 'c, ('f, 'v, 'z) heap_scheme) host \<Rightarrow> ('v, 'c, ('f, 'v, 'z) heap_scheme, 'f) scope_host \<Rightarrow> ('a \<Rightarrow> 'v)
     \<Rightarrow> ('v, 'c, ('f, 'v, 'z) heap_scheme, 'i, 'd) runtime option \<Rightarrow> 'c \<Rightarrow> 'v \<Rightarrow> ('v, 'c, ('f, 'v, 'z) heap_scheme, 'a) fx
     \<Rightarrow> ('v, ('f, 'v, 'z) heap_scheme, 'v cause + 'a) callback" where
  "runtime_run h S any_of rt ctx env fx w =
     (case rt of
        None \<Rightarrow> Some (Inl (string_value h ''effect: nil Runtime''), w)
      | Some r \<Rightarrow>
          (case new_scope_at h ctx w of
             (k, w1) \<Rightarrow>
               (case fx \<lparr>context_of = child_context S ctx k, state_of = with_scope k (rt_state r), environment = env\<rparr> w1 of
                  None \<Rightarrow> None
                | Some (x, w2) \<Rightarrow>
                    map_option (\<lambda>(cleanup, w3). (Inr (compose_cleanup x cleanup), w3))
                      (close_at h S k ctx (erase_exit any_of x) (scope_closed S) w2))))"

subsection \<open>Closing\<close>

definition live_work_of ::
  "('v, 'c, ('f, 'v, 'z) heap_scheme, 'i, 'd) runtime \<Rightarrow> ('f, 'v, 'z) heap_scheme \<Rightarrow> live_work" where
  "live_work_of r w = live (map_option (ledger_heap w) (rt_ledger r))"

definition report_remaining_work ::
  "('v, 'c, ('f, 'v, 'z) heap_scheme, 'i, 'd) runtime \<Rightarrow> 'c \<Rightarrow> ('f, 'v, 'z) heap_scheme \<Rightarrow> ('f, 'v, 'z) heap_scheme" where
  "report_remaining_work r ctx w =
     (let work = live_work_of r w in
      if live_is_empty work then w
      else Runtime_State.report ctx \<lparr>component = FaultRuntime, fault_operation = ''close'',
        fault_err = ''effect: '' @ decimal (live_fibers work) @ '' fiber(s) and '' @ decimal (live_resources work)
          @ '' resource(s) were still owned at Close''\<rparr> (rt_state r) w)"

text \<open>\<open>fault_value\<close> is the conversion of a fault to \<^verbatim>\<open>any\<close>.\<close>

definition flush_one ::
  "('v, 'c, 'w) host \<Rightarrow> (runtime_fault \<Rightarrow> 'v) \<Rightarrow> 'c \<Rightarrow> ('v, 'c, 'w) flusher option \<Rightarrow> fault_component
     \<Rightarrow> ('v, 'w, 'v cause) callback" where
  "flush_one h fault_value ctx flusher part w =
     (case flusher of
        None \<Rightarrow> Some (Inr Empty, w)
      | Some flush \<Rightarrow>
          (case flush ctx w of
             None \<Rightarrow> None
           | Some (Inl p, w1) \<Rightarrow> Some (Inl p, w1)
           | Some (Inr None, w1) \<Rightarrow> Some (Inr Empty, w1)
           | Some (Inr (Some err), w1) \<Rightarrow>
               Some (Inr (die_cause (capture_defect
                 (fault_value \<lparr>component = part, fault_operation = ''flush'', fault_err = err_text err\<rparr>)
                 (stack_trace h w1))), w1)))"

definition flush_capabilities ::
  "('v, 'c, 'w) host \<Rightarrow> (runtime_fault \<Rightarrow> 'v) \<Rightarrow> 'c \<Rightarrow> ('v, 'c, 'w, 'i, 'd) runtime_config
     \<Rightarrow> ('v, 'w, 'v cause) callback" where
  "flush_capabilities h fault_value ctx s w =
     (case flush_one h fault_value ctx (Option.bind (set_observer s) observer_flush) FaultObserver w of
        None \<Rightarrow> None
      | Some (Inl p, w1) \<Rightarrow> Some (Inl p, w1)
      | Some (Inr c, w1) \<Rightarrow>
          map_option (map_prod (map_sum id (then_cause c)) id)
            (flush_one h fault_value ctx (logger_flush (set_logger s)) FaultLogger w1))"

text \<open>\<open>unit_value\<close> is \<^verbatim>\<open>Unit{}\<close> and \<open>runtime_closed\<close> the sentinel of the root lifetime.\<close>

definition close_runtime ::
  "('v, 'c, ('f, 'v, 'z) heap_scheme) host \<Rightarrow> ('v, 'c, ('f, 'v, 'z) heap_scheme, 'f) scope_host
     \<Rightarrow> (runtime_fault \<Rightarrow> 'v) \<Rightarrow> 'v \<Rightarrow> nilable_err \<Rightarrow> ('v, 'c, ('f, 'v, 'z) heap_scheme, 'i, 'd) runtime option \<Rightarrow> 'c
     \<Rightarrow> ('v, ('f, 'v, 'z) heap_scheme, 'v cause) callback" where
  "close_runtime h S fault_value unit_value runtime_closed rt ctx w =
     (case rt of
        None \<Rightarrow> Some (Inl (string_value h ''effect: nil Runtime''), w)
      | Some r \<Rightarrow>
          (case emit_start ctx RuntimeClosing (rt_state r) (report_remaining_work r ctx w) of
             (start, w1) \<Rightarrow>
               (case close_at h S (rt_root r) ctx (Succeeded unit_value) runtime_closed w1 of
                  None \<Rightarrow> None
                | Some (cleanup, w2) \<Rightarrow>
                    (case flush_capabilities h fault_value ctx (rt_setup r) w2 of
                       None \<Rightarrow> None
                     | Some (Inl p, w3) \<Rightarrow> Some (Inl p, w3)
                     | Some (Inr flushed, w3) \<Rightarrow>
                         let c = then_cause cleanup flushed in
                         Some (Inr c, emit_end ctx RuntimeClosed start (cleanup_status c) (rt_state r) w3)))))"

text \<open>The package's \<open>Run\<close>: a runtime of its own, closed before it returns.\<close>

definition run_fx ::
  "('v, 'c, ('f, 'v, 'z) heap_scheme) host \<Rightarrow> ('v, 'c, ('f, 'v, 'z) heap_scheme, 'f) scope_host \<Rightarrow> ('a \<Rightarrow> 'v)
     \<Rightarrow> (runtime_fault \<Rightarrow> 'v) \<Rightarrow> 'v \<Rightarrow> nilable_err \<Rightarrow> 'c \<Rightarrow> ('v, 'c, ('f, 'v, 'z) heap_scheme, 'i, 'd) runtime_config
     \<Rightarrow> 'c \<Rightarrow> 'v \<Rightarrow> ('v, 'c, ('f, 'v, 'z) heap_scheme, 'a) fx \<Rightarrow> ('v, ('f, 'v, 'z) heap_scheme, 'v cause + 'a) callback" where
  "run_fx h S any_of fault_value unit_value runtime_closed background live_defaults ctx env fx w =
     (case new_runtime h background live_defaults [] w of
        (Inl err, w1) \<Rightarrow> Some (Inl (string_value h err), w1)
      | (Inr r, w1) \<Rightarrow>
          (case runtime_run h S any_of (Some r) ctx env fx w1 of
             None \<Rightarrow> None
           | Some (Inl p, w2) \<Rightarrow> Some (Inl p, w2)
           | Some (Inr x, w2) \<Rightarrow>
               map_option (map_prod (map_sum id (compose_cleanup x)) id)
                 (close_runtime h S fault_value unit_value runtime_closed (Some r) ctx w2)))"

text \<open>
  The body of \<open>main\<close>. \<open>notified\<close> is the context that a signal cancels and \<open>unnotify\<close> what ends the
  notification. The answer is the messages of the joined errors, none of them for a nil error.
\<close>

definition run_until_stopped ::
  "('v, 'c, ('f, 'v, 'z) heap_scheme) host \<Rightarrow> ('v, 'c, ('f, 'v, 'z) heap_scheme, 'f) scope_host \<Rightarrow> (unit \<Rightarrow> 'v)
     \<Rightarrow> (runtime_fault \<Rightarrow> 'v) \<Rightarrow> 'v \<Rightarrow> nilable_err \<Rightarrow> ('v \<Rightarrow> string) \<Rightarrow> 'c \<Rightarrow> 'c
     \<Rightarrow> (('f, 'v, 'z) heap_scheme \<Rightarrow> ('f, 'v, 'z) heap_scheme) \<Rightarrow> ('v, 'c, ('f, 'v, 'z) heap_scheme, 'i, 'd) runtime option
     \<Rightarrow> ('v, 'c, ('f, 'v, 'z) heap_scheme, unit) fx \<Rightarrow> ('v, ('f, 'v, 'z) heap_scheme, string list) callback" where
  "run_until_stopped h S any_of fault_value unit_value runtime_closed shown background notified unnotify rt program w =
     (case runtime_run h S any_of rt notified unit_value program w of
        None \<Rightarrow> None
      | Some (Inl p, w1) \<Rightarrow> Some (Inl p, unnotify w1)
      | Some (Inr x, w1) \<Rightarrow>
          let failure = (case x of
              Inr _ \<Rightarrow> []
            | Inl c \<Rightarrow> if has_interrupts_only c then [] else [the (cause_string shown c)])
          in (case close_runtime h S fault_value unit_value runtime_closed rt background w1 of
                None \<Rightarrow> None
              | Some (Inl p, w2) \<Rightarrow> Some (Inl p, unnotify w2)
              | Some (Inr c, w2) \<Rightarrow>
                  Some (Inr (if is_empty c then failure
                    else failure @ [''the runtime did not close cleanly: '' @ the (cause_string shown c)]), unnotify w2)))"

subsection \<open>What options do\<close>

text \<open>What an option overrides, and whether it refuses.\<close>

fun clock_override where
  "clock_override (Some (ClockOption c)) = c"
| "clock_override _ = None"

fun files_override where
  "files_override (Some (FileSystemOption f)) = f"
| "files_override _ = None"

fun logger_override where
  "logger_override (Some (LoggerOption l)) = l"
| "logger_override _ = None"

fun source_override where
  "source_override (Some (ConfigSourceOption src)) = src"
| "source_override _ = None"

fun diagnostics_override where
  "diagnostics_override (Some (DiagnosticsOption d)) = d"
| "diagnostics_override _ = None"

fun observer_override where
  "observer_override (Some (ObserverOption ob)) = ob"
| "observer_override _ = None"

fun refusal :: "('v, 'c, 'w, 'i, 'd) runtime_option option \<Rightarrow> string option" where
  "refusal None = Some ''effect: RuntimeOption must not be nil''"
| "refusal (Some (ClockOption None)) = Some ''effect: Clock capability must not be nil''"
| "refusal (Some (FileSystemOption None)) = Some ''effect: FileSystem capability must not be nil''"
| "refusal (Some (LoggerOption None)) = Some ''effect: Logger capability must not be nil''"
| "refusal (Some (ConfigSourceOption None)) = Some ''effect: ConfigSource capability must not be nil''"
| "refusal (Some (DiagnosticsOption None)) = Some ''effect: Diagnostics capability must not be nil''"
| "refusal (Some (ObserverOption None)) = Some ''effect: Observer must not be nil''"
| "refusal _ = None"

definition overridden where
  "overridden s os s' \<longleftrightarrow>
     set_clock s' = last (set_clock s # List.map_filter clock_override os)
   \<and> set_files s' = last (set_files s # List.map_filter files_override os)
   \<and> set_logger s' = last (set_logger s # List.map_filter logger_override os)
   \<and> set_config_source s' = last (set_config_source s # List.map_filter source_override os)
   \<and> set_diagnostics s' = last (set_diagnostics s # List.map_filter diagnostics_override os)
   \<and> set_observer s' = last (set_observer s # map Some (List.map_filter observer_override os))
   \<and> set_tracking s' = (set_tracking s \<or> Some DebugTracking \<in> set os)"

lemma apply_option_cases:
  "apply_option o' s = Inl err \<longleftrightarrow> refusal (Some o') = Some err"
  "apply_option o' s = Inr s' \<Longrightarrow> overridden s [Some o'] s'"
  by (induction o' s rule: apply_option.induct) (auto simp: overridden_def map_filter_simps)

lemma overridden_unique:
  fixes s1 s2 :: "('v, 'c, 'w, 'i, 'd) runtime_config"
  shows "overridden s os s1 \<Longrightarrow> overridden s os s2 \<Longrightarrow> s1 = s2"
  by (rule runtime_config.equality) (simp_all add: overridden_def)

lemma overridden_Nil: "overridden s [] s"
  by (simp add: overridden_def map_filter_simps)

lemma last_of_last: "last (last (a # xs) # ys) = last (a # xs @ ys)"
  by (cases ys) auto

lemma overridden_trans: "overridden s [o'] s1 \<Longrightarrow> overridden s1 os s2 \<Longrightarrow> overridden s (o' # os) s2"
  unfolding overridden_def
  by (simp add: map_filter_simps split: option.splits)

text \<open>
  What a runtime is built from. The first option that is nil or holds a nil capability is the
  error, whatever comes after it. Otherwise every capability is the last override that was given for
  it, or the live default, and work is counted precisely when debug tracking was asked for.
\<close>

theorem last_override_wins:
  "(apply_options os s = Inl err \<longleftrightarrow>
      (\<exists>o'. List.find (\<lambda>o'. refusal o' \<noteq> None) os = Some o' \<and> refusal o' = Some err))
   \<and> (apply_options os s = Inr s' \<longleftrightarrow> List.find (\<lambda>o'. refusal o' \<noteq> None) os = None \<and> overridden s os s')"
proof -
  have r: "(\<exists>o'. List.find (\<lambda>o'. refusal o' \<noteq> None) os = Some o' \<and> refusal o' = Some e)" if "apply_options os s = Inl e" for e
    using that
  proof (induction os s rule: apply_options.induct)
    case (3 o' os s)
    show ?case
    proof (cases "apply_option o' s")
      case (Inl err)
      then show ?thesis using 3 apply_option_cases(1) [of o' s err] by simp
    next
      case (Inr s0)
      then have "refusal (Some o') = None" using apply_option_cases(1) [of o' s] by (cases "refusal (Some o')") auto
      then show ?thesis using 3 Inr by auto
    qed
  qed auto
  have ov: "List.find (\<lambda>o'. refusal o' \<noteq> None) os = None \<and> overridden s os s1" if "apply_options os s = Inr s1" for s1
    using that
  proof (induction os s rule: apply_options.induct)
    case (3 o' os s)
    then obtain s0 where s0: "apply_option o' s = Inr s0" "apply_options os s0 = Inr s1"
      by (cases "apply_option o' s") auto
    then have "refusal (Some o') = None" using apply_option_cases(1) [of o' s] by (cases "refusal (Some o')") auto
    then show ?case using 3 s0 overridden_trans [OF apply_option_cases(2)] by auto
  qed (auto simp: overridden_Nil)
  show ?thesis
    using r ov overridden_unique by (cases "apply_options os s") (auto; blast)+
qed

subsection \<open>What ends with a run and with a runtime\<close>

text \<open>A close that returned: it took an open scope through all its finalizers, or it found it closed.\<close>

lemma close_at_SomeE:
  assumes "close_at h S k ctx x reason w = Some (c, w')"
  obtains (shut) "status (scope_in k w) \<noteq> ScopeOpen" "c = Empty"
  | (closes) w1 cs w2 where "status (scope_in k w) = ScopeOpen"
      "children_wait S k (closing_world (S\<lparr>scope_closed := reason\<rparr>) k x w) = Some w1"
      "release_chain h S (without_cancel h ctx) (rev (finalizers (scope_in k w))) x w1 = Some (cs, w2)"
      "c = foldl then_cause Empty cs" "w' = put_scope k (finish_close (scope_in k w2)) w2"
proof (cases "status (scope_in k w) = ScopeOpen")
  case True
  with assms obtain w1 where w1: "children_wait S k (closing_world (S\<lparr>scope_closed := reason\<rparr>) k x w) = Some w1"
    by (auto simp: close_at_def begin_close_def closing_world_def split: option.splits)
  with assms True obtain cs w2 where
    "release_chain h S (without_cancel h ctx) (rev (finalizers (scope_in k w))) x w1 = Some (cs, w2)"
    "c = foldl then_cause Empty cs" "w' = put_scope k (finish_close (scope_in k w2)) w2"
    by (auto simp: close_at_def begin_close_def closing_world_def release_closures_chain)
  with True w1 show thesis by (rule closes)
qed (use assms shut in \<open>auto simp: close_at_def begin_close_def\<close>)

lemma map_sum_Inr: "map_sum id f s = Inr b \<longleftrightarrow> (\<exists>a. s = Inr a \<and> b = f a)"
  by (cases s) auto

lemma leaves_in_order: "leaves (foldl then_cause c cs) = leaves c @ concat (map leaves cs)"
  by (rule foldl_append_concat) simp

lemma all_empty_then: "list_all is_empty cs \<Longrightarrow> foldl then_cause Empty cs = Empty"
  by (induction cs) simp_all

lemma leaves_compose_cleanup [simp]:
  "leaves (cause_part (compose_cleanup x c)) = leaves (cause_part x) @ leaves c"
  by (cases x) (simp_all add: compose_cleanup_def)

text \<open>
  C39: a run ends its lifetime. When \<open>Run\<close> returns, its effect has run in a scope of its own with the
  context derived for that scope; the fibers of the scope were joined, and then every finalizer it had
  accepted ran, the last first, with a context detached from the caller's cancellation; and the scope is
  closed. The answer is the effect's own outcome when no finalizer left a cause, and otherwise has its
  leaves followed by the finalizers' in the order they ran.
\<close>

theorem run_ends_its_lifetime:
  assumes opened: "new_scope_at h ctx w = (k, w1)"
    and ran: "runtime_run h S any_of (Some r) ctx env fx w = Some (y, w')"
  shows "\<exists>x w2 y'.
    fx \<lparr>context_of = child_context S ctx k, state_of = with_scope k (rt_state r), environment = env\<rparr> w1 = Some (x, w2)
    \<and> y = Inr y'
    \<and> (if status (scope_in k w2) = ScopeOpen
       then \<exists>w3 cs w4. children_wait S k (closing_world S k (erase_exit any_of x) w2) = Some w3
         \<and> release_chain h S (without_cancel h ctx) (rev (finalizers (scope_in k w2))) (erase_exit any_of x) w3 = Some (cs, w4)
         \<and> (list_all is_empty cs \<longrightarrow> y' = x)
         \<and> leaves (cause_part y') = leaves (cause_part x) @ concat (map leaves cs)
         \<and> w' = put_scope k (finish_close (scope_in k w4)) w4 \<and> status (scope_in k w') = ScopeClosed
       else y' = x)"
proof -
  from ran opened obtain x w2 where x: "fx \<lparr>context_of = child_context S ctx k,
      state_of = with_scope k (rt_state r), environment = env\<rparr> w1 = Some (x, w2)"
    by (auto simp: runtime_run_def split: option.splits)
  with ran opened obtain c where c: "close_at h S k ctx (erase_exit any_of x) (scope_closed S) w2 = Some (c, w')"
    "y = Inr (compose_cleanup x c)"
    by (auto simp: runtime_run_def)
  from c(1) show ?thesis
  proof (cases rule: close_at_SomeE)
    case shut
    then show ?thesis using x c(2) by (auto simp: compose_cleanup_def)
  next
    case (closes w3 cs w4)
    have "leaves (cause_part (compose_cleanup x c)) = leaves (cause_part x) @ concat (map leaves cs)"
      by (simp add: closes(4) leaves_in_order)
    moreover have "list_all is_empty cs \<longrightarrow> compose_cleanup x c = x"
      by (auto simp: closes(4) compose_cleanup_def all_empty_then)
    ultimately show ?thesis
      using x c(2) closes by (intro exI [of _ x] exI [of _ w2] exI [of _ "compose_cleanup x c"]) (simp add: finish_close_def)
  qed
qed


text \<open>A runtime in the logged world that runs the opening of a file.\<close>

definition logged_setup :: "(string, bool, logged, unit, unit) runtime_config" where
  "logged_setup = \<lparr>set_clock = \<lparr>port_now = (\<lambda>w. (0, w)), port_sleep = (\<lambda>_ _ w. Some (None, w))\<rparr>,
     set_files = (\<lambda>_. \<lparr>call_read_file = (\<lambda>_. unimplemented), call_write_file = (\<lambda>_ _ _. unimplemented),
       call_stat = (\<lambda>_. unimplemented), call_read_dir = (\<lambda>_. unimplemented), call_mkdir_all = (\<lambda>_ _. unimplemented),
       call_remove = (\<lambda>_. unimplemented), call_rename = (\<lambda>_ _. unimplemented)\<rparr>),
     set_logger = \<lparr>log_call = (\<lambda>_ r w. Some (Inr None, w\<lparr>log := log w @ [log_message r]\<rparr>)),
       logger_flush = Some (\<lambda>_ w. Some (Inr None, w\<lparr>log := log w @ [''flush'']\<rparr>))\<rparr>,
     set_observer = None, set_diagnostics = (\<lambda>_ f w. (None, w\<lparr>log := log w @ [fault_err f]\<rparr>)),
     set_config_source = from_map Map.empty, set_tracking = False\<rparr>"

definition logged_runtime :: "(string, bool, logged, unit, unit) runtime" where
  "logged_runtime = \<lparr>rt_state = logged_state, rt_root = 0, rt_ledger = Some 0, rt_setup = logged_setup\<rparr>"

definition open_file :: "(string, bool, logged, string) fx" where
  "open_file = acquire_release logged_host logged_scopes 0 (logging ''open file'' ''file'') (\<lambda>_ a. a)"

lemma opening_runs: "open_file inside_interp entered_world = Some (Inr ''file'', holding_world)"
proof -
  have "\<not> has_observer (state_of inside_interp)"
    by (simp add: inside_interp_def has_observer_def with_scope_def logged_defs)
  then show ?thesis
    using acquire_release_accepted [where acquire = "logging ''open file'' ''file''" and I = inside_interp
        and h = logged_host and S = logged_scopes and closure = "\<lambda>_ a. a" and k = 0 and w = entered_world] logged_acquires
    by (simp add: open_file_def holding_world_def)
qed

lemma file_closes:
  "release_chain logged_host logged_scopes False [''file''] x w =
     Some ([Empty], count_in_ledger record_release (state_of inside_interp) (w\<lparr>log := log w @ [''close file'']\<rparr>))"
  by (simp add: run_closure_def capture_def release_closure_def logged_defs fx_defs machine_interrupt_def
      inside_interp_def no_observer_no_event has_observer_def with_scope_def)

definition opened_file_closes :: logged where
  "opened_file_closes = closing_world logged_scopes 0 (Succeeded ''file'') holding_world"

lemma runtime_opens_file:
  "new_scope_at logged_host False logged_world = (0, entered_world)"
  "\<lparr>context_of = child_context logged_scopes False 0, state_of = with_scope 0 (rt_state logged_runtime), environment = []\<rparr>
     = inside_interp"
  using logged_entry(2) by (simp_all add: inside_interp_def logged_interp_def logged_runtime_def logged_scopes_def)

theorem run_ends_its_lifetime_witness:
  "map_option (map_prod id log) (runtime_run logged_host logged_scopes id (Some logged_runtime) False [] open_file logged_world)
   = Some (Inr (Inr ''file''), [''open file'', ''close file''])"
proof -
  have j: "children_wait logged_scopes 0 (closing_world logged_scopes 0 (Succeeded ''file'') holding_world) = Some opened_file_closes"
    by (simp add: logged_scopes_def opened_file_closes_def)
  have "close_at logged_host logged_scopes 0 False (Succeeded ''file'') (scope_closed logged_scopes) holding_world \<noteq> None"
    using close_at_open [OF logged_uses(2,3) j, of logged_host False] file_closes [of "Succeeded ''file''" opened_file_closes]
    by (simp add: logged_host_def)
  then obtain y w' where ran: "runtime_run logged_host logged_scopes id (Some logged_runtime) False [] open_file logged_world = Some (y, w')"
    by (auto simp: runtime_run_def runtime_opens_file opening_runs erase_exit_def)
  have c: "without_cancel logged_host False = False" by (simp add: logged_host_def)
  from run_ends_its_lifetime [OF runtime_opens_file(1) ran] have "y = Inr (Inr ''file'')"
    "\<exists>s. w' = put_scope 0 s (count_in_ledger record_release (state_of inside_interp)
       (opened_file_closes\<lparr>log := log opened_file_closes @ [''close file'']\<rparr>))"
    using j logged_uses(2,3) file_closes [of "Succeeded ''file''" opened_file_closes]
    by (auto simp: runtime_opens_file opening_runs erase_exit_def c simp del: scope_in_def release_chain.simps)
  moreover have "log opened_file_closes = [''open file'']"
    by (simp add: opened_file_closes_def closing_world_def put_scope_def put_close_exit_def holding_world_def holding_def
        count_in_ledger_def opened_world_def split: option.split)
  ultimately show ?thesis
    using ran by (auto simp: put_scope_def count_in_ledger_def split: option.split)
qed

text \<open>
  A runtime with an observer that holds events until it is flushed. Its last event, of the runtime that
  has closed, comes after the flush, so that such an observer never delivers it.
\<close>

definition buffered_setup :: "(string, bool, logged, unit, unit) runtime_config" where
  "buffered_setup = logged_setup\<lparr>set_observer := Some
     \<lparr>observe_call = (\<lambda>_ ev w. (None, w\<lparr>log := log w @ [event_kind_string (ev_kind ev)]\<rparr>)),
      observer_flush = Some (\<lambda>_ w. Some (Inr None, w\<lparr>log := log w @ [''deliver events'']\<rparr>))\<rparr>\<rparr>"

definition buffered_runtime :: "(string, bool, logged, unit, unit) runtime" where
  "buffered_runtime = \<lparr>rt_state = fst (new_state (capabilities_of buffered_setup) 0 (Some 0)), rt_root = 0,
     rt_ledger = Some 0, rt_setup = buffered_setup\<rparr>"

definition leaky_world :: logged where
  "leaky_world = logged_world\<lparr>ledger_heap := (\<lambda>_. \<lparr>fiber_starts = 2, fiber_completions = 1, acquisitions = 0, releases = 0\<rparr>)\<rparr>"

lemma buffered_closes:
  "map_option (map_prod id log) (close_runtime logged_host logged_scopes fault_err [] None (Some buffered_runtime) False leaky_world)
   = Some (Inr Empty, [''effect: 1 fiber(s) and 0 resource(s) were still owned at Close'', ''runtime_closing'',
       ''deliver events'', ''flush'', ''runtime_closed''])"
  by (simp add: close_runtime_def report_remaining_work_def live_work_of_def live_def live_is_empty_def
      Runtime_State.report_def emit_start_def emit_end_def emit_def event_def has_observer_def buffered_runtime_def
      buffered_setup_def logged_setup_def capabilities_of_def new_state_def leaky_world_def logged_world_def
      decimal_def decimal_digits [simplified] close_at_def begin_close_def put_scope_def put_close_exit_def interrupt_scope_def
      new_scope_def logged_scopes_def flush_capabilities_def flush_one_def Let_def finish_close_def)

definition leaky_closing :: "int \<times> logged" where
  "leaky_closing = emit_start False RuntimeClosing (rt_state buffered_runtime)
     (report_remaining_work buffered_runtime False leaky_world)"

lemma leaky_root_open:
  "status (scope_in 0 (snd leaky_closing)) = ScopeOpen" "finalizers (scope_in 0 (snd leaky_closing)) = []"
  by (simp_all add: leaky_closing_def emit_start_def report_remaining_work_def Runtime_State.report_def Let_def emit_def
      event_def has_observer_def buffered_runtime_def buffered_setup_def logged_setup_def capabilities_of_def new_state_def
      leaky_world_def logged_world_def new_scope_def)


end
