(* ===== verification/Classified_Faults.thy ===== *)
theory Classified_Faults
  imports Retry Rate_Limit
begin

section \<open>Faults with a kind, and waiting for a turn\<close>

text \<open>
  \<^verbatim>\<open>effect/fault/fault.go\<close>, \<^verbatim>\<open>effect/task.go\<close> and \<^verbatim>\<open>effect/rate/turn.go\<close>. What an error's dynamic type
  adds to its text is given by functions on errors: \<open>states\<close> is the kind it states when it implements
  \<^verbatim>\<open>Classified\<close>, and \<open>as_fault\<close> the fault it is when its type is \<^verbatim>\<open>fault.Fault\<close>.
\<close>

subsection \<open>Kinds\<close>

datatype fault_kind = KindUnavailable | KindMissing | KindUnreadable | KindUnacceptable

fun fault_kind_string :: "fault_kind \<Rightarrow> string" where
  "fault_kind_string KindMissing = ''missing''"
| "fault_kind_string KindUnreadable = ''unreadable''"
| "fault_kind_string KindUnacceptable = ''unacceptable''"
| "fault_kind_string _ = ''unavailable''"

text \<open>The library's \<open>errors.As\<close>: the first error of a type, depth first.\<close>

fun errors_as :: "(go_err \<Rightarrow> 'b option) \<Rightarrow> go_err \<Rightarrow> 'b option"
  and first_as :: "(go_err \<Rightarrow> 'b option) \<Rightarrow> go_err list \<Rightarrow> 'b option" where
  "errors_as f (GoErr i t ws) = (case f (GoErr i t ws) of Some b \<Rightarrow> Some b | None \<Rightarrow> first_as f ws)"
| "first_as f [] = None"
| "first_as f (e # es) = (case errors_as f e of Some b \<Rightarrow> Some b | None \<Rightarrow> first_as f es)"

definition kind_of :: "(go_err \<Rightarrow> fault_kind option) \<Rightarrow> nilable_err \<Rightarrow> fault_kind" where
  "kind_of states err =
     (case Option.bind err (errors_as states) of Some k \<Rightarrow> k | None \<Rightarrow> KindUnavailable)"

record fault =
  fault_kind :: fault_kind
  fault_subject :: string
  fault_cause :: nilable_err

definition about :: "fault_kind \<Rightarrow> string \<Rightarrow> nilable_err \<Rightarrow> fault" where
  "about k subject err = \<lparr>fault_kind = k, fault_subject = subject, fault_cause = err\<rparr>"

definition fault_from :: "(go_err \<Rightarrow> fault_kind option) \<Rightarrow> (go_err \<Rightarrow> fault option) \<Rightarrow> go_err \<Rightarrow> fault" where
  "fault_from states as_fault err =
     (case as_fault err of
        Some already \<Rightarrow> already
      | None \<Rightarrow> \<lparr>fault_kind = kind_of states (Some err), fault_subject = [], fault_cause = Some err\<rparr>)"

definition fault_unwrap :: "fault \<Rightarrow> nilable_err" where
  "fault_unwrap f = fault_cause f"

definition fault_message :: "fault \<Rightarrow> string" where
  "fault_message f = (case fault_cause f of None \<Rightarrow> fault_kind_string (fault_kind f) | Some e \<Rightarrow> err_text e)"

definition fault_error :: "fault \<Rightarrow> string" where
  "fault_error f =
     (if fault_subject f = [] then fault_kind_string (fault_kind f) @ '': '' @ fault_message f
      else fault_kind_string (fault_kind f) @ '': '' @ fault_subject f @ '': '' @ fault_message f)"

text \<open>A fault as the error it is: its own text, with its cause to unwrap.\<close>

definition error_of_fault :: "nat \<Rightarrow> fault \<Rightarrow> go_err" where
  "error_of_fault i f = GoErr i (fault_error f) (case fault_cause f of None \<Rightarrow> [] | Some e \<Rightarrow> [e])"

text \<open>
  Adopting an error keeps what a caller decides on. The fault it becomes has the kind that the first
  classified error of its chain states, or is unavailable when none does; adopting it again changes
  nothing; and wrapping it -- in a fault about a subject or in an error of the program -- and adopting
  that again gives the kind of the outermost fault.
\<close>

theorem adopting_keeps_the_kind:
  assumes "\<And>e f. as_fault e = Some f \<Longrightarrow> states e = Some (fault_kind f)"
  shows "fault_kind (fault_from states as_fault e) = kind_of states (Some e)
    \<and> (as_fault (error_of_fault i (fault_from states as_fault e)) = Some (fault_from states as_fault e) \<longrightarrow>
        fault_from states as_fault (error_of_fault i (fault_from states as_fault e)) = fault_from states as_fault e)
    \<and> (as_fault (error_of_fault i (about k subject (Some e))) = Some (about k subject (Some e))
        \<and> as_fault (GoErr j text [error_of_fault i (about k subject (Some e))]) = None
        \<and> states (GoErr j text [error_of_fault i (about k subject (Some e))]) = None \<longrightarrow>
        fault_from states as_fault (GoErr j text [error_of_fault i (about k subject (Some e))]) =
          about k [] (Some (GoErr j text [error_of_fault i (about k subject (Some e))])))"
proof (intro conjI impI)
  show "fault_kind (fault_from states as_fault e) = kind_of states (Some e)"
  proof (cases "as_fault e")
    case None
    then show ?thesis by (simp add: fault_from_def)
  next
    case (Some f)
    then show ?thesis using assms [OF Some] by (cases e) (simp add: fault_from_def kind_of_def)
  qed
next
  assume "as_fault (error_of_fault i (fault_from states as_fault e)) = Some (fault_from states as_fault e)"
  then show "fault_from states as_fault (error_of_fault i (fault_from states as_fault e)) = fault_from states as_fault e"
    by (simp add: fault_from_def [of states as_fault "error_of_fault i (fault_from states as_fault e)"])
next
  let ?inner = "error_of_fault i (about k subject (Some e))"
  assume a: "as_fault ?inner = Some (about k subject (Some e))
    \<and> as_fault (GoErr j text [?inner]) = None \<and> states (GoErr j text [?inner]) = None"
  then have "states ?inner = Some k" using assms [of ?inner] by (simp add: about_def)
  then have "errors_as states ?inner = Some k" by (simp add: error_of_fault_def)
  with a show "fault_from states as_fault (GoErr j text [?inner]) = about k [] (Some (GoErr j text [?inner]))"
    by (simp add: fault_from_def kind_of_def about_def)
qed

subsection \<open>Tasks\<close>

definition from_value :: "('v, 'c, 'w) host \<Rightarrow> 'a \<Rightarrow> ('v, 'c, 'w, 'a) fx" where
  "from_value h a = succeed h a"

text \<open>\<open>site\<close> is the caller's line and \<open>as_failure\<close> the erasure of a fault.\<close>

definition from_fault :: "('v, 'c, 'w) host \<Rightarrow> (fault \<Rightarrow> 'v) \<Rightarrow> string \<Rightarrow> fault \<Rightarrow> ('v, 'c, 'w, 'a) fx" where
  "from_fault h as_failure site f =
     fail_with_cause h (with_origin (fail_cause (as_failure f)) \<lparr>source = site, operation = []\<rparr>)"

definition done_task :: "('v, 'c, 'w) host \<Rightarrow> ('v, 'c, 'w, unit) fx" where
  "done_task h = from_value h ()"

subsection \<open>Waiting for a turn\<close>

text \<open>
  A limiter is a service: it answers an error or how long the turn is away. \<open>as_rate_fault\<close> is the
  rate fault an error is by its type.
\<close>

type_synonym ('v, 'c, 'w) limiter_port = "'c \<Rightarrow> allowance \<Rightarrow> int \<Rightarrow> ('v, 'w, go_err + int) callback"

definition rate_fault_of :: "(go_err \<Rightarrow> rate_fault option) \<Rightarrow> allowance \<Rightarrow> go_err \<Rightarrow> rate_fault" where
  "rate_fault_of as_rate_fault a err =
     (case errors_as as_rate_fault err of
        Some f \<Rightarrow> f
      | None \<Rightarrow> \<lparr>fault_allowance = allowance_name a, fault_err = Some err\<rparr>)"

definition rate_fault_kind :: "(go_err \<Rightarrow> fault_kind option) \<Rightarrow> rate_fault \<Rightarrow> fault_kind" where
  "rate_fault_kind states f = kind_of states (fault_err f)"

definition reserve_turn ::
  "('v, 'c, 'w) host \<Rightarrow> ('v, 'c, 'w) limiter_port \<Rightarrow> (go_err \<Rightarrow> rate_fault option) \<Rightarrow> (rate_fault \<Rightarrow> 'v) \<Rightarrow> allowance
     \<Rightarrow> int \<Rightarrow> ('v, 'c, 'w, int) fx" where
  "reserve_turn h limiter as_rate_fault as_failure a longest =
     try_fx h (\<lambda>I. limiter (context_of I) a longest) (as_failure \<circ> rate_fault_of as_rate_fault a)"

definition await_turn ::
  "('v, 'c, 'w) host \<Rightarrow> ('v, 'c, 'w) limiter_port \<Rightarrow> (go_err \<Rightarrow> rate_fault option) \<Rightarrow> (rate_fault \<Rightarrow> 'v) \<Rightarrow> string
     \<Rightarrow> allowance \<Rightarrow> int \<Rightarrow> ('v, 'c, 'w, unit) fx" where
  "await_turn h limiter as_rate_fault as_failure site a longest =
     (if \<not> is_stated a
      then fail_at h site (as_failure \<lparr>fault_allowance = allowance_name a, fault_err = Some err_unstated\<rparr>)
      else name_fx h
        (flat_map h (reserve_turn h limiter as_rate_fault as_failure a longest)
          (pure (\<lambda>wait. if wait \<le> 0 then succeed h () else sleep h wait)))
        ''rate wait'')"

text \<open>
  A turn is waited for in full or refused at once. With a context that stays live: a limiter's
  refusal is the typed failure and nothing is slept; a turn that is due at once is taken at once; any
  other turn is taken only after the runtime's clock has slept the whole of the reserved wait, and a
  clock that cannot sleep makes it a defect. An allowance that states nothing never reaches the limiter.
\<close>

theorem turns_are_waited_for_in_full:
  assumes live: "\<And>w. ctx_err h (context_of I) w = ((None, None), w)"
    and ran: "await_turn h limiter as_rate_fault as_failure site a longest I w = Some (x, w')"
  shows "if \<not> is_stated a
    then (\<exists>c. x = Inl c \<and> failures c = [as_failure \<lparr>fault_allowance = allowance_name a, fault_err = Some err_unstated\<rparr>]) \<and> w' = w
    else case limiter (context_of I) a longest w of
      None \<Rightarrow> False
    | Some (Inl p, w1) \<Rightarrow> x = Inl (die_cause (capture_defect p (stack_trace h w1))) \<and> w' = w1
    | Some (Inr (Inl e), w1) \<Rightarrow> x = Inl (fail_cause (as_failure (rate_fault_of as_rate_fault a e))) \<and> w' = w1
    | Some (Inr (Inr wait), w1) \<Rightarrow>
        if wait \<le> 0 then x = Inr () \<and> w' = w1
        else case clock_sleep (services (state_of I)) (context_of I) wait w1 of
          None \<Rightarrow> False
        | Some (None, w2) \<Rightarrow> x = Inr () \<and> w' = w2
        | Some (Some e, w2) \<Rightarrow> w' = w2 \<and> x = Inl (die_cause (capture_defect
            (error_value h (''effect: Clock.Sleep failed: '' @ err_text e)) (stack_trace h w2)))"
proof (cases "is_stated a")
  case False
  have m: "machine_interrupt h (context_of I) w = (None, w)" by (simp add: machine_interrupt_def live)
  show ?thesis
    using False ran
    by (auto simp: await_turn_def fail_at_def fail_with_cause_def at_checkpoint_def m fail_cause_def)
next
  case True
  have m: "machine_interrupt h (context_of I) w = (None, w)" for w by (simp add: machine_interrupt_def live)
  have n: "interruption_reason h (context_of I) w = (None, w)" for w by (simp add: interruption_reason_def live)
  show ?thesis
    using True ran
    by (auto simp: await_turn_def name_fx_def with_state_def reserve_turn_def try_fx_def from_runtime_def at_checkpoint_def
        m n flat_map_def guarded_def capture_def succeed_def sleep_def with_name_def
        split: option.splits sum.splits if_splits)
qed

text \<open>A limiter that has the next turn in seven nanoseconds, and a clock whose time is what it slept.\<close>

definition sleeping_interp :: "(string, bool, int list) interp" where
  "sleeping_interp = \<lparr>context_of = False,
     state_of = fst (new_state \<lparr>clock_now = (\<lambda>w. (0, w)), clock_sleep = (\<lambda>_ d w. Some (None, w @ [d])),
       observer = None, diagnostics = None, config_source = None\<rparr> 0 None), environment = []\<rparr>"

definition steady_host :: "(string, bool, int list) host" where
  "steady_host = \<lparr>ctx_err = (\<lambda>_ w. ((None, None), w)), stack_trace = (\<lambda>_. []), error_value = (\<lambda>t. t),
     string_value = (\<lambda>t. t), without_cancel = (\<lambda>_. False)\<rparr>"

theorem turns_are_waited_for_in_full_witness:
  "await_turn steady_host (\<lambda>_ _ _ w. Some (Inr (Inr 7), w)) (\<lambda>_. None) rate_fault_error []
     \<lparr>allowance_name = ''api'', most = 1, every = 60\<rparr> 10 sleeping_interp [] = Some (Inr (), [7])"
proof -
  let ?run = "await_turn steady_host (\<lambda>_ _ _ w. Some (Inr (Inr 7), w)) (\<lambda>_. None) rate_fault_error []
     \<lparr>allowance_name = ''api'', most = 1, every = 60\<rparr> 10 sleeping_interp []"
  obtain x w' where ran: "?run = Some (x, w')"
    by (simp add: await_turn_def is_stated_def name_fx_def reserve_turn_def try_fx_def fx_defs machine_interrupt_def
        capture_def sleep_def interruption_reason_def steady_host_def sleeping_interp_def new_state_def with_name_def)
  have live: "ctx_err steady_host (context_of sleeping_interp) w = ((None, None), w)" for w
    by (simp add: steady_host_def)
  have "x = Inr () \<and> w' = [7]"
    using turns_are_waited_for_in_full [OF live ran] by (auto simp: is_stated_def sleeping_interp_def new_state_def)
  with ran show ?thesis by simp
qed

text \<open>An error that states that something is missing, by its identity.\<close>

definition states_missing :: "go_err \<Rightarrow> fault_kind option" where
  "states_missing e = (if err_id e = 5 then Some KindMissing else None)"

theorem adopting_keeps_the_kind_witness:
  "fault_kind (fault_from states_missing (\<lambda>_. None) (GoErr 1 ''open: gone'' [GoErr 5 ''gone'' []])) = KindMissing"
  using adopting_keeps_the_kind [of "\<lambda>_. None" states_missing "GoErr 1 ''open: gone'' [GoErr 5 ''gone'' []]"]
  by (simp add: kind_of_def states_missing_def)

end
