(* ===== verification/Direct_Style.thy ===== *)
theory Direct_Style
  imports Effects
begin

section \<open>Interpreter handles and direct style\<close>

text \<open>
  \<^verbatim>\<open>effect/interpreter.go\<close>, \<^verbatim>\<open>effect/gen.go\<close>, \<^verbatim>\<open>effect/gen_body.go\<close> and
  \<^verbatim>\<open>effect/gen_workers.go\<close>. The body of a \<open>Gen\<close> is ordinary Go on a goroutine of its own: here a
  codatatype of what it does next, since a body may loop for ever. What follows an await is a function
  of its value; and since a failed await ends the goroutine with its deferred calls still to run, an
  await also carries what those calls do. The workers that run bodies are a step relation.
\<close>

subsection \<open>Handles\<close>

text \<open>The validity cells of handles; a world that has them extends this record.\<close>

record handle_heap =
  live_handle :: "nat \<Rightarrow> bool"
  next_handle :: nat

text \<open>The zero handle has no validity.\<close>

record ('v, 'c, 'w) interpreter_handle =
  handle_interp :: "('v, 'c, 'w) interp"
  handle_validity :: "nat option"

definition with_interpreter ::
  "('v, 'c, 'z handle_heap_scheme) host
     \<Rightarrow> (('v, 'c, 'z handle_heap_scheme) interpreter_handle \<Rightarrow> ('v, 'z handle_heap_scheme, 'v cause + 'a) callback)
     \<Rightarrow> ('v, 'c, 'z handle_heap_scheme, 'a) fx" where
  "with_interpreter h body = from_runtime h (\<lambda>I w.
     let k = next_handle w;
         w1 = w\<lparr>next_handle := Suc k, live_handle := (live_handle w)(k := True)\<rparr>
     in map_option (\<lambda>(r, w2). (r, w2\<lparr>live_handle := (live_handle w2)(k := False)\<rparr>))
          (body \<lparr>handle_interp = I, handle_validity = Some k\<rparr> w1))"

definition interpret_with ::
  "('v, 'c, 'z handle_heap_scheme) host \<Rightarrow> ('v, 'c, 'z handle_heap_scheme) interpreter_handle
     \<Rightarrow> ('v, 'c, 'z handle_heap_scheme, 'a) fx \<Rightarrow> ('v, 'z handle_heap_scheme, 'v cause + 'a) callback" where
  "interpret_with h handle fx w =
     (case handle_validity handle of
        Some k \<Rightarrow>
          if live_handle w k then map_option (\<lambda>(x, w'). (Inr x, w')) (fx (handle_interp handle) w)
          else Some (Inl (error_value h ''effect: Interpreter used after its WithInterpreter body returned''), w)
      | None \<Rightarrow> Some (Inl (error_value h ''effect: Interpreter used after its WithInterpreter body returned''), w))"

definition handle_context :: "('v, 'c, 'w) interpreter_handle \<Rightarrow> 'c" where
  "handle_context handle = context_of (handle_interp handle)"

text \<open>
  A handle interprets in the ambient interpretation while its body runs, and never after it.
\<close>

lemma handle_is_ambient:
  assumes "handle_validity handle = Some k" "live_handle w k" "fx (handle_interp handle) w = Some (x, w')"
  shows "interpret_with h handle fx w = Some (Inr x, w')"
  using assms by (simp add: interpret_with_def)

lemma handle_ends_with_its_body:
  assumes "ctx_err h (context_of I) w = ((None, r), w0)" "with_interpreter h body I w = Some (x, w')"
  shows "interpret_with h \<lparr>handle_interp = I, handle_validity = Some (next_handle w0)\<rparr> fx w' =
    Some (Inl (error_value h ''effect: Interpreter used after its WithInterpreter body returned''), w')"
  using assms
  by (auto simp: with_interpreter_def from_runtime_def at_checkpoint_def machine_interrupt_def guarded_def capture_def
      Let_def interpret_with_def split: option.splits sum.splits)

subsection \<open>Bodies\<close>

text \<open>
  \<open>Awaits fx k d\<close> awaits \<open>fx\<close>, goes on as \<open>k\<close> of its value, and as the deferred calls \<open>d\<close> when it did
  not succeed; \<open>Exits d\<close> is a \<^verbatim>\<open>runtime.Goexit\<close> of the body's own. While deferred calls run,
  \<open>Returns\<close> means that they are done.
\<close>

codatatype ('v, 'c, 'w, 'a) gen_body =
    Returns 'a
  | Panics 'v
  | Exits "('v, 'c, 'w, 'a) gen_body"
  | Awaits "('v, 'c, 'w) interp \<Rightarrow> 'w \<Rightarrow> (('v cause + 'v) \<times> 'w) option" "'v \<Rightarrow> ('v, 'c, 'w, 'a) gen_body"
      "('v, 'c, 'w, 'a) gen_body"
  | Acts "'w \<Rightarrow> (('v, 'c, 'w, 'a) gen_body \<times> 'w) option"

datatype ('v, 'a) ending = Returned 'a | Panicked 'v | Exited

text \<open>
  The goroutine of a body. \<open>exiting\<close> is whether it is on its way out, and \<open>failed\<close> the cause recorded by
  the last failed await.
\<close>

partial_function (option) run_steps ::
  "('v, 'c, 'w) interp \<Rightarrow> ('v, 'c, 'w, 'a) gen_body \<Rightarrow> bool \<Rightarrow> 'v cause option \<Rightarrow> 'w
     \<Rightarrow> (('v, 'a) ending \<times> 'v cause option \<times> 'w) option" where
  "run_steps I body exiting failed w =
     (case body of
        Returns a \<Rightarrow> Some (if exiting then Exited else Returned a, failed, w)
      | Panics p \<Rightarrow> Some (Panicked p, failed, w)
      | Exits d \<Rightarrow> run_steps I d True failed w
      | Awaits fx k d \<Rightarrow>
          (case fx I w of
             None \<Rightarrow> None
           | Some (Inr v, w') \<Rightarrow> run_steps I (k v) exiting failed w'
           | Some (Inl c, w') \<Rightarrow> run_steps I d True (Some c) w')
      | Acts f \<Rightarrow> (case f w of None \<Rightarrow> None | Some (b, w') \<Rightarrow> run_steps I b exiting failed w'))"

definition run_gen_body ::
  "('v, 'c, 'w) host \<Rightarrow> ('v, 'c, 'w) interp \<Rightarrow> ('v, 'c, 'w, 'a) gen_body \<Rightarrow> 'w \<Rightarrow> (('v cause + 'a) \<times> 'w) option" where
  "run_gen_body h I body w =
     (case run_steps I body False None w of
        None \<Rightarrow> None
      | Some (ended, failed, w') \<Rightarrow>
          Some (case ended of
              Returned a \<Rightarrow> Inr a
            | Panicked p \<Rightarrow> Inl (die_cause (capture_defect p (stack_trace h w')))
            | Exited \<Rightarrow>
                (case failed of
                   Some c \<Rightarrow> Inl c
                 | None \<Rightarrow> Inl (die_cause (capture_defect
                     (error_value h ''effect: the Gen body called runtime.Goexit'') (stack_trace h w')))), w'))"

definition gen ::
  "('v, 'c, 'z handle_heap_scheme) host \<Rightarrow> ('v, 'c, 'z handle_heap_scheme, 'a) gen_body
     \<Rightarrow> ('v, 'c, 'z handle_heap_scheme, 'a) fx" where
  "gen h body = with_interpreter h (\<lambda>handle w.
     map_option (\<lambda>(x, w'). (Inr x, w')) (run_gen_body h (handle_interp handle) body w))"

text \<open>\<open>Do.Fail\<close>: an await of the failure, with the caller's line as its origin.\<close>

definition gen_fail ::
  "('v, 'c, 'w) host \<Rightarrow> string \<Rightarrow> 'v \<Rightarrow> ('v, 'c, 'w, 'a) gen_body \<Rightarrow> ('v, 'c, 'w, 'a) gen_body" where
  "gen_fail h site e d =
     Awaits (fail_with_cause h (with_origin (fail_cause e) \<lparr>source = site, operation = []\<rparr>))
       (\<lambda>_. Panics (string_value h ''unreachable: runtime.Goexit returned'')) d"

text \<open>The flags of a \<open>Do\<close>, which an await looks at before anything else.\<close>

record do_flags =
  do_live :: bool
  do_busy :: bool

definition await_enter :: "do_flags \<Rightarrow> string + do_flags" where
  "await_enter f =
     (if \<not> do_live f then Inl ''effect: Do used outside the Gen body that created it''
      else if do_busy f then Inl ''effect: Do used from two goroutines at once''
      else Inr (f\<lparr>do_busy := True\<rparr>))"

definition await_leave :: "do_flags \<Rightarrow> do_flags" where
  "await_leave f = f\<lparr>do_busy := False\<rparr>"

text \<open>
  Direct style is sequencing. A body that only returns is its value; a panic is a defect; a step
  that awaits an effect, with nothing deferred, is \<open>FlatMap\<close> with the rest of the body -- so that the
  failure, the defect or the interruption of what is awaited reaches the outcome unchanged -- and what a
  body does between its steps happens between the effects.
\<close>

theorem direct_style_is_sequencing:
  "(\<lambda>I. run_gen_body h I (Returns a)) = (\<lambda>I w. Some (Inr a, w))
   \<and> (\<lambda>I. run_gen_body h I (Awaits fx k (Returns u))) = flat_map h fx (pure (\<lambda>v I. run_gen_body h I (k v)))
   \<and> (\<lambda>I. run_gen_body h I (Acts f)) = (\<lambda>I w. case f w of None \<Rightarrow> None | Some (b, w') \<Rightarrow> run_gen_body h I b w')
   \<and> (\<lambda>I. run_gen_body h I (Panics p)) = (\<lambda>I w. Some (Inl (die_cause (capture_defect p (stack_trace h w))), w))"
  by (intro conjI ext)
     (auto simp: run_gen_body_def run_steps.simps flat_map_def guarded_def capture_def pure_def
       split: option.split sum.split)

text \<open>
  A failed await runs the deferred calls and then ends with its cause, as a \<^verbatim>\<open>finally\<close> block would; but
  an await that fails among the deferred calls takes the first one's place, and so does their panic.
\<close>

lemma deferred_calls_run_on_failure:
  assumes "fx I w = Some (Inl c, w1)" "f w1 = Some (Returns u, w2)"
  shows "run_gen_body h I (Awaits fx k (Acts f)) w = Some (Inl c, w2)"
  using assms by (simp add: run_gen_body_def run_steps.simps)

lemma deferred_await_replaces_failure:
  assumes "fx I w = Some (Inl c, w1)" "release I w1 = Some (Inl d, w2)"
  shows "run_gen_body h I (Awaits fx k (Awaits release k' (Returns u))) w = Some (Inl d, w2)"
  using assms by (simp add: run_gen_body_def run_steps.simps)

lemma deferred_panic_replaces_failure:
  assumes "fx I w = Some (Inl c, w1)"
  shows "run_gen_body h I (Awaits fx k (Panics p)) w = Some (Inl (die_cause (capture_defect p (stack_trace h w1))), w1)"
  using assms by (simp add: run_gen_body_def run_steps.simps)

text \<open>\<open>Fail\<close> ends the body with its failure, at the line that called it.\<close>

lemma gen_fail_fails:
  assumes "ctx_err h (context_of I) w = ((None, r), w0)"
  shows "run_gen_body h I (gen_fail h site e (Returns u)) w =
    Some (Inl (Fail e \<lparr>source = site, operation = operation_name (meta (state_of I))\<rparr>), w0)"
  using assms
  by (simp add: run_gen_body_def run_steps.simps gen_fail_def fail_with_cause_def at_checkpoint_def machine_interrupt_def
      fail_cause_def fill_from_def no_origin_def)

subsection \<open>Workers\<close>

text \<open>
  A worker that was started waits for its first job; one that ran a body to its end parks, and runs the
  next one or leaves when its timer fires first; one whose body ended its goroutine is gone. Without a
  parked worker a dispatch starts one and hands it the job. \<open>submitted\<close> and \<open>delivered\<close> record what was
  dispatched and how often a body's result was sent.
\<close>

datatype worker = Fresh | Working nat | Parked | Gone

record pool =
  worker_at :: "nat \<Rightarrow> worker option"
  next_worker :: nat
  handing :: "nat \<Rightarrow> nat option"
  submitted :: "nat set"
  delivered :: "nat \<Rightarrow> nat"

definition new_pool :: pool where
  "new_pool = \<lparr>worker_at = (\<lambda>_. None), next_worker = 0, handing = (\<lambda>_. None), submitted = {}, delivered = (\<lambda>_. 0)\<rparr>"

definition deliver :: "nat \<Rightarrow> nat \<Rightarrow> worker \<Rightarrow> pool \<Rightarrow> pool" where
  "deliver i j after s = s\<lparr>worker_at := (worker_at s)(i \<mapsto> after), delivered := (delivered s)(j := Suc (delivered s j))\<rparr>"

inductive pool_step :: "pool \<Rightarrow> pool \<Rightarrow> bool" where
  dispatch_parked: "j \<notin> submitted s \<Longrightarrow> worker_at s i = Some Parked \<Longrightarrow>
    pool_step s (s\<lparr>submitted := insert j (submitted s), worker_at := (worker_at s)(i \<mapsto> Working j)\<rparr>)"
| dispatch_fresh: "j \<notin> submitted s \<Longrightarrow> \<forall>i. worker_at s i \<noteq> Some Parked \<Longrightarrow>
    pool_step s (s\<lparr>submitted := insert j (submitted s), worker_at := (worker_at s)(next_worker s \<mapsto> Fresh),
      next_worker := Suc (next_worker s), handing := (handing s)(j \<mapsto> next_worker s)\<rparr>)"
| hand_over: "handing s j = Some i \<Longrightarrow> worker_at s i = Some Fresh \<Longrightarrow>
    pool_step s (s\<lparr>worker_at := (worker_at s)(i \<mapsto> Working j), handing := (handing s)(j := None)\<rparr>)"
| body_returns: "worker_at s i = Some (Working j) \<Longrightarrow> pool_step s (deliver i j Parked s)"
| body_exits: "worker_at s i = Some (Working j) \<Longrightarrow> pool_step s (deliver i j Gone s)"
| worker_expires: "worker_at s i = Some Parked \<Longrightarrow> pool_step s (s\<lparr>worker_at := (worker_at s)(i \<mapsto> Gone)\<rparr>)"

inductive pool_reachable :: "pool \<Rightarrow> bool" where
  pool_starts: "pool_reachable new_pool"
| pool_steps: "pool_reachable s \<Longrightarrow> pool_step s s' \<Longrightarrow> pool_reachable s'"

definition pool_inv :: "pool \<Rightarrow> bool" where
  "pool_inv s \<longleftrightarrow>
     (\<forall>i. next_worker s \<le> i \<longrightarrow> worker_at s i = None)
   \<and> (\<forall>j i. handing s j = Some i \<longrightarrow> worker_at s i = Some Fresh \<and> j \<in> submitted s \<and> delivered s j = 0)
   \<and> (\<forall>i j. worker_at s i = Some (Working j) \<longrightarrow> j \<in> submitted s \<and> handing s j = None \<and> delivered s j = 0)
   \<and> (\<forall>i i' j. worker_at s i = Some (Working j) \<and> worker_at s i' = Some (Working j) \<longrightarrow> i = i')
   \<and> (\<forall>j j' i. handing s j = Some i \<and> handing s j' = Some i \<longrightarrow> j = j')
   \<and> (\<forall>i. worker_at s i = Some Fresh \<longrightarrow> (\<exists>j. handing s j = Some i))
   \<and> (\<forall>j. j \<in> submitted s \<longrightarrow> delivered s j \<le> 1
        \<and> (delivered s j = 0 \<longrightarrow> handing s j \<noteq> None \<or> (\<exists>i. worker_at s i = Some (Working j))))
   \<and> (\<forall>j. j \<notin> submitted s \<longrightarrow> delivered s j = 0)"

lemma pool_invD:
  assumes "pool_inv s"
  shows "next_worker s \<le> i \<Longrightarrow> worker_at s i = None"
    and "handing s j = Some i \<Longrightarrow> worker_at s i = Some Fresh \<and> j \<in> submitted s \<and> delivered s j = 0"
    and "worker_at s i = Some (Working j) \<Longrightarrow> j \<in> submitted s \<and> handing s j = None \<and> delivered s j = 0"
    and "worker_at s i = Some (Working j) \<Longrightarrow> worker_at s i' = Some (Working j) \<Longrightarrow> i = i'"
    and "handing s j = Some i \<Longrightarrow> handing s j' = Some i \<Longrightarrow> j = j'"
    and "worker_at s i = Some Fresh \<Longrightarrow> \<exists>j. handing s j = Some i"
    and "j \<in> submitted s \<Longrightarrow> delivered s j \<le> 1"
    and "j \<in> submitted s \<Longrightarrow> delivered s j = 0 \<Longrightarrow> handing s j \<noteq> None \<or> (\<exists>i. worker_at s i = Some (Working j))"
    and "j \<notin> submitted s \<Longrightarrow> delivered s j = 0"
  using assms unfolding pool_inv_def by blast+

lemma pool_invI:
  assumes "\<And>i. next_worker s \<le> i \<Longrightarrow> worker_at s i = None"
    and "\<And>j i. handing s j = Some i \<Longrightarrow> worker_at s i = Some Fresh \<and> j \<in> submitted s \<and> delivered s j = 0"
    and "\<And>i j. worker_at s i = Some (Working j) \<Longrightarrow> j \<in> submitted s \<and> handing s j = None \<and> delivered s j = 0"
    and "\<And>i i' j. worker_at s i = Some (Working j) \<Longrightarrow> worker_at s i' = Some (Working j) \<Longrightarrow> i = i'"
    and "\<And>j j' i. handing s j = Some i \<Longrightarrow> handing s j' = Some i \<Longrightarrow> j = j'"
    and "\<And>i. worker_at s i = Some Fresh \<Longrightarrow> \<exists>j. handing s j = Some i"
    and "\<And>j. j \<in> submitted s \<Longrightarrow> delivered s j \<le> 1"
    and "\<And>j. j \<in> submitted s \<Longrightarrow> delivered s j = 0 \<Longrightarrow> handing s j \<noteq> None \<or> (\<exists>i. worker_at s i = Some (Working j))"
    and "\<And>j. j \<notin> submitted s \<Longrightarrow> delivered s j = 0"
  shows "pool_inv s"
  using assms unfolding pool_inv_def by blast

lemma still_underway:
  assumes "pool_inv s" "l \<in> submitted s" "delivered s l = 0"
    and "\<And>k. handing s l = Some k \<Longrightarrow> handing s' l = Some k \<or> worker_at s' k = Some (Working l)"
    and "\<And>k. worker_at s k = Some (Working l) \<Longrightarrow> worker_at s' k = Some (Working l)"
  shows "handing s' l \<noteq> None \<or> (\<exists>i. worker_at s' i = Some (Working l))"
  using pool_invD(8) [OF assms(1-3)] assms(4,5) by blast

lemma working_facts:
  assumes "pool_inv s" "worker_at s i = Some (Working j)"
  shows "i < next_worker s \<and> j \<in> submitted s \<and> handing s j = None \<and> delivered s j = 0
    \<and> (\<forall>k. handing s k \<noteq> Some i) \<and> (\<forall>k. worker_at s k = Some (Working j) \<longleftrightarrow> k = i)"
proof (intro conjI allI)
  note d = pool_invD [OF assms(1)]
  show "i < next_worker s" using d(1) [of i] assms(2) by (cases "next_worker s \<le> i") auto
  show "j \<in> submitted s" "handing s j = None" "delivered s j = 0" using d(3) [OF assms(2)] by auto
  show "handing s k \<noteq> Some i" for k using d(2) [of k i] assms(2) by auto
  show "worker_at s k = Some (Working j) \<longleftrightarrow> k = i" for k using d(4) [of k j i] assms(2) by auto
qed

lemma pool_inv_step: "pool_step s s' \<Longrightarrow> pool_inv s \<Longrightarrow> pool_inv s'"
proof (induction rule: pool_step.induct)
  case (dispatch_parked j s i)
  note d = pool_invD [OF \<open>pool_inv s\<close>]
  have facts: "i < next_worker s" "worker_at s i = Some Parked" "j \<notin> submitted s" "handing s j = None" "delivered s j = 0"
      "\<And>k. handing s k \<noteq> Some i" "\<And>k. worker_at s k \<noteq> Some (Working j)"
    using d(1) [of i] d(2) [of j] d(2) [of _ i] d(3) [of _ j] d(9) [of j] dispatch_parked by (force simp: not_le)+
  show ?case
  proof (rule pool_invI, goal_cases)
    case (7 l)
    then show ?case using facts d(7) [of l] by (auto split: if_splits)
  next
    case (8 l)
    show ?case
    proof (cases "l = j")
      case True
      then show ?thesis using 8 facts by (auto split: if_splits)
    next
      case False
      show ?thesis
        by (rule still_underway [OF \<open>pool_inv s\<close>]) (use 8 False facts in \<open>auto split: if_splits\<close>)
    qed
  qed (use facts in \<open>auto split: if_splits simp: d(1,9) dest: d(2) d(3) d(6) intro: d(4) d(5)\<close>)
next
  case (dispatch_fresh j s)
  note d = pool_invD [OF \<open>pool_inv s\<close>]
  have facts: "worker_at s (next_worker s) = None" "handing s j = None" "j \<notin> submitted s" "delivered s j = 0"
      "\<And>k. handing s k \<noteq> Some (next_worker s)" "\<And>k. worker_at s k \<noteq> Some (Working j)"
    using d(1) [of "next_worker s"] d(2) [of j] d(2) [of _ "next_worker s"] d(3) [of _ j] d(9) [of j] dispatch_fresh by force+
  show ?case
  proof (rule pool_invI, goal_cases)
    case (6 k)
    show ?case
    proof (cases "k = next_worker s")
      case True
      then show ?thesis by (intro exI [of _ j]) simp
    next
      case False
      with 6 d(6) [of k] obtain j' where "handing s j' = Some k" by auto
      then show ?thesis using facts by (intro exI [of _ j']) auto
    qed
  next
    case (7 l)
    then show ?case using facts d(7) [of l] by (auto split: if_splits)
  next
    case (8 l)
    show ?case
    proof (cases "l = j")
      case True
      then show ?thesis using 8 facts by (auto split: if_splits)
    next
      case False
      show ?thesis
        by (rule still_underway [OF \<open>pool_inv s\<close>]) (use 8 False facts in \<open>auto split: if_splits\<close>)
    qed
  qed (use facts in \<open>auto split: if_splits simp: d(1,9) dest: d(2) d(3) d(6) intro: d(4) d(5)\<close>)
next
  case (hand_over s j i)
  note d = pool_invD [OF \<open>pool_inv s\<close>]
  have facts: "i < next_worker s" "worker_at s i = Some Fresh" "j \<in> submitted s" "handing s j = Some i" "delivered s j = 0"
      "\<And>k. k \<noteq> j \<Longrightarrow> handing s k \<noteq> Some i" "\<And>k. worker_at s k \<noteq> Some (Working j)"
  proof -
    show "i < next_worker s" using d(1) [of i] hand_over by (cases "next_worker s \<le> i") auto
    show "worker_at s i = Some Fresh" "handing s j = Some i" using hand_over by auto
    then show "j \<in> submitted s" "delivered s j = 0" using d(2) [of j i] by auto
    show "handing s k \<noteq> Some i" if "k \<noteq> j" for k using d(5) [of k i j] that hand_over by auto
    show "worker_at s k \<noteq> Some (Working j)" for k using d(3) [of k j] hand_over by auto
  qed
  show ?case
  proof (rule pool_invI, goal_cases)
    case (6 k)
    then have "k \<noteq> i" "worker_at s k = Some Fresh" by (auto split: if_splits)
    with d(6) [of k] obtain j' where "handing s j' = Some k" by auto
    with \<open>k \<noteq> i\<close> show ?case using hand_over(1) by (intro exI [of _ j']) auto
  next
    case (7 l)
    then show ?case using facts d(7) [of l] by (auto split: if_splits)
  next
    case (8 l)
    show ?case
    proof (cases "l = j")
      case True
      then show ?thesis using 8 facts by (auto split: if_splits)
    next
      case False
      show ?thesis
        by (rule still_underway [OF \<open>pool_inv s\<close>]) (use 8 False facts in \<open>auto split: if_splits\<close>)
    qed
  qed (use facts in \<open>auto split: if_splits simp: d(1,9) dest: d(2) d(3) d(6) intro: d(4) d(5)\<close>)
next
  case (body_returns s i j)
  note d = pool_invD [OF \<open>pool_inv s\<close>]
  have facts: "i < next_worker s" "worker_at s i = Some (Working j)" "j \<in> submitted s" "handing s j = None" "delivered s j = 0"
      "\<And>k. handing s k \<noteq> Some i" "\<And>k. k \<noteq> i \<Longrightarrow> worker_at s k \<noteq> Some (Working j)"
    using working_facts [OF \<open>pool_inv s\<close> body_returns(1)] by auto
  show ?case
  proof (rule pool_invI, goal_cases)
    case (7 l)
    then show ?case using facts d(7) [of l] by (auto simp: deliver_def split: if_splits)
  next
    case (8 l)
    show ?case
    proof (cases "l = j")
      case True
      then show ?thesis using 8 facts by (auto simp: deliver_def split: if_splits)
    next
      case False
      show ?thesis
        by (rule still_underway [OF \<open>pool_inv s\<close>]) (use 8 False facts in \<open>auto simp: deliver_def split: if_splits\<close>)
    qed
  qed (use facts in \<open>auto split: if_splits simp: deliver_def d(1,9) dest: d(2) d(3) d(6) intro: d(4) d(5)\<close>)
next
  case (body_exits s i j)
  note d = pool_invD [OF \<open>pool_inv s\<close>]
  have facts: "i < next_worker s" "worker_at s i = Some (Working j)" "j \<in> submitted s" "handing s j = None" "delivered s j = 0"
      "\<And>k. handing s k \<noteq> Some i" "\<And>k. k \<noteq> i \<Longrightarrow> worker_at s k \<noteq> Some (Working j)"
    using working_facts [OF \<open>pool_inv s\<close> body_exits(1)] by auto
  show ?case
  proof (rule pool_invI, goal_cases)
    case (7 l)
    then show ?case using facts d(7) [of l] by (auto simp: deliver_def split: if_splits)
  next
    case (8 l)
    show ?case
    proof (cases "l = j")
      case True
      then show ?thesis using 8 facts by (auto simp: deliver_def split: if_splits)
    next
      case False
      show ?thesis
        by (rule still_underway [OF \<open>pool_inv s\<close>]) (use 8 False facts in \<open>auto simp: deliver_def split: if_splits\<close>)
    qed
  qed (use facts in \<open>auto split: if_splits simp: deliver_def d(1,9) dest: d(2) d(3) d(6) intro: d(4) d(5)\<close>)
next
  case (worker_expires s i)
  note d = pool_invD [OF \<open>pool_inv s\<close>]
  have facts: "i < next_worker s" "worker_at s i = Some Parked" "\<And>k. handing s k \<noteq> Some i"
    using d(1) [of i] d(2) [of _ i] worker_expires by (force simp: not_le)+
  show ?case
  proof (rule pool_invI, goal_cases)
    case (7 l)
    then show ?case using facts d(7) [of l] by (auto split: if_splits)
  next
    case (8 l)
    show ?case
      by (rule still_underway [OF \<open>pool_inv s\<close>]) (use 8 facts in \<open>auto split: if_splits\<close>)
  qed (use facts in \<open>auto split: if_splits simp: d(1,9) dest: d(2) d(3) d(6) intro: d(4) d(5)\<close>)
qed

lemma pool_reachable_inv: "pool_reachable s \<Longrightarrow> pool_inv s"
proof (induction rule: pool_reachable.induct)
  case pool_starts
  show ?case by (simp add: pool_inv_def new_pool_def)
qed (auto dest: pool_inv_step)

text \<open>
  C23: no body is queued behind another. Whatever the order of dispatches, hand-overs, endings and
  expiring timers: a dispatched body whose result was not sent yet is running on a worker of its own, or
  a worker was started for it and takes it in its very next step; its result is sent once, so that the
  buffered channel of the result never blocks; and no worker waits for a job that never comes.
\<close>

theorem bodies_are_never_queued:
  assumes "pool_reachable s"
  shows "delivered s j \<le> (if j \<in> submitted s then 1 else 0)
    \<and> (j \<in> submitted s \<and> delivered s j = 0 \<longrightarrow>
        (\<exists>!i. worker_at s i = Some (Working j)) \<and> handing s j = None
        \<or> (\<exists>i. handing s j = Some i \<and> worker_at s i = Some Fresh \<and> (\<forall>j'. handing s j' = Some i \<longrightarrow> j' = j)
            \<and> (\<exists>s'. pool_step s s' \<and> worker_at s' i = Some (Working j))))
    \<and> (delivered s j = 1 \<longrightarrow> handing s j = None \<and> (\<forall>i. worker_at s i \<noteq> Some (Working j)))
    \<and> (worker_at s i = Some Fresh \<longrightarrow> (\<exists>!j. handing s j = Some i))"
proof (intro conjI impI)
  note inv = pool_reachable_inv [OF assms]
  note d = pool_invD [OF inv]
  show "delivered s j \<le> (if j \<in> submitted s then 1 else 0)" using d(7) [of j] d(9) [of j] by simp
  show "handing s j = None" if "delivered s j = 1" using d(2) [of j] that by (cases "handing s j") auto
  show "\<forall>i. worker_at s i \<noteq> Some (Working j)" if "delivered s j = 1" using d(3) [of _ j] that by auto
  show "\<exists>!j. handing s j = Some i" if fresh: "worker_at s i = Some Fresh"
  proof -
    obtain j where j: "handing s j = Some i" using d(6) [OF fresh] by blast
    show ?thesis using j d(5) [OF _ j] by blast
  qed
  show "(\<exists>!i. worker_at s i = Some (Working j)) \<and> handing s j = None
      \<or> (\<exists>i. handing s j = Some i \<and> worker_at s i = Some Fresh \<and> (\<forall>j'. handing s j' = Some i \<longrightarrow> j' = j)
          \<and> (\<exists>s'. pool_step s s' \<and> worker_at s' i = Some (Working j)))"
    if j: "j \<in> submitted s \<and> delivered s j = 0"
  proof (cases "handing s j")
    case None
    with d(8) [of j] j obtain i where i: "worker_at s i = Some (Working j)" by auto
    then have "\<exists>!i. worker_at s i = Some (Working j)" using d(4) [OF i] by blast
    then show ?thesis using None by simp
  next
    case (Some i)
    then have f: "worker_at s i = Some Fresh" using d(2) [OF Some] by simp
    have "\<forall>j'. handing s j' = Some i \<longrightarrow> j' = j" using d(5) [OF _ Some] by blast
    moreover have "\<exists>s'. pool_step s s' \<and> worker_at s' i = Some (Working j)"
      by (rule exI [of _ "s\<lparr>worker_at := (worker_at s)(i \<mapsto> Working j), handing := (handing s)(j := None)\<rparr>"])
         (simp add: pool_step.hand_over [OF Some f])
    ultimately show ?thesis using Some f by blast
  qed
qed

text \<open>A first body, for which a worker was started.\<close>

definition first_dispatch :: pool where
  "first_dispatch = \<lparr>worker_at = [0 \<mapsto> Fresh], next_worker = 1, handing = [7 \<mapsto> 0], submitted = {7}, delivered = (\<lambda>_. 0)\<rparr>"

lemma first_dispatch_reachable: "pool_reachable first_dispatch"
proof (rule pool_steps [OF pool_starts])
  have "pool_step new_pool (new_pool\<lparr>submitted := insert 7 (submitted new_pool),
      worker_at := (worker_at new_pool)(next_worker new_pool \<mapsto> Fresh),
      next_worker := Suc (next_worker new_pool), handing := (handing new_pool)(7 \<mapsto> next_worker new_pool)\<rparr>)"
    by (rule pool_step.dispatch_fresh) (simp_all add: new_pool_def)
  then show "pool_step new_pool first_dispatch" by (simp add: new_pool_def first_dispatch_def)
qed

theorem bodies_are_never_queued_witness:
  "\<exists>s'. pool_step first_dispatch s' \<and> worker_at s' 0 = Some (Working 7)"
  using bodies_are_never_queued [OF first_dispatch_reachable, where j = 7 and i = 0]
  by (simp add: first_dispatch_def)

end
