(* ===== verification/Channel_Algebra.thy ===== *)
theory Channel_Algebra
  imports Environments
begin

section \<open>Products, eithers and the channels built from them\<close>

text \<open>
  \<^verbatim>\<open>effect/algebra.go\<close>, \<^verbatim>\<open>effect/effect_composition.go\<close> and the channel-widening recovery of
  \<^verbatim>\<open>effect/effect_recovery.go\<close>. An \<open>Either\<close> is a sum and a \<open>Product\<close> a pair; composing effects with
  different channels gives a product of requirements and an either of failures. A typed failure is
  erased, so \<open>on_left\<close> and \<open>on_right\<close> erase the two sides of an either, and \<open>left_of\<close> is \<open>LeftValue\<close>.
\<close>

subsection \<open>Products and eithers\<close>

definition map_first :: "('a \<Rightarrow> 'c) \<Rightarrow> 'a \<times> 'b \<Rightarrow> 'c \<times> 'b" where
  "map_first f p = (f (fst p), snd p)"

definition map_second :: "('b \<Rightarrow> 'c) \<Rightarrow> 'a \<times> 'b \<Rightarrow> 'a \<times> 'c" where
  "map_second f p = (fst p, f (snd p))"

definition product_bimap :: "('a \<Rightarrow> 'c) \<Rightarrow> ('b \<Rightarrow> 'd) \<Rightarrow> 'a \<times> 'b \<Rightarrow> 'c \<times> 'd" where
  "product_bimap f g p = (f (fst p), g (snd p))"

fun is_left :: "'l + 'r \<Rightarrow> bool" where
  "is_left (Inl _) = True"
| "is_left (Inr _) = False"

fun is_right :: "'l + 'r \<Rightarrow> bool" where
  "is_right (Inl _) = False"
| "is_right (Inr _) = True"

fun left_value :: "'l + 'r \<Rightarrow> 'l option" where
  "left_value (Inl l) = Some l"
| "left_value (Inr _) = None"

fun right_value :: "'l + 'r \<Rightarrow> 'r option" where
  "right_value (Inl _) = None"
| "right_value (Inr r) = Some r"

fun either_fold :: "('l \<Rightarrow> 't) \<Rightarrow> ('r \<Rightarrow> 't) \<Rightarrow> 'l + 'r \<Rightarrow> 't" where
  "either_fold f g (Inr r) = g r"
| "either_fold f g (Inl l) = f l"

fun either_map :: "('r \<Rightarrow> 't) \<Rightarrow> 'l + 'r \<Rightarrow> 'l + 't" where
  "either_map f (Inr r) = Inr (f r)"
| "either_map f (Inl l) = Inl l"

fun either_flat_map :: "('r \<Rightarrow> 'l + 't) \<Rightarrow> 'l + 'r \<Rightarrow> 'l + 't" where
  "either_flat_map f (Inr r) = f r"
| "either_flat_map f (Inl l) = Inl l"

fun either_map_left :: "('l \<Rightarrow> 'm) \<Rightarrow> 'l + 'r \<Rightarrow> 'm + 'r" where
  "either_map_left f (Inr r) = Inr r"
| "either_map_left f (Inl l) = Inl (f l)"

fun either_bimap :: "('l \<Rightarrow> 'm) \<Rightarrow> ('r \<Rightarrow> 't) \<Rightarrow> 'l + 'r \<Rightarrow> 'm + 't" where
  "either_bimap f g (Inr r) = Inr (g r)"
| "either_bimap f g (Inl l) = Inl (f l)"

fun either_swap :: "'l + 'r \<Rightarrow> 'r + 'l" where
  "either_swap (Inr r) = Inl r"
| "either_swap (Inl l) = Inr l"

text \<open>An either is a monad in its right side, a functor in both, and swapping is its own inverse.\<close>

lemma either_laws:
  "either_flat_map f (Inr r) = f r" "either_flat_map Inr x = x"
  "either_flat_map g (either_flat_map f x) = either_flat_map (\<lambda>r. either_flat_map g (f r)) x"
  "either_map f x = either_flat_map (\<lambda>r. Inr (f r)) x"
  "either_bimap f g x = either_map g (either_map_left f x)"
  "either_swap (either_swap x) = x" "either_map_left f (either_swap x) = either_swap (either_map f x)"
  "either_fold f g (either_bimap p q x) = either_fold (f \<circ> p) (g \<circ> q) x"
  by (cases x; simp)+

lemma product_bimap_parts: "product_bimap f g p = map_second g (map_first f p)"
  by (simp add: product_bimap_def map_first_def map_second_def)

subsection \<open>Composing different channels\<close>

definition as_left_component ::
  "('v, 'c, 'w) host \<Rightarrow> ('v \<Rightarrow> 'v) \<Rightarrow> ('r, 'v, 'c, 'w, 'a) req_fx \<Rightarrow> ('r \<times> 'q, 'v, 'c, 'w, 'a) req_fx" where
  "as_left_component h on_left fx env = map_error h (fx (fst env)) on_left"

definition as_right_component ::
  "('v, 'c, 'w) host \<Rightarrow> ('v \<Rightarrow> 'v) \<Rightarrow> ('q, 'v, 'c, 'w, 'a) req_fx \<Rightarrow> ('r \<times> 'q, 'v, 'c, 'w, 'a) req_fx" where
  "as_right_component h on_right that env = map_error h (that (snd env)) on_right"

definition flat_map_channels ::
  "('v, 'c, 'w) host \<Rightarrow> ('v \<Rightarrow> 'v) \<Rightarrow> ('v \<Rightarrow> 'v) \<Rightarrow> ('r, 'v, 'c, 'w, 'a) req_fx
     \<Rightarrow> ('a \<Rightarrow> ('v, 'w, ('q, 'v, 'c, 'w, 'b) req_fx) callback) \<Rightarrow> ('r \<times> 'q, 'v, 'c, 'w, 'b) req_fx" where
  "flat_map_channels h on_left on_right fx f env =
     flat_map h (as_left_component h on_left fx env)
       (\<lambda>a w. map_option (map_prod (map_sum id (\<lambda>that. as_right_component h on_right that env)) id) (f a w))"

definition zip_channels ::
  "('v, 'c, 'w) host \<Rightarrow> ('v \<Rightarrow> 'v) \<Rightarrow> ('v \<Rightarrow> 'v) \<Rightarrow> ('r, 'v, 'c, 'w, 'a) req_fx \<Rightarrow> ('q, 'v, 'c, 'w, 'b) req_fx
     \<Rightarrow> ('r \<times> 'q, 'v, 'c, 'w, 'a \<times> 'b) req_fx" where
  "zip_channels h on_left on_right fx that env =
     zip_fx h (as_left_component h on_left fx env) (as_right_component h on_right that env)"

definition original_failure :: "('v \<Rightarrow> 'v option) \<Rightarrow> 'v cause \<Rightarrow> 'v option" where
  "original_failure left_of c = Option.bind (failure_of c) left_of"

definition catch_all_channels ::
  "('v, 'c, 'w) host \<Rightarrow> ('v \<Rightarrow> 'v) \<Rightarrow> ('v \<Rightarrow> 'v) \<Rightarrow> ('v \<Rightarrow> 'v option) \<Rightarrow> ('v, 'c, 'w, 'a) fx
     \<Rightarrow> ('v \<Rightarrow> ('v, 'w, ('v, 'c, 'w, 'a) fx) callback) \<Rightarrow> ('v, 'c, 'w, 'a) fx" where
  "catch_all_channels h on_left on_right left_of fx handler =
     catch_cause h (map_error h fx on_left) (\<lambda>c w.
       case original_failure left_of c of
         None \<Rightarrow> Some (Inr (fail_with_cause h c), w)
       | Some e \<Rightarrow> map_option (map_prod (map_sum id (\<lambda>next_fx. map_error h next_fx on_right)) id) (handler e w))"

subsection \<open>Where a failure came from\<close>

lemma map_error_run:
  "map_error h fx f I w =
     map_option (\<lambda>(x, w'). (map_sum (map_cause_failure f) id x, w')) (fx I w)"
  by (auto simp: map_error_def fx_defs capture_def split: option.split sum.split)

text \<open>
  Channels that are composed stay apart. The first effect sees the first requirement and the second
  the second; a failure of the first is on the left of the composed failure and one of the second, which
  only ran when the first succeeded, on the right, with no failure, defect or interruption lost.
\<close>

lemma composed_channels_stay_apart:
  assumes "fx r I w = Some (x, w1)" "\<And>c. x = Inl c \<Longrightarrow> proper c"
    and "\<And>a. x = Inr a \<Longrightarrow> f a w1 = Some (Inr that, w2) \<and> that q I w2 = Some (y, w3)"
    and "\<And>a d. x = Inr a \<Longrightarrow> y = Inl d \<Longrightarrow> proper d"
  shows "case x of
      Inl c \<Rightarrow> \<exists>c'. flat_map_channels h on_left on_right fx f (r, q) I w = Some (Inl c', w1)
        \<and> failures c' = map on_left (failures c) \<and> interruptions c' = interruptions c \<and> defects c' = defects c
    | Inr a \<Rightarrow> (case y of
        Inr b \<Rightarrow> flat_map_channels h on_left on_right fx f (r, q) I w = Some (Inr b, w3)
      | Inl d \<Rightarrow> \<exists>d'. flat_map_channels h on_left on_right fx f (r, q) I w = Some (Inl d', w3)
          \<and> failures d' = map on_right (failures d) \<and> interruptions d' = interruptions d \<and> defects d' = defects d)"
proof (cases x)
  case (Inl c)
  have "flat_map_channels h on_left on_right fx f (r, q) I w = Some (Inl (map_cause_failure on_left c), w1)"
    using assms(1) Inl by (simp add: flat_map_channels_def as_left_component_def flat_map_def map_error_run)
  then show ?thesis
    unfolding Inl sum.case using map_cause_failure_keeps_leaves [OF assms(2) [OF Inl], of on_left] by blast
next
  case (Inr a)
  with assms(3) have f: "f a w1 = Some (Inr that, w2)" "that q I w2 = Some (y, w3)" by auto
  have ran: "flat_map_channels h on_left on_right fx f (r, q) I w = Some (map_sum (map_cause_failure on_right) id y, w3)"
    using assms(1) f Inr by (simp add: flat_map_channels_def as_left_component_def as_right_component_def flat_map_def
        map_error_run guarded_def capture_def)
  show ?thesis
  proof (cases y)
    case (Inl d)
    with ran have "flat_map_channels h on_left on_right fx f (r, q) I w = Some (Inl (map_cause_failure on_right d), w3)"
      by simp
    then show ?thesis
      unfolding \<open>x = Inr a\<close> Inl sum.case
      using map_cause_failure_keeps_leaves [OF assms(4) [OF \<open>x = Inr a\<close> Inl], of on_right] by blast
  qed (use ran Inr in simp)
qed

text \<open>
  Catching keeps apart what it did not catch and what its handler did: a single failure is the handler's
  to answer, and the handler's own failures are on the right; any other cause is re-raised, with its
  failures on the left.
\<close>

lemma catch_all_channels_handles:
  assumes "fx I w = Some (Inl (Fail e o'), w1)" "left_of (on_left e) = Some e"
    and "handler e w1 = Some (Inr next_fx, w2)" "next_fx I w2 = Some (x, w3)"
  shows "catch_all_channels h on_left on_right left_of fx handler I w =
    Some (map_sum (map_cause_failure on_right) id x, w3)"
  using assms
  by (simp add: catch_all_channels_def catch_cause_def map_error_run original_failure_def capture_def)

lemma catch_all_channels_reraises:
  assumes "fx I w = Some (Inl c, w1)" "failure_of c = None" "proper c"
  shows "catch_all_channels h on_left on_right left_of fx handler I w =
    fail_with_cause h (map_cause_failure on_left c) I w1"
proof -
  have "failure_of (map_cause_failure on_left c) = None"
    using assms(2,3) by (cases c) (simp_all add: outcome_defs map_cause_failure_Empty_iff)
  then show ?thesis
    using assms(1) by (simp add: catch_all_channels_def catch_cause_def map_error_run original_failure_def capture_def)
qed

end
