(* ===== verification/Native_Channels.thy ===== *)
theory Native_Channels
  imports Shared_State Go_Strings
begin

section \<open>Native channels\<close>

text \<open>
  \<^verbatim>\<open>effect/channels.go\<close>: sending and receiving on the channels of the language as effects, and the program
  of \<^verbatim>\<open>examples/pipeline\<close> that folds what it receives. A channel has its buffer, the receives that wait
  for a value and the sends that wait for room; a nil channel is \<open>None\<close>. The \<^verbatim>\<open>select\<close> between a channel
  and the end of a context waits through the scheduler.
\<close>

subsection \<open>Channels of the language\<close>

record 'a native =
  room :: nat
  buffered :: "'a list"
  waiting_receives :: nat
  waiting_sends :: "'a list"
  is_closed :: bool

text \<open>
  An operation that can proceed answers what it does; one that has to wait answers \<open>None\<close>. A value that
  meets a waiting receive is handed over.
\<close>

definition native_send :: "'a \<Rightarrow> 'a native \<Rightarrow> (bool \<times> 'a native) option" where
  "native_send v c =
     (if is_closed c then Some (False, c)
      else if 0 < waiting_receives c then Some (True, c\<lparr>waiting_receives := waiting_receives c - 1\<rparr>)
      else if length (buffered c) < room c then Some (True, c\<lparr>buffered := buffered c @ [v]\<rparr>)
      else None)"

definition native_receive :: "'a native \<Rightarrow> ('a option \<times> 'a native) option" where
  "native_receive c =
     (case (buffered c, waiting_sends c) of
        (v # b, []) \<Rightarrow> Some (Some v, c\<lparr>buffered := b\<rparr>)
      | (v # b, s # ss) \<Rightarrow> Some (Some v, c\<lparr>buffered := b @ [s], waiting_sends := ss\<rparr>)
      | ([], s # ss) \<Rightarrow> Some (Some s, c\<lparr>waiting_sends := ss\<rparr>)
      | ([], []) \<Rightarrow> if is_closed c then Some (None, c) else None)"

text \<open>
  Values wait to be sent only when the buffer is full, receives wait only when nothing is there, and the
  operations that waited were woken when the channel was closed.
\<close>

definition native_ok :: "'a native \<Rightarrow> bool" where
  "native_ok c \<longleftrightarrow> length (buffered c) \<le> room c
     \<and> (waiting_sends c \<noteq> [] \<longrightarrow> length (buffered c) = room c \<and> waiting_receives c = 0 \<and> \<not> is_closed c)
     \<and> (0 < waiting_receives c \<longrightarrow> buffered c = [] \<and> \<not> is_closed c)"

definition in_flight :: "'a native \<Rightarrow> 'a list" where
  "in_flight c = buffered c @ waiting_sends c"

lemma native_send_ok: "native_ok c \<Longrightarrow> native_send v c = Some (ok, c') \<Longrightarrow> native_ok c'"
  by (auto simp: native_ok_def native_send_def split: if_splits)

lemma native_receive_ok: "native_ok c \<Longrightarrow> native_receive c = Some (r, c') \<Longrightarrow> native_ok c'"
  by (auto simp: native_ok_def native_receive_def split: if_splits list.splits)

text \<open>A channel is first in, first out: a receive answers the oldest value in flight, a send adds the newest.\<close>

lemma native_receive_oldest:
  "in_flight c = v # vs \<Longrightarrow> \<exists>c'. native_receive c = Some (Some v, c') \<and> in_flight c' = vs \<and> is_closed c' = is_closed c"
  by (auto simp: in_flight_def native_receive_def split: list.splits)

lemma native_receive_end: "in_flight c = [] \<Longrightarrow> native_receive c = (if is_closed c then Some (None, c) else None)"
  by (auto simp: in_flight_def native_receive_def)

lemma native_send_newest:
  assumes "native_ok c" "native_send v c = Some (True, c')"
  shows "in_flight c' = in_flight c @ [v] \<or> (in_flight c = [] \<and> in_flight c' = [] \<and> waiting_receives c = Suc (waiting_receives c'))"
  using assms by (auto simp: native_ok_def native_send_def in_flight_def split: if_splits)

text \<open>A send after closing panics, whoever closed the channel.\<close>

lemma native_send_closed: "native_send v c = Some (False, c') \<longleftrightarrow> is_closed c \<and> c' = c"
  by (auto simp: native_send_def)

subsection \<open>Sending and receiving as effects\<close>

record 'a channels =
  channel_heap :: "nat \<Rightarrow> 'a native"

text \<open>A channel operation on the world: \<open>None\<close> while it cannot proceed; a nil channel never does.\<close>

definition at_channel ::
  "('a native \<Rightarrow> ('b \<times> 'a native) option) \<Rightarrow> nat option \<Rightarrow> ('a, 'z) channels_scheme
     \<Rightarrow> ('b \<times> ('a, 'z) channels_scheme) option" where
  "at_channel step ch w =
     (case ch of None \<Rightarrow> None
      | Some k \<Rightarrow> map_option (\<lambda>(b, c). (b, w\<lparr>channel_heap := (channel_heap w)(k := c)\<rparr>)) (step (channel_heap w k)))"

definition select_channel ::
  "('v, 'c, ('a, 'z) channels_scheme) host \<Rightarrow> ('c, ('a, 'z) channels_scheme) scheduler
     \<Rightarrow> (('a, 'z) channels_scheme \<Rightarrow> ('b \<times> ('a, 'z) channels_scheme) option) \<Rightarrow> ('b \<Rightarrow> 'v + ('v cause + 'e)) \<Rightarrow> 'c
     \<Rightarrow> ('v, ('a, 'z) channels_scheme, 'v cause + 'e) callback" where
  "select_channel h park step answer ctx w =
     (case park (\<lambda>w. step w \<noteq> None) (Some ctx) w of
        None \<Rightarrow> None
      | Some (True, w1) \<Rightarrow> map_option (\<lambda>(b, w2). (answer b, w2)) (step w1)
      | Some (False, w1) \<Rightarrow> interrupted_exit h ctx w1)"

definition send ::
  "('v, 'c, ('a, 'z) channels_scheme) host \<Rightarrow> ('c, ('a, 'z) channels_scheme) scheduler \<Rightarrow> nat option \<Rightarrow> 'a
     \<Rightarrow> ('v, 'c, ('a, 'z) channels_scheme, unit) fx" where
  "send h park ch v = from_runtime h (\<lambda>I.
     select_channel h park (at_channel (native_send v) ch)
       (\<lambda>ok. if ok then Inr (Inr ()) else Inl (error_value h ''send on closed channel'')) (context_of I))"

text \<open>The value with OK true is \<open>Some\<close>; OK is false when the channel is closed and drained.\<close>

definition recv ::
  "('v, 'c, ('a, 'z) channels_scheme) host \<Rightarrow> ('c, ('a, 'z) channels_scheme) scheduler \<Rightarrow> nat option
     \<Rightarrow> ('v, 'c, ('a, 'z) channels_scheme, 'a option) fx" where
  "recv h park ch = from_runtime h (\<lambda>I.
     select_channel h park (at_channel native_receive ch) (\<lambda>r. Inr (Inr r)) (context_of I))"

definition recv_or_fail ::
  "('v, 'c, ('a, 'z) channels_scheme) host \<Rightarrow> ('c, ('a, 'z) channels_scheme) scheduler \<Rightarrow> nat option \<Rightarrow> 'v
     \<Rightarrow> ('v, 'c, ('a, 'z) channels_scheme, 'a) fx" where
  "recv_or_fail h park ch close_failure = from_runtime h (\<lambda>I.
     select_channel h park (at_channel native_receive ch)
       (\<lambda>r. case r of None \<Rightarrow> Inr (Inl (fail_cause close_failure)) | Some v \<Rightarrow> Inr (Inr v)) (context_of I))"

subsection \<open>What a channel effect answers\<close>

lemma select_channel_SomeE:
  assumes "select_channel h park step answer ctx w = Some (x, w')"
  obtains (chosen) b w1 where "park (\<lambda>w. step w \<noteq> None) (Some ctx) w = Some (True, w1)" "step w1 = Some (b, w')" "x = answer b"
  | (stopped) r w1 where "park (\<lambda>w. step w \<noteq> None) (Some ctx) w = Some (False, w1)" "x = Inr (Inl (interrupt_cause r))"
      "w' = snd (ctx_err h ctx w1)"
proof -
  obtain ready w1 where p: "park (\<lambda>w. step w \<noteq> None) (Some ctx) w = Some (ready, w1)"
    using assms unfolding select_channel_def by (auto split: option.splits)
  show thesis
  proof (cases ready)
    case True
    then have "map_option (\<lambda>(b, w2). (answer b, w2)) (step w1) = Some (x, w')"
      using assms unfolding select_channel_def p by simp
    then show thesis using p True by (auto intro: chosen)
  next
    case False
    then have "interrupted_exit h ctx w1 = Some (x, w')"
      using assms unfolding select_channel_def p by simp
    then show thesis using p False interrupted_exit_SomeD [of h ctx w1 x w'] by (auto intro: stopped)
  qed
qed

text \<open>
  A send delivers its value, dies because the channel was closed, or is interrupted, and then the channel
  has only what others did to it; it never ends with a typed failure, as its channel \<^verbatim>\<open>Never\<close> says.
\<close>

lemma send_outcomes:
  assumes "others_keep h park (\<lambda>w w'. (channel_heap w k, channel_heap w' k) \<in> C\<^sup>*)" "send h park (Some k) v I w = Some (x, w')"
  shows "(x = Inr () \<and> (\<exists>c. (channel_heap w k, c) \<in> C\<^sup>* \<and> native_send v c = Some (True, channel_heap w' k)))
    \<or> (\<exists>d. x = Inl (die_cause d) \<and> is_closed (channel_heap w' k) \<and> (channel_heap w k, channel_heap w' k) \<in> C\<^sup>*)
    \<or> (\<exists>r. x = Inl (interrupt_cause r) \<and> (channel_heap w k, channel_heap w' k) \<in> C\<^sup>*)"
proof -
  let ?w = "snd (ctx_err h (context_of I) w)"
  have before: "(channel_heap w k, channel_heap ?w k) \<in> C\<^sup>*" by (rule others_keepD(2) [OF assms(1)])
  have after: "(channel_heap w k, channel_heap w1 k) \<in> C\<^sup>*" if "park cond ctx ?w = Some (b, w1)" for cond ctx b w1
    using before others_keepD(1) [OF assms(1) that] by (rule rtrancl_trans)
  have gone: "(channel_heap w k, channel_heap (snd (ctx_err h ctx w1)) k) \<in> C\<^sup>*"
    if "(channel_heap w k, channel_heap w1 k) \<in> C\<^sup>*" for ctx w1
    using that others_keepD(2) [OF assms(1)] by (rule rtrancl_trans)
  show ?thesis
    using assms(2) unfolding send_def
  proof (cases rule: from_runtime_SomeE)
    case (interrupted r)
    then show ?thesis using before by blast
  next
    case (panicked p)
    from panicked(1) show ?thesis
    proof (cases rule: select_channel_SomeE)
      case (chosen ok w1)
      then have "channel_heap w' k = channel_heap w1 k \<and> is_closed (channel_heap w' k)"
        by (auto simp: at_channel_def native_send_closed split: if_splits)
      then show ?thesis using panicked(2) after [OF chosen(1)] by auto
    qed simp
  next
    case returned
    then show ?thesis
    proof (cases rule: select_channel_SomeE)
      case (chosen ok w1)
      then have "native_send v (channel_heap w1 k) = Some (True, channel_heap w' k)" "x = Inr ()"
        by (auto simp: at_channel_def split: if_splits)
      then show ?thesis using after [OF chosen(1)] by blast
    next
      case (stopped r w1)
      then show ?thesis using gone [OF after [OF stopped(1)]] by auto
    qed
  qed
qed

subsection \<open>Folding what is received\<close>

record summary =
  records :: int
  words :: int

definition count_record :: "summary \<Rightarrow> string \<Rightarrow> summary" where
  "count_record s record = \<lparr>records = records s + 1, words = words s + int (length (fields_of record))\<rparr>"

definition split_records :: "string \<Rightarrow> string list" where
  "split_records content =
     (let content = (if has_suffix content [newline] then butlast content else content)
      in filter (\<lambda>r. r \<noteq> []) (map trim_space (split content [newline])))"

partial_function (option) fold_records ::
  "('v, 'c, (string, 'z) channels_scheme) host \<Rightarrow> ('c, (string, 'z) channels_scheme) scheduler \<Rightarrow> nat option \<Rightarrow> summary
     \<Rightarrow> ('v, 'c, (string, 'z) channels_scheme) interp \<Rightarrow> (string, 'z) channels_scheme
     \<Rightarrow> (('v cause + summary) \<times> (string, 'z) channels_scheme) option" where
  "fold_records h park ch s I w =
     (case recv h park ch I w of
        None \<Rightarrow> None
      | Some (Inl c, w1) \<Rightarrow> Some (Inl c, w1)
      | Some (Inr None, w1) \<Rightarrow> succeed h s I w1
      | Some (Inr (Some v), w1) \<Rightarrow> fold_records h park ch (count_record s v) I w1)"

text \<open>The recursion is the code's: a receive and, while the channel is open, the fold of the rest.\<close>

lemma fold_records_is_flat_map:
  "fold_records h park ch s = flat_map h (recv h park ch)
     (pure (\<lambda>r. case r of None \<Rightarrow> succeed h s | Some v \<Rightarrow> fold_records h park ch (count_record s v)))"
  by (intro ext, subst fold_records.simps)
     (simp add: flat_map_def guarded_def capture_def split: option.splits sum.splits prod.splits)

text \<open>
  When the producer has closed the channel, a fold that nobody interrupts returns, has counted every
  value that was in flight, in order, and leaves the channel drained.
\<close>

lemma recv_ready:
  assumes "\<And>w. ctx_err h (context_of I) w = ((None, reason), w)"
    and "native_receive (channel_heap w k) = Some (r, c)"
  shows "recv h alone (Some k) I w = Some (Inr r, w\<lparr>channel_heap := (channel_heap w)(k := c)\<rparr>)"
  unfolding recv_def
  by (rule from_runtime_live [OF assms(1)]) (simp add: select_channel_def alone_def at_channel_def assms(2))

lemma fold_records_drains:
  assumes live: "\<And>w. ctx_err h (context_of I) w = ((None, reason), w)"
    and "is_closed (channel_heap w k)"
  shows "\<exists>w'. fold_records h alone (Some k) s I w = Some (Inr (foldl count_record s (in_flight (channel_heap w k))), w')
    \<and> in_flight (channel_heap w' k) = []"
  using assms(2)
proof (induction "in_flight (channel_heap w k)" arbitrary: s w)
  case Nil
  then have "native_receive (channel_heap w k) = Some (None, channel_heap w k)"
    using native_receive_end [of "channel_heap w k"] by simp
  from recv_ready [OF live this] show ?case
    using Nil.hyps
    by (subst fold_records.simps) (simp add: succeed_def at_checkpoint_def machine_interrupt_def live)
next
  case (Cons v vs)
  obtain c where c: "native_receive (channel_heap w k) = Some (Some v, c)" "in_flight c = vs" "is_closed c"
    using native_receive_oldest [OF Cons.hyps(2) [symmetric]] Cons.prems by auto
  let ?w = "w\<lparr>channel_heap := (channel_heap w)(k := c)\<rparr>"
  have "\<exists>w'. fold_records h alone (Some k) (count_record s v) I ?w
      = Some (Inr (foldl count_record (count_record s v) vs), w') \<and> in_flight (channel_heap w' k) = []"
    using Cons.hyps(1) [of ?w "count_record s v"] c by simp
  then show ?case
    using recv_ready [OF live c(1)] Cons.hyps(2) [symmetric] by (subst fold_records.simps) simp
qed

end
