(* ===== verification/Spec2Isabelle.thy ===== *)
theory Spec2Isabelle
  imports Effectgo_Command Prelude Outcome Work_Queue Queue_Steps Broadcast_Hub Resource_Scope Recurrence Rate_Limit
    Cache_LRU Go_Strings Config_Error Config_Source Config_Read
    Runtime_State Interpreter Effects Scoped_Effects Retry Stream_Pulls Streams
    Parallel Cause_Report Environments Shared_State Fiber_Effects Queue_Effects
    Typed_Programs Manual_Clock Config_Document Platform_Services Runtime_Host
    Classified_Faults Direct_Style Channel_Algebra Native_Channels
begin

text \<open>
  Verification of the effect runtime under \<^verbatim>\<open>src/effect\<close>, a Go library in which a program is a
  value of type \<open>Effect[R, E, A]\<close>, a tree of instructions that an interpreter runs with an
  environment \<open>R\<close>, ending in an exit that is a value \<open>A\<close> or a cause made of typed failures \<open>E\<close>,
  defects and interruptions; and of the command under \<^verbatim>\<open>src/tools/effectgo\<close>, which rewrites programs in
  the direct style of that library into chains of its combinators.

  \<^bold>\<open>The parts and how they interact.\<close> An \<^emph>\<open>effect\<close> is built by combinators from
  \<^emph>\<open>instructions\<close>; the \<^emph>\<open>interpreter\<close> runs them with explicit continuation frames, turns panics
  into defects, and checks the context for cancellation at each leaf. It passes down a \<^emph>\<open>runtime
  state\<close>: services (clock, observer, configuration source), the current scope and span. A \<^emph>\<open>scope\<close>
  owns fibers and finalizers; closing it cancels and joins the fibers and then releases in reverse.
  \<^emph>\<open>Parallel\<close> compositions run branches as fibers of a private scope and combine their \<^emph>\<open>outcomes\<close>.
  \<^emph>\<open>Queues\<close> and \<^emph>\<open>hubs\<close> pass values between fibers. \<^emph>\<open>Streams\<close> pull chunks through effects
  opened in a scope. \<^emph>\<open>Schedules\<close> decide delays for \<^emph>\<open>retry\<close> and repeat; \<^emph>\<open>rate\<close> limits, \<^emph>\<open>caches\<close>
  and \<^emph>\<open>configuration\<close> are packages over these. \<^emph>\<open>Environments\<close> and layers provide what a program
  requires; \<^emph>\<open>references\<close> and deferreds are cells its fibers share; the \<^emph>\<open>direct style\<close> runs an ordinary
  function body as an effect; the \<^emph>\<open>runtime\<close> assembles the services, runs a program in a scope of its own
  and \<^emph>\<open>reports\<close> how it ended. The \<^emph>\<open>rewriter\<close> finds the bodies in direct style, decides which of them it
  can translate, emits their translation as edits of the source, and the command hands the go command an
  overlay that names the edited files.

  \<^bold>\<open>Theories and sources.\<close>
  \<^item> \<open>Prelude\<close>: Go errors and their chains, 64-bit arithmetic, list lemmas, and two interfaces as
    locales: \<open>failure_algebra\<close> (interpreted by both compositions of causes and by configuration
    errors) and \<open>progressing\<close> (interpreted by the runner of a pair and by a collection).
  \<^item> \<open>Outcome\<close>: \<^verbatim>\<open>internal/outcome\<close>, \<^verbatim>\<open>cause.go\<close>, \<^verbatim>\<open>cause_fold.go\<close>, \<^verbatim>\<open>exit.go\<close>. The iterative
    traversals agree with structural recursion, composing loses no leaf, statuses name the most
    severe leaf, and combining parallel branches drops only induced interruptions.
  \<^item> \<open>Work_Queue\<close>, \<open>Queue_Steps\<close>: \<^verbatim>\<open>internal/lifetime/queue*.go\<close>. Each critical section as a function,
    and every interleaving of callers as a step relation: values are taken in the order they were
    accepted, and no waiter is left when its value, room or shutdown is there.
  \<^item> \<open>Broadcast_Hub\<close>: \<^verbatim>\<open>internal/lifetime/hub.go\<close>. Publication to every inbox in order; shutdown. What the hub
    relies on is the locale \<open>inbox_contract\<close>, interpreted on the operations of \<open>Work_Queue\<close>.
  \<^item> \<open>Resource_Scope\<close>: \<^verbatim>\<open>internal/lifetime/completion.go\<close>, \<^verbatim>\<open>ledger.go\<close>, \<^verbatim>\<open>scope.go\<close>,
    \<^verbatim>\<open>internal/runtime/spawn.go\<close>. Completions are written once; finalizers run once, in reverse and
    after the children, under any interleaving of registration, forks and closing.
  \<^item> \<open>Runtime_State\<close>: \<^verbatim>\<open>internal/runtime/state.go\<close>, \<^verbatim>\<open>events.go\<close>, the records of
    \<^verbatim>\<open>capability/capability.go\<close>. Derived states, span identities, events delivered to an observer
    whose panics are contained.
  \<^item> \<open>Interpreter\<close>: \<^verbatim>\<open>internal/runtime/node.go\<close>, \<^verbatim>\<open>interpret.go\<close>, \<^verbatim>\<open>interpret_guard.go\<close>. The loop
    with its stack of frames is equivalent to a compositional big-step meaning of instructions.
  \<^item> \<open>Effects\<close>: \<^verbatim>\<open>effect.go\<close>, \<^verbatim>\<open>effect_sequential.go\<close>, \<^verbatim>\<open>effect_recovery.go\<close>,
    \<^verbatim>\<open>effect_composition.go\<close>, \<^verbatim>\<open>finalization.go\<close>, \<^verbatim>\<open>erasure.go\<close>. Combinators as denotations, shown to be
    what the interpreter makes of the instructions the code builds; their laws.
  \<^item> \<open>Scoped_Effects\<close>: \<^verbatim>\<open>scope.go\<close> and spans of \<^verbatim>\<open>effect_observation.go\<close>, on a heap of scopes. An
    acquired resource is released on every outcome of the scoped body.
  \<^item> \<open>Parallel\<close>: \<^verbatim>\<open>internal/runtime/parallel.go\<close>, \<^verbatim>\<open>parallel_all.go\<close>, \<^verbatim>\<open>concurrency.go\<close>, \<^verbatim>\<open>timeout.go\<close>,
    \<^verbatim>\<open>collections.go\<close>, \<^verbatim>\<open>struct_par.go\<close>. Runner and branches as step relations; both branches are
    awaited, collections are bounded, end, and keep input order and every failure.
  \<^item> \<open>Recurrence\<close>, \<open>Retry\<close>: \<^verbatim>\<open>schedule*.go\<close>, \<^verbatim>\<open>retry*.go\<close>, \<^verbatim>\<open>clock.go\<close>. Schedules as corecursive
    drivers whose saturating arithmetic never overflows; retries stop within their bound.
  \<^item> \<open>Stream_Pulls\<close>, \<open>Streams\<close>: \<^verbatim>\<open>chunk.go\<close>, \<^verbatim>\<open>stream*.go\<close>. Transforms act as list functions, collecting
    gives the values back, and taking stops pulling.
  \<^item> \<open>Rate_Limit\<close>, \<open>Cache_LRU\<close>: \<^verbatim>\<open>rate/\<close>, \<^verbatim>\<open>cache/\<close>. A rate is never exceeded; the cache implements
    a list of recent entries, and any \<open>store_contract\<close> is a store of the cache, as the one in memory is.
  \<^item> \<open>Go_Strings\<close>, \<open>Config_Error\<close>, \<open>Config_Source\<close>, \<open>Config_Read\<close>, \<open>Config_Document\<close>: \<^verbatim>\<open>config/\<close>,
    \<^verbatim>\<open>configuration.go\<close>. Sources, descriptions and their errors: a composed description reports every
    failure, the document of a description is a table of its columns, secrets are never shown.
  \<^item> \<open>Cause_Report\<close>: \<^verbatim>\<open>cause_format.go\<close>, \<^verbatim>\<open>cause_report.go\<close>. The iterative rendering is that of the
    tree of causes.
  \<^item> \<open>Environments\<close>: \<^verbatim>\<open>environment.go\<close>, \<^verbatim>\<open>layer.go\<close>, \<^verbatim>\<open>env/\<close>. Services by type; a complete set of
    services resolves, layers compose and share.
  \<^item> \<open>Shared_State\<close>: \<^verbatim>\<open>ref.go\<close>, \<^verbatim>\<open>deferred.go\<close>. Changes of a reference are never lost, also when one
    panics; a deferred is written once.
  \<^item> \<open>Fiber_Effects\<close>, \<open>Queue_Effects\<close>: \<^verbatim>\<open>internal/lifetime/fiber.go\<close>, \<^verbatim>\<open>fork.go\<close>, \<^verbatim>\<open>queue.go\<close>,
    \<^verbatim>\<open>hub.go\<close>. Fibers and queues as effects on the heap, waiting through the scheduler.
  \<^item> \<open>Native_Channels\<close>: \<^verbatim>\<open>channels.go\<close> and the fold of \<^verbatim>\<open>examples/pipeline\<close>. Channels of the language are
    first in, first out; a send never fails, and a fold counts everything that was in flight.
  \<^item> \<open>Typed_Programs\<close>: \<^verbatim>\<open>erasure.go\<close>. A typing judgement on erased instructions that their runs preserve.
  \<^item> \<open>Channel_Algebra\<close>: \<^verbatim>\<open>algebra.go\<close>, \<^verbatim>\<open>effect_composition.go\<close>. Either and products, and the
    combinators that widen a channel.
  \<^item> \<open>Direct_Style\<close>: \<^verbatim>\<open>interpreter.go\<close>, \<^verbatim>\<open>gen*.go\<close>. Bodies as a codatatype of awaits and
    endings, equal to sequencing; the workers that run bodies, as a step relation.
  \<^item> \<open>Manual_Clock\<close>, \<open>Platform_Services\<close>: \<^verbatim>\<open>effecttest/\<close>, \<^verbatim>\<open>log.go\<close>, \<^verbatim>\<open>filesystem.go\<close>,
    \<^verbatim>\<open>internal/platform/\<close>. Test doubles and live services over an operating system that is an argument.
  \<^item> \<open>Classified_Faults\<close>: \<^verbatim>\<open>fault/\<close>, \<^verbatim>\<open>task.go\<close>, \<^verbatim>\<open>rate/turn.go\<close>. Kinds of faults and how they are adopted.
  \<^item> \<open>Runtime_Host\<close>: \<^verbatim>\<open>runtime*.go\<close>, \<^verbatim>\<open>process.go\<close>. Options, runs and closing: a run ends the lifetime
    it began, and closing releases before it flushes.
  \<^item> \<open>Go_Syntax\<close>: the nodes of \<^verbatim>\<open>go/ast\<close> with their positions, the order in which \<^verbatim>\<open>ast.Inspect\<close> visits
    them, and what the type checker answers, as a record.
  \<^item> \<open>Rewrite_Names\<close>: \<^verbatim>\<open>text.go\<close>, \<^verbatim>\<open>names.go\<close>. Splicing edits, fresh names, and which types a file can
    name, decided on cyclic types.
  \<^item> \<open>Rewrite_Site\<close>, \<open>Rewrite_Order\<close>: \<^verbatim>\<open>site.go\<close>, \<^verbatim>\<open>order.go\<close>. Which bodies are translated: every use of
    the handle is an await, terminating statements do not fall through, and awaiting the steps of a statement
    before it keeps the order of evaluation.
  \<^item> \<open>Rewrite_Text\<close>, \<open>Rewrite_Emit\<close>, \<open>Rewrite_File\<close>: \<^verbatim>\<open>walk.go\<close>, \<^verbatim>\<open>emit.go\<close>, \<^verbatim>\<open>branch.go\<close>,
    \<^verbatim>\<open>loop.go\<close>, \<^verbatim>\<open>range.go\<close>, \<^verbatim>\<open>tail.go\<close>, \<^verbatim>\<open>file.go\<close>. The text emitted for a body and for a file: no
    replacement is dropped, and a file changes at its calls and its imports only.
  \<^item> \<open>Effectgo_Command\<close>: \<^verbatim>\<open>main.go\<close>, \<^verbatim>\<open>series.go\<close>, \<^verbatim>\<open>cache.go\<close>. The command line, the cache and the
    overlay: files of the source tree are left as they are.

  \<^bold>\<open>How the code is represented.\<close> Records are structs and datatypes are tagged unions, with the
  names of the code. Values erased to \<^verbatim>\<open>any\<close> are a type variable \<open>'v\<close>, the world that effects act on
  is \<open>'w\<close>; a callback answers \<open>None\<close> when it never returns, \<open>Inl\<close> when it panics. Contexts, the
  clock, stack traces and observers are fields of \<open>host\<close>, \<open>capabilities\<close> and \<open>scope_host\<close>, since they
  come from outside. A goroutine that waits does so through the argument \<open>park\<close>, the scheduler: it lets the
  others run and answers when the awaited condition holds or the context is done (\<open>wakes_when_ready\<close>,
  \<open>others_keep\<close>). What the go command, the package loader and the type checker answer are fields of
  \<open>toolchain\<close> and \<open>type_info\<close>. Critical sections are functions on the state a mutex protects, and concurrency
  is the interleaving of such sections in \<open>inductive\<close> relations. Where Go's \<open>select\<close> may pick any ready
  case the relation has a step for each.

  \<^bold>\<open>Bounds and fuel.\<close> Loops of programs that may run for ever are \<open>partial_function (option)\<close>, and what is
  claimed to return is proved to be \<open>Some\<close>; every other recursion has its termination proof. Durations and
  instants are integers with the wrap-around of 64 bits written out; identities are 64-bit words. Positions
  and offsets in files are natural numbers.

  \<^bold>\<open>Not modelled.\<close> Jitter scales a delay by a \<^verbatim>\<open>float64\<close>, and the parsers of floats and durations are the
  standard library's. The environment of the process and its signals are input and output. The methods of
  \<open>Operations\<close> and \<open>IOOperations\<close> repeat package functions with their type arguments fixed. Of
  \<^verbatim>\<open>effecttest\<close> the fixtures and assertions are left out, and of \<^verbatim>\<open>examples\<close>, which holds example programs,
  all but that fold. Of the command, running the resulting go command and its exit status are left out.

  \<^bold>\<open>What is not claimed.\<close> The typed facade of combinators over several arities is modelled once, on lists.
  The translation of a body is shown to keep the order of evaluation, the ends of its lists, the edits and the
  file around them; that the emitted text, compiled, runs as the body did is not stated as one simulation,
  since it would need a semantics of the whole of Go.
\<close>

end
